(* ===== verification/Prelude.thy ===== *)
theory Prelude
  imports Main "HOL-Library.Multiset" "HOL-Library.Char_ord" "HOL-Library.List_Lexorder"
begin

text \<open>
  The prelude of the development: the collections of rewrite rules the component theories fill,
  the model of Go's \<open>sort\<close> package with its contract as a locale, and generic lemmas on lists
  and association lists. A Go \<open>string\<close> is a byte sequence, here a \<open>string\<close> (a list of
  8-bit characters); Go's \<open><\<close> on strings is the lexicographic order of
  \<open>List_Lexorder\<close> over the byte order of \<open>Char_ord\<close>.
\<close>

section \<open>Collections of rewrite rules\<close>

named_theorems gostr_simps \<open>evaluation of the Go string functions\<close>
named_theorems sort_simps \<open>facts about sorted Go slices\<close>
named_theorems flow_simps \<open>facts about control-flow graphs and data-flow states\<close>

section \<open>Go's sort.SliceStable and sort.Slice\<close>

text \<open>
  \<open>sort.SliceStable(xs, less)\<close> as insertion sort: every stable sort computes the same list, so
  the choice of algorithm does not matter. \<open>sort.Slice\<close> may permute equal elements; the places
  that use it compare on a key that determines the element, or the result is shown not to depend
  on the order (\<open>stable_sort_unique\<close> below).
\<close>

fun insert_by :: "('a \<Rightarrow> 'a \<Rightarrow> bool) \<Rightarrow> 'a \<Rightarrow> 'a list \<Rightarrow> 'a list" where
  "insert_by lt x [] = [x]"
| "insert_by lt x (y # ys) = (if lt y x then y # insert_by lt x ys else x # y # ys)"

fun stable_sort :: "('a \<Rightarrow> 'a \<Rightarrow> bool) \<Rightarrow> 'a list \<Rightarrow> 'a list" where
  "stable_sort lt [] = []"
| "stable_sort lt (x # xs) = insert_by lt x (stable_sort lt xs)"

lemma mset_insert_by [simp]: "mset (insert_by lt x xs) = add_mset x (mset xs)"
  by (induction xs) auto

lemma mset_stable_sort [simp]: "mset (stable_sort lt xs) = mset xs"
  by (induction xs) auto

lemma set_stable_sort [simp]: "set (stable_sort lt xs) = set xs"
  by (metis mset_stable_sort set_mset_mset)

lemma length_stable_sort [simp]: "length (stable_sort lt xs) = length xs"
  by (metis mset_stable_sort size_mset)

lemma distinct_stable_sort [simp]: "distinct (stable_sort lt xs) = distinct xs"
  by (metis mset_stable_sort mset_eq_imp_distinct_iff)

lemma stable_sort_Nil_iff [simp]: "stable_sort lt xs = [] \<longleftrightarrow> xs = []"
  by (metis length_0_conv length_stable_sort)

text \<open>The contract of a \<open>less\<close> function: a strict weak order, as the package demands.\<close>

locale go_less =
  fixes lt :: "'a \<Rightarrow> 'a \<Rightarrow> bool"
  assumes lt_asym: "lt x y \<Longrightarrow> \<not> lt y x"
    and lt_split: "lt x z \<Longrightarrow> lt x y \<or> lt y z"
begin

lemma lt_irrefl: "\<not> lt x x"
  using lt_asym by blast

lemma lt_trans: "lt x y \<Longrightarrow> lt y z \<Longrightarrow> lt x z"
  using lt_asym lt_split by blast

lemma not_lt_trans: "\<not> lt y x \<Longrightarrow> \<not> lt z y \<Longrightarrow> \<not> lt z x"
  using lt_split by blast

lemma set_insert_by: "set (insert_by lt x xs) = insert x (set xs)"
  by (induction xs) auto

lemma sorted_insert_by:
  "sorted_wrt (\<lambda>a b. \<not> lt b a) xs \<Longrightarrow> sorted_wrt (\<lambda>a b. \<not> lt b a) (insert_by lt x xs)"
proof (induction xs)
  case Nil
  then show ?case by simp
next
  case (Cons y ys)
  show ?case
  proof (cases "lt y x")
    case True
    with Cons show ?thesis by (auto simp: set_insert_by dest: lt_asym)
  next
    case False
    with Cons.prems show ?thesis using lt_split by auto
  qed
qed

lemma sorted_stable_sort: "sorted_wrt (\<lambda>a b. \<not> lt b a) (stable_sort lt xs)"
  by (induction xs) (simp_all add: sorted_insert_by)

lemma insert_by_filter:
  assumes "\<And>y. P y \<Longrightarrow> P x \<Longrightarrow> \<not> lt y x"
  shows "filter P (insert_by lt x xs) = filter P (x # xs)"
  using assms by (induction xs) auto

lemma stable_sort_stable:
  assumes "\<And>x y. P x \<Longrightarrow> P y \<Longrightarrow> \<not> lt x y"
  shows "filter P (stable_sort lt xs) = filter P xs"
proof (induction xs)
  case Nil
  then show ?case by simp
next
  case (Cons x xs)
  have "filter P (insert_by lt x (stable_sort lt xs)) = filter P (x # stable_sort lt xs)"
    by (rule insert_by_filter) (use assms in blast)
  with Cons show ?case by simp
qed

lemma insert_by_first: "(\<And>y. y \<in> set ys \<Longrightarrow> \<not> lt y x) \<Longrightarrow> insert_by lt x ys = x # ys"
  by (cases ys) auto

lemma stable_sort_sorted:
  "sorted_wrt (\<lambda>a b. \<not> lt b a) xs \<Longrightarrow> stable_sort lt xs = xs"
  by (induction xs) (auto intro: insert_by_first)

lemma stable_sort_idem: "stable_sort lt (stable_sort lt xs) = stable_sort lt xs"
  by (rule stable_sort_sorted, rule sorted_stable_sort)

end

text \<open>
  Where the comparison also identifies the elements it does not separate, a sorted permutation is
  unique: the result of the unstable \<open>sort.Slice\<close> is the one of \<open>stable_sort\<close>.
\<close>

locale go_total_less = go_less lt for lt :: "'a \<Rightarrow> 'a \<Rightarrow> bool" +
  assumes lt_total: "lt x y \<or> lt y x \<or> x = y"
begin

lemma sorted_perm_unique:
  assumes "mset xs = mset ys"
    and "sorted_wrt (\<lambda>a b. \<not> lt b a) xs" and "sorted_wrt (\<lambda>a b. \<not> lt b a) ys"
  shows "xs = ys"
  using assms
proof (induction xs arbitrary: ys)
  case Nil
  then show ?case by simp
next
  case (Cons x xs)
  from Cons.prems(1) obtain y ys' where ys: "ys = y # ys'" by (cases ys) auto
  have "x \<in> set ys" and "y \<in> set (x # xs)"
    using Cons.prems(1) ys by (metis list.set_intros(1) set_mset_mset)+
  then have "\<not> lt x y \<or> x = y" "\<not> lt y x \<or> x = y"
    using Cons.prems(2,3) ys by auto
  then have "x = y" using lt_total by blast
  with Cons ys show ?case by auto
qed

lemma stable_sort_unique:
  assumes "mset ys = mset xs" and "sorted_wrt (\<lambda>a b. \<not> lt b a) ys"
  shows "ys = stable_sort lt xs"
  by (rule sorted_perm_unique) (use assms sorted_stable_sort in auto)

end

interpretation string_less: go_total_less "(<) :: string \<Rightarrow> string \<Rightarrow> bool"
  by unfold_locales auto

interpretation int_less: go_total_less "(<) :: int \<Rightarrow> int \<Rightarrow> bool"
  by unfold_locales auto

text \<open>\<open>sort.Strings\<close> and \<open>sort.Ints\<close>.\<close>

abbreviation sort_strings :: "string list \<Rightarrow> string list" where
  "sort_strings \<equiv> stable_sort (<)"

lemma sorted_sort_strings [sort_simps]: "sorted (sort_strings xs)"
  using string_less.sorted_stable_sort [of xs] by (simp add: not_less)

lemma sort_strings_eq_sort: "sort_strings xs = sort xs"
  by (rule sym, rule string_less.stable_sort_unique) (auto simp: not_less)

section \<open>Association lists as Go maps\<close>

text \<open>
  Where the code takes the length of a map or walks over it, the model keeps the map as an
  association list with distinct keys; \<open>map_of\<close> is the lookup.
\<close>

fun alist_set :: "'k \<Rightarrow> 'v \<Rightarrow> ('k \<times> 'v) list \<Rightarrow> ('k \<times> 'v) list" where
  "alist_set k v [] = [(k, v)]"
| "alist_set k v ((k', v') # m) = (if k = k' then (k, v) # m else (k', v') # alist_set k v m)"

fun alist_del :: "'k \<Rightarrow> ('k \<times> 'v) list \<Rightarrow> ('k \<times> 'v) list" where
  "alist_del k [] = []"
| "alist_del k ((k', v') # m) = (if k = k' then alist_del k m else (k', v') # alist_del k m)"

lemma map_of_alist_set [simp]: "map_of (alist_set k v m) = (map_of m)(k \<mapsto> v)"
  by (induction m) (auto simp: fun_eq_iff)

lemma map_of_alist_del [simp]: "map_of (alist_del k m) = (map_of m)(k := None)"
  by (induction m) (auto simp: fun_eq_iff)

lemma keys_alist_set [simp]: "fst ` set (alist_set k v m) = insert k (fst ` set m)"
  by (simp flip: dom_map_of_conv_image_fst)

lemma keys_alist_del [simp]: "fst ` set (alist_del k m) = fst ` set m - {k}"
  by (auto simp flip: dom_map_of_conv_image_fst)

lemma distinct_alist_set [simp]: "distinct (map fst m) \<Longrightarrow> distinct (map fst (alist_set k v m))"
  by (induction m) auto

lemma distinct_alist_del [simp]: "distinct (map fst m) \<Longrightarrow> distinct (map fst (alist_del k m))"
  by (induction m) auto

lemma set_alist_set: "set (alist_set k v m) \<subseteq> insert (k, v) (set m)"
  by (induction m) (auto split: if_splits)

lemma finite_map_of_dom_card: "distinct (map fst m) \<Longrightarrow> card (dom (map_of m)) = length m"
  by (metis card_image distinct_card distinct_map dom_map_of_conv_image_fst length_map list.set_map)

section \<open>Lists\<close>

lemma upt_0_Suc: "[0..<Suc n] = 0 # map Suc [0..<n]"
  by (simp add: map_Suc_upt upt_conv_Cons del: upt_Suc)

lemma take_append_drop_mid: "i \<le> j \<Longrightarrow> take i xs @ take (j - i) (drop i xs) @ drop j xs = xs"
  by (metis append.assoc append_take_drop_id le_add_diff_inverse take_add)

end
