(* ===== verification/Go_Strings.thy ===== *)
theory Go_Strings
  imports Prelude
begin

text \<open>
  The functions of Go's \<open>strings\<close> and \<open>strconv\<close> packages the modelled code calls, on byte
  strings. They carry no source lines of the repository; they fix what the language's library
  does so that the component theories can be read against the code.
\<close>

section \<open>Prefixes and suffixes\<close>

definition has_prefix :: "string \<Rightarrow> string \<Rightarrow> bool" where
  "has_prefix s p = (take (length p) s = p)"

definition has_suffix :: "string \<Rightarrow> string \<Rightarrow> bool" where
  "has_suffix s p = (length p \<le> length s \<and> drop (length s - length p) s = p)"

definition trim_prefix :: "string \<Rightarrow> string \<Rightarrow> string" where
  "trim_prefix s p = (if has_prefix s p then drop (length p) s else s)"

definition trim_suffix :: "string \<Rightarrow> string \<Rightarrow> string" where
  "trim_suffix s p = (if has_suffix s p then take (length s - length p) s else s)"

lemma has_prefix_iff: "has_prefix s p \<longleftrightarrow> (\<exists>t. s = p @ t)"
  unfolding has_prefix_def by (metis append_eq_conv_conj append_take_drop_id)

lemma has_suffix_iff: "has_suffix s p \<longleftrightarrow> (\<exists>t. s = t @ p)"
proof
  assume "has_suffix s p"
  then have "s = take (length s - length p) s @ p"
    unfolding has_suffix_def by (metis append_take_drop_id)
  then show "\<exists>t. s = t @ p" ..
next
  assume "\<exists>t. s = t @ p"
  then show "has_suffix s p" by (auto simp: has_suffix_def)
qed

lemma has_prefix_append [simp]: "has_prefix (p @ s) p"
  by (simp add: has_prefix_def)

lemma has_suffix_append [simp]: "has_suffix (s @ p) p"
  by (simp add: has_suffix_def)

lemma trim_prefix_append [simp]: "trim_prefix (p @ s) p = s"
  by (simp add: trim_prefix_def)

lemma trim_suffix_append [simp]: "trim_suffix (s @ p) p = s"
  by (simp add: trim_suffix_def)

section \<open>Unicode white space\<close>

text \<open>
  \<open>unicode.IsSpace\<close> over UTF-8: the byte sequences of the 25 white-space code points. No
  sequence starts or ends inside the encoding of another code point, so trimming byte sequences is
  what decoding runes does, also where the rest of the string is not valid UTF-8.
\<close>

definition space_runes :: "string list" where
  "space_runes =
    map (\<lambda>c. [c]) [CHR 0x09, CHR 0x0A, CHR 0x0B, CHR 0x0C, CHR 0x0D, CHR 0x20] @
    [[CHR 0xC2, CHR 0x85], [CHR 0xC2, CHR 0xA0], [CHR 0xE1, CHR 0x9A, CHR 0x80]] @
    map (\<lambda>c. [CHR 0xE2, CHR 0x80, c])
      [CHR 0x80, CHR 0x81, CHR 0x82, CHR 0x83, CHR 0x84, CHR 0x85, CHR 0x86, CHR 0x87,
       CHR 0x88, CHR 0x89, CHR 0x8A, CHR 0xA8, CHR 0xA9, CHR 0xAF] @
    [[CHR 0xE2, CHR 0x81, CHR 0x9F], [CHR 0xE3, CHR 0x80, CHR 0x80]]"

function trim_front :: "string list \<Rightarrow> string \<Rightarrow> string" where
  "trim_front rs s =
    (case List.find (\<lambda>r. r \<noteq> [] \<and> has_prefix s r) rs of
      None \<Rightarrow> s
    | Some r \<Rightarrow> trim_front rs (drop (length r) s))"
  by pat_completeness auto
termination
proof (relation "measure (\<lambda>(rs, s). length s)")
  fix rs s r
  assume "List.find (\<lambda>r. r \<noteq> [] \<and> has_prefix s r) rs = Some r"
  then have "r \<noteq> []" and "has_prefix s r"
    by (auto simp: find_Some_iff)
  then have "length (drop (length r) s) < length s"
    by (auto simp: has_prefix_iff)
  then show "((rs, drop (length r) s), (rs, s)) \<in> measure (\<lambda>(rs, s). length s)"
    by simp
qed simp

declare trim_front.simps [simp del]

definition trim_left :: "string \<Rightarrow> string" where
  "trim_left s = trim_front space_runes s"

definition trim_right :: "string \<Rightarrow> string" where
  "trim_right s = rev (trim_front (map rev space_runes) (rev s))"

text \<open>\<open>strings.TrimSpace\<close>\<close>

definition trim_space :: "string \<Rightarrow> string" where
  "trim_space s = trim_right (trim_left s)"

lemma length_trim_front: "length (trim_front rs s) \<le> length s"
proof (induction rs s rule: trim_front.induct)
  case (1 rs s)
  show ?case
  proof (cases "List.find (\<lambda>r. r \<noteq> [] \<and> has_prefix s r) rs")
    case None
    then show ?thesis by (simp add: trim_front.simps [of rs s])
  next
    case (Some r)
    with 1 [OF Some] show ?thesis by (simp add: trim_front.simps [of rs s])
  qed
qed

lemma length_trim_space: "length (trim_space s) \<le> length s"
  using length_trim_front [of "map rev space_runes"] length_trim_front [of space_runes]
  unfolding trim_space_def trim_left_def trim_right_def
  by (metis length_rev order_trans)

lemma trim_front_unchanged:
  "(\<And>r. r \<in> set rs \<Longrightarrow> r \<noteq> [] \<Longrightarrow> \<not> has_prefix s r) \<Longrightarrow> trim_front rs s = s"
  by (subst trim_front.simps) (auto simp: find_None_iff2 split: option.splits
      dest: find_Some_iff [THEN iffD1])

text \<open>Trimming leaves text alone that starts and ends with a visible ASCII character.\<close>

definition graphic :: "char \<Rightarrow> bool" where
  "graphic c = (32 < (of_char c :: nat) \<and> (of_char c :: nat) < 127)"

lemma graphic_simps [simp]:
  "graphic c \<Longrightarrow> c \<noteq> CHR '' ''" "graphic c \<Longrightarrow> c \<noteq> CHR 0x0A"
  by (auto simp: graphic_def)

lemma space_rune_ends:
  "r \<in> set space_runes \<Longrightarrow> r \<noteq> [] \<and> \<not> graphic (hd r) \<and> \<not> graphic (last r)"
  by (auto simp: space_runes_def graphic_def)

lemma trim_left_graphic: "s = [] \<or> graphic (hd s) \<Longrightarrow> trim_left s = s"
  unfolding trim_left_def
proof (rule trim_front_unchanged)
  fix r assume "s = [] \<or> graphic (hd s)" "r \<in> set space_runes" "r \<noteq> []"
  with space_rune_ends [of r] show "\<not> has_prefix s r"
    by (auto simp: has_prefix_iff hd_append split: if_splits)
qed

lemma trim_right_graphic: "s = [] \<or> graphic (last s) \<Longrightarrow> trim_right s = s"
proof -
  assume s: "s = [] \<or> graphic (last s)"
  have "trim_front (map rev space_runes) (rev s) = rev s"
  proof (rule trim_front_unchanged)
    fix r assume "r \<in> set (map rev space_runes)" "r \<noteq> []"
    then have r: "rev r \<in> set space_runes" "r \<noteq> []" by auto
    show "\<not> has_prefix (rev s) r"
    proof
      assume "has_prefix (rev s) r"
      then obtain t where "rev s = r @ t" by (auto simp: has_prefix_iff)
      then have "s = rev t @ rev r" by (metis rev_append rev_rev_ident)
      with s r have "graphic (last (rev r))" by auto
      with space_rune_ends [OF r(1)] show False by simp
    qed
  qed
  then show ?thesis by (simp add: trim_right_def)
qed

lemma trim_space_graphic:
  "s = [] \<or> graphic (hd s) \<and> graphic (last s) \<Longrightarrow> trim_space s = s"
  by (auto simp: trim_space_def trim_left_graphic trim_right_graphic)

lemma trim_space_Cons_space: "trim_space (CHR '' '' # s) = trim_space s"
proof -
  have "trim_front space_runes (CHR '' '' # s) = trim_front space_runes s"
    by (subst trim_front.simps) (simp add: space_runes_def has_prefix_def)
  then show ?thesis by (simp add: trim_space_def trim_left_def)
qed

section \<open>Searching and splitting\<close>

text \<open>\<open>strings.Index\<close>: the offset of the first occurrence.\<close>

fun index_of :: "string \<Rightarrow> string \<Rightarrow> nat option" where
  "index_of [] p = (if p = [] then Some 0 else None)"
| "index_of (c # s) p = (if has_prefix (c # s) p then Some 0 else map_option Suc (index_of s p))"

text \<open>\<open>strings.Split\<close> and \<open>strings.SplitAfter\<close> for a one-byte separator.\<close>

fun split_char :: "char \<Rightarrow> string \<Rightarrow> string list" where
  "split_char d [] = [[]]"
| "split_char d (c # s) =
    (if c = d then [] # split_char d s
     else (case split_char d s of [] \<Rightarrow> [[c]] | w # ws \<Rightarrow> (c # w) # ws))"

fun split_after :: "char \<Rightarrow> string \<Rightarrow> string list" where
  "split_after d [] = [[]]"
| "split_after d (c # s) =
    (if c = d then [c] # split_after d s
     else (case split_after d s of [] \<Rightarrow> [[c]] | w # ws \<Rightarrow> (c # w) # ws))"

text \<open>\<open>strings.Join\<close>\<close>

fun join_with :: "string \<Rightarrow> string list \<Rightarrow> string" where
  "join_with sep [] = []"
| "join_with sep [w] = w"
| "join_with sep (w # ws) = w @ sep @ join_with sep ws"

text \<open>\<open>strings.ReplaceAll\<close> of one byte.\<close>

definition replace_char :: "char \<Rightarrow> string \<Rightarrow> string \<Rightarrow> string" where
  "replace_char c r s = concat (map (\<lambda>x. if x = c then r else [x]) s)"

lemma split_char_nonempty [simp]: "split_char d s \<noteq> []"
  by (induction s) (auto split: list.splits)

lemma split_after_nonempty [simp]: "split_after d s \<noteq> []"
  by (induction s) (auto split: list.splits)

lemma join_with_Cons: "ws \<noteq> [] \<Longrightarrow> join_with sep (w # ws) = w @ sep @ join_with sep ws"
  by (cases ws) auto

lemma join_split_char: "join_with [d] (split_char d s) = s"
proof (induction s)
  case (Cons c s)
  then show ?case
    by (cases "split_char d s") (auto simp: join_with_Cons split: list.splits
        intro: join_with.elims [of "[d]" "split_char d s"])
qed simp

lemma split_char_no_sep: "w \<in> set (split_char d s) \<Longrightarrow> d \<notin> set w"
  by (induction s arbitrary: w) (auto split: if_splits list.splits)

lemma concat_split_after: "concat (split_after d s) = s"
  by (induction s) (auto split: list.splits)

section \<open>Numbers\<close>

text \<open>\<open>strconv.Itoa\<close> of a non-negative number.\<close>

fun itoa :: "nat \<Rightarrow> string" where
  "itoa n = (if n < 10 then [char_of (48 + n)] else itoa (n div 10) @ [char_of (48 + n mod 10)])"

declare itoa.simps [simp del]

text \<open>
  \<open>strconv.Quote\<close>, the verb \<open>%q\<close>: quotes and backslashes are escaped, control characters are
  printed as escapes. Other bytes are kept, which is what Go does for printable UTF-8 text.
\<close>

definition hex_digit :: "nat \<Rightarrow> char" where
  "hex_digit n = (if n < 10 then char_of (48 + n) else char_of (87 + n))"

definition quote_byte :: "char \<Rightarrow> string" where
  "quote_byte c =
    (if c = CHR 0x22 then [CHR 0x5C, CHR 0x22]
     else if c = CHR 0x5C then [CHR 0x5C, CHR 0x5C]
     else if c = CHR 0x07 then [CHR 0x5C, CHR ''a'']
     else if c = CHR 0x08 then [CHR 0x5C, CHR ''b'']
     else if c = CHR 0x09 then [CHR 0x5C, CHR ''t'']
     else if c = CHR 0x0A then [CHR 0x5C, CHR ''n'']
     else if c = CHR 0x0B then [CHR 0x5C, CHR ''v'']
     else if c = CHR 0x0C then [CHR 0x5C, CHR ''f'']
     else if c = CHR 0x0D then [CHR 0x5C, CHR ''r'']
     else if (of_char c :: nat) < 32 \<or> c = CHR 0x7F
     then [CHR 0x5C, CHR ''x'', hex_digit (of_char c div 16), hex_digit (of_char c mod 16)]
     else [c])"

definition go_quote :: "string \<Rightarrow> string" where
  "go_quote s = CHR 0x22 # concat (map quote_byte s) @ [CHR 0x22]"

end
