(* ===== verification/Go_Paths.thy ===== *)
theory Go_Paths
  imports Go_Strings
begin

text \<open>
  The lexical functions of Go's \<open>path/filepath\<close> package the modelled code calls, on Unix paths, and
  \<open>strings.Fields\<close> and the hexadecimal encoding.
\<close>

section \<open>Paths\<close>

definition IsAbs :: "string \<Rightarrow> bool" where
  "IsAbs p = has_prefix p ''/''"

text \<open>One element of a path against the elements kept so far (the last one first).\<close>

definition clean_step :: "bool \<Rightarrow> string list \<Rightarrow> string \<Rightarrow> string list" where
  "clean_step rooted kept e =
    (if e = [] \<or> e = ''.'' then kept
     else if e = ''..'' then
       (case kept of
         [] \<Rightarrow> if rooted then [] else [''..'']
       | k # ks \<Rightarrow> if k = ''..'' then ''..'' # kept else ks)
     else e # kept)"

definition clean_elements :: "bool \<Rightarrow> string list \<Rightarrow> string list" where
  "clean_elements rooted es = rev (foldl (clean_step rooted) [] es)"

definition Clean :: "string \<Rightarrow> string" where
  "Clean p =
    (let rooted = IsAbs p; es = clean_elements rooted (split_char (CHR ''/'') p) in
      if rooted then ''/'' @ join_with ''/'' es
      else if es = [] then ''.'' else join_with ''/'' es)"

definition path_join :: "string \<Rightarrow> string \<Rightarrow> string" where
  "path_join a b =
    (if a = [] \<and> b = [] then [] else if a = [] then Clean b
     else if b = [] then Clean a else Clean (a @ ''/'' @ b))"

text \<open>The elements of a cleaned path, without the root.\<close>

definition path_elements :: "string \<Rightarrow> string list" where
  "path_elements p =
    (let q = (if IsAbs p then tl p else p) in if q = [] then [] else split_char (CHR ''/'') q)"

fun strip_common :: "string list \<Rightarrow> string list \<Rightarrow> string list \<times> string list" where
  "strip_common (a # as) (b # bs) = (if a = b then strip_common as bs else (a # as, b # bs))"
| "strip_common as bs = (as, bs)"

definition Rel :: "string \<Rightarrow> string \<Rightarrow> string option" where
  "Rel basepath targpath =
    (let base = Clean basepath; targ = Clean targpath in
      if targ = base then Some ''.''
      else
        (let base = (if base = ''.'' then [] else base) in
          if IsAbs base \<noteq> IsAbs targ then None
          else
            (let (bs, ts) = strip_common (path_elements base) (path_elements targ) in
              if bs \<noteq> [] \<and> hd bs = ''..'' then None
              else Some (join_with ''/'' (replicate (length bs) ''..'' @ ts)))))"

text \<open>The elements a cleaned path can have: no empty one, no dot, and \<open>..\<close> only at the front.\<close>

definition clean_kept :: "bool \<Rightarrow> string list \<Rightarrow> bool" where
  "clean_kept rooted kept = ((\<forall>e\<in>set kept. e \<noteq> [] \<and> e \<noteq> ''.'' \<and> CHR ''/'' \<notin> set e) \<and>
    (\<exists>n ws. kept = ws @ replicate n ''..'' \<and> ''..'' \<notin> set ws \<and> (rooted \<longrightarrow> n = 0)))"

definition element :: "string \<Rightarrow> bool" where
  "element e = (e \<noteq> [] \<and> e \<noteq> ''.'' \<and> CHR ''/'' \<notin> set e)"

lemma element_up: "element ''..''"
  by (simp add: element_def)

lemma clean_kept_iff:
  "clean_kept rooted kept \<longleftrightarrow>
    (\<exists>n ws. kept = ws @ replicate n ''..'' \<and> (\<forall>e\<in>set ws. element e \<and> e \<noteq> ''..'') \<and> (rooted \<longrightarrow> n = 0))"
  unfolding clean_kept_def element_def [symmetric] using element_up by fastforce

lemma clean_step_kept:
  assumes "clean_kept rooted kept" and "CHR ''/'' \<notin> set e"
  shows "clean_kept rooted (clean_step rooted kept e)"
proof -
  from assms(1) obtain n ws where kept: "kept = ws @ replicate n ''..''"
    "\<forall>e\<in>set ws. element e \<and> e \<noteq> ''..''" "rooted \<longrightarrow> n = 0" unfolding clean_kept_iff by blast
  have up: "clean_kept rooted (ws' @ replicate m ''..'')"
    if "\<forall>e\<in>set ws'. element e \<and> e \<noteq> ''..''" "rooted \<longrightarrow> m = 0" for ws' m
    unfolding clean_kept_iff using that by blast
  show ?thesis
  proof (cases "e = ''..''")
    case True
    show ?thesis
    proof (cases ws)
      case Nil
      then have "clean_step rooted kept e = [] @ replicate (if rooted then 0 else Suc n) ''..''"
        using kept True by (cases n) (simp_all add: clean_step_def)
      then show ?thesis using up [of "[]"] by simp
    next
      case (Cons w ws')
      with kept True have "clean_step rooted kept e = ws' @ replicate n ''..''"
        by (simp add: clean_step_def)
      with kept Cons up show ?thesis by simp
    qed
  next
    case False
    show ?thesis
    proof (cases "element e")
      case True
      with False have "clean_step rooted kept e = (e # ws) @ replicate n ''..''"
        by (simp add: clean_step_def element_def kept)
      moreover have "clean_kept rooted ((e # ws) @ replicate n ''..'')"
        by (rule up) (use kept True False in simp_all)
      ultimately show ?thesis by simp
    next
      case False
      with assms show ?thesis by (simp add: clean_step_def element_def)
    qed
  qed
qed

lemma clean_foldl_kept:
  "clean_kept rooted kept \<Longrightarrow> \<forall>e\<in>set es. CHR ''/'' \<notin> set e \<Longrightarrow>
    clean_kept rooted (foldl (clean_step rooted) kept es)"
  by (induction es arbitrary: kept) (auto intro: clean_step_kept)

lemma clean_kept_Nil [simp]: "clean_kept rooted []"
  by (auto simp: clean_kept_def)

lemma clean_kept_tl: "clean_kept rooted (e # kept) \<Longrightarrow> clean_kept rooted kept"
proof -
  assume a: "clean_kept rooted (e # kept)"
  then obtain n ws where k: "e # kept = ws @ replicate n ''..''" "''..'' \<notin> set ws" "rooted \<longrightarrow> n = 0"
    by (auto simp: clean_kept_def)
  have "\<exists>n ws. kept = ws @ replicate n ''..'' \<and> ''..'' \<notin> set ws \<and> (rooted \<longrightarrow> n = 0)"
  proof (cases ws)
    case Nil
    with k show ?thesis by (cases n) (auto intro!: exI [of _ "n - 1"] exI [of _ "[]"])
  next
    case (Cons w ws')
    with k show ?thesis by (intro exI [of _ n] exI [of _ ws']) auto
  qed
  with a show ?thesis by (auto simp: clean_kept_def)
qed

text \<open>Elements that are clean already are kept as they are.\<close>

lemma clean_step_clean: "clean_kept rooted (e # kept) \<Longrightarrow> clean_step rooted kept e = e # kept"
proof -
  assume a: "clean_kept rooted (e # kept)"
  then obtain n ws where k: "e # kept = ws @ replicate n ''..''" "''..'' \<notin> set ws" "rooted \<longrightarrow> n = 0"
    by (auto simp: clean_kept_def)
  from a have "e \<noteq> []" "e \<noteq> ''.''" by (auto simp: clean_kept_def)
  moreover have "kept = replicate (n - 1) ''..''" "\<not> rooted" if "e = ''..''"
  proof -
    from that k have "ws = []" by (cases ws) auto
    with k that show "kept = replicate (n - 1) ''..''" "\<not> rooted" by (cases n; auto)+
  qed
  ultimately show ?thesis
    by (cases n; cases "n - 1") (auto simp: clean_step_def split: list.split)
qed

lemma foldl_clean:
  "clean_kept rooted kept \<Longrightarrow> foldl (clean_step rooted) [] (rev kept) = kept"
proof (induction kept)
  case (Cons e kept)
  then show ?case using clean_kept_tl clean_step_clean by fastforce
qed simp

lemma split_join:
  "es \<noteq> [] \<Longrightarrow> \<forall>e\<in>set es. d \<notin> set e \<Longrightarrow> split_char d (join_with [d] es) = es"
proof (induction es rule: list_nonempty_induct)
  case (single e)
  then have "d \<notin> set e" by simp
  then show ?case by (induction e) auto
next
  case (cons e es)
  then have "d \<notin> set e" by simp
  then have "split_char d (e @ d # s) = e # split_char d s" for s by (induction e) auto
  with cons show ?case by (simp add: join_with_Cons)
qed

text \<open>\<open>Clean\<close> returns the shortest name: cleaning again changes nothing.\<close>

lemma Clean_idem: "Clean (Clean p) = Clean p"
proof -
  define es where "es = clean_elements (IsAbs p) (split_char (CHR ''/'') p)"
  have kept: "clean_kept (IsAbs p) (rev es)"
    unfolding es_def clean_elements_def
    using clean_foldl_kept [of "IsAbs p" "[]"] split_char_no_sep by simp
  have fixed: "clean_elements (IsAbs p) es = es"
    using foldl_clean [OF kept] by (simp add: clean_elements_def)
  have no_slash: "\<forall>e\<in>set es. CHR ''/'' \<notin> set e" "\<forall>e\<in>set es. e \<noteq> []"
    using kept by (auto simp: clean_kept_def)
  show ?thesis
  proof (cases "IsAbs p")
    case True
    then have p: "Clean p = ''/'' @ join_with ''/'' es" by (simp add: Clean_def es_def)
    have "split_char (CHR ''/'') (''/'' @ join_with ''/'' es) = [] # (if es = [] then [[]] else es)"
      using split_join [of es] no_slash by simp
    moreover have "clean_elements True ([] # (if es = [] then [[]] else es)) = es"
      using fixed True by (auto simp: clean_elements_def clean_step_def)
    moreover have "IsAbs (''/'' @ join_with ''/'' es)" by (simp add: IsAbs_def has_prefix_def)
    ultimately show ?thesis unfolding p by (simp add: Clean_def)
  next
    case False
    show ?thesis
    proof (cases "es = []")
      case True
      then have "Clean p = ''.''" using False by (simp add: Clean_def es_def)
      then show ?thesis
        by (simp add: Clean_def IsAbs_def has_prefix_def clean_elements_def clean_step_def)
    next
      case ne: False
      then have p: "Clean p = join_with ''/'' es" using False by (simp add: Clean_def es_def)
      have "\<not> IsAbs (join_with ''/'' es)"
        using ne no_slash by (cases es; cases "hd es"; cases "tl es")
          (auto simp: IsAbs_def has_prefix_def)
      with p ne fixed False split_join [OF ne no_slash(1)] show ?thesis
        by (simp add: Clean_def)
    qed
  qed
qed

text \<open>What a cleaned path looks like.\<close>

lemma clean_elements_kept: "clean_kept (IsAbs p) (rev (clean_elements (IsAbs p) (split_char (CHR ''/'') p)))"
  unfolding clean_elements_def
  using clean_foldl_kept [of "IsAbs p" "[]"] split_char_no_sep by simp

lemma join_not_abs:
  assumes "\<forall>e\<in>set es. e \<noteq> [] \<and> CHR ''/'' \<notin> set e"
  shows "\<not> IsAbs (join_with ''/'' es)"
  using assms
  by (cases es; cases "hd es"; cases "tl es") (auto simp: IsAbs_def has_prefix_def)

lemma IsAbs_Clean [simp]: "IsAbs (Clean p) = IsAbs p"
proof (cases "IsAbs p")
  case True
  then show ?thesis by (simp add: Clean_def Let_def) (simp add: IsAbs_def has_prefix_def)
next
  case False
  let ?es = "clean_elements (IsAbs p) (split_char (CHR ''/'') p)"
  have "\<forall>e\<in>set ?es. e \<noteq> [] \<and> CHR ''/'' \<notin> set e"
    using clean_elements_kept [of p] by (auto simp: clean_kept_def)
  from join_not_abs [OF this] False show ?thesis
    by (auto simp: Clean_def Let_def IsAbs_def has_prefix_def)
qed

lemma Clean_nonempty [simp]: "Clean p \<noteq> []"
proof -
  let ?es = "clean_elements (IsAbs p) (split_char (CHR ''/'') p)"
  have "\<forall>e\<in>set ?es. e \<noteq> []"
    using clean_elements_kept [of p] by (auto simp: clean_kept_def)
  then have "?es \<noteq> [] \<Longrightarrow> join_with ''/'' ?es \<noteq> []"
    by (cases ?es; cases "tl ?es") auto
  then show ?thesis by (auto simp: Clean_def Let_def)
qed

lemma path_elements_Clean:
  assumes "IsAbs p"
  shows "path_elements (Clean p) = clean_elements True (split_char (CHR ''/'') p)"
proof -
  let ?es = "clean_elements True (split_char (CHR ''/'') p)"
  have es: "\<forall>e\<in>set ?es. e \<noteq> []" "\<forall>e\<in>set ?es. CHR ''/'' \<notin> set e"
    using clean_elements_kept [of p] assms by (auto simp: clean_kept_def)
  have "Clean p = CHR ''/'' # join_with ''/'' ?es" using assms by (simp add: Clean_def)
  moreover have "IsAbs (CHR ''/'' # join_with ''/'' ?es)" by (simp add: IsAbs_def has_prefix_def)
  moreover have "?es \<noteq> [] \<Longrightarrow> join_with ''/'' ?es \<noteq> []"
    using es(1) by (cases ?es; cases "tl ?es") auto
  moreover have "?es \<noteq> [] \<Longrightarrow> split_char (CHR ''/'') (join_with ''/'' ?es) = ?es"
    by (rule split_join) (use es in auto)
  ultimately show ?thesis by (cases "?es = []") (auto simp: path_elements_def Let_def)
qed

lemma clean_kept_abs:
  "clean_kept True ks \<Longrightarrow> ''..'' \<notin> set ks \<and> (\<forall>e\<in>set ks. e \<noteq> [] \<and> CHR ''/'' \<notin> set e)"
  by (auto simp: clean_kept_def)

lemma strip_common_set:
  "strip_common as bs = (as', bs') \<Longrightarrow> set as' \<subseteq> set as \<and> set bs' \<subseteq> set bs"
  by (induction as bs rule: strip_common.induct) (auto split: if_splits)

text \<open>From one absolute path to another there is always a relative one.\<close>

lemma Rel_abs:
  assumes "IsAbs b" and "IsAbs t"
  shows "\<exists>r. Rel b t = Some r \<and> \<not> IsAbs r"
proof -
  obtain bs ts where strip: "strip_common (path_elements (Clean b)) (path_elements (Clean t)) = (bs, ts)"
    by force
  have kept: "clean_kept True (rev (path_elements (Clean x)))" if "IsAbs x" for x
    using clean_elements_kept [of x] that by (simp add: path_elements_Clean)
  from clean_kept_abs [OF kept [OF assms(1)]] clean_kept_abs [OF kept [OF assms(2)]]
  have "''..'' \<notin> set (path_elements (Clean b))"
    "\<forall>e\<in>set (path_elements (Clean t)). e \<noteq> [] \<and> CHR ''/'' \<notin> set e" by simp_all
  with strip_common_set [OF strip] have "''..'' \<notin> set bs" "\<forall>e\<in>set ts. e \<noteq> [] \<and> CHR ''/'' \<notin> set e"
    by auto
  then have bs: "\<not> (bs \<noteq> [] \<and> hd bs = ''..'')"
    and rel: "\<not> IsAbs (join_with ''/'' (replicate (length bs) ''..'' @ ts))"
    by (cases bs, auto intro!: join_not_abs)
  have "Clean b \<noteq> ''.''" using IsAbs_Clean [of b] assms(1) by (auto simp: IsAbs_def has_prefix_def)
  then show ?thesis
    unfolding Rel_def Let_def using assms strip bs rel
    by (auto simp: IsAbs_def [of "''.''"] has_prefix_def)
qed

section \<open>strings.Fields\<close>

text \<open>The rest of \<open>s\<close> after a white-space rune, if one starts there.\<close>

definition skip_space :: "string \<Rightarrow> string option" where
  "skip_space s = map_option (\<lambda>r. drop (length r) s) (List.find (\<lambda>r. has_prefix s r) space_runes)"

lemma skip_space_shorter: "skip_space s = Some t \<Longrightarrow> length t < length s"
proof -
  assume "skip_space s = Some t"
  then obtain r where "List.find (\<lambda>r. has_prefix s r) space_runes = Some r" "t = drop (length r) s"
    by (auto simp: skip_space_def)
  then have "r \<in> set space_runes" "has_prefix s r" "t = drop (length r) s"
    by (auto simp: find_Some_iff)
  moreover have "r \<noteq> []" if "r \<in> set space_runes" for r
    using that by (auto simp: space_runes_def)
  ultimately show ?thesis by (auto simp: has_prefix_iff)
qed

function fields_from :: "string \<Rightarrow> string \<Rightarrow> string list" where
  "fields_from word s =
    (case s of
      [] \<Rightarrow> if word = [] then [] else [word]
    | c # cs \<Rightarrow>
        (case skip_space s of
          Some t \<Rightarrow> (if word = [] then [] else [word]) @ fields_from [] t
        | None \<Rightarrow> fields_from (word @ [c]) cs))"
  by pat_completeness auto
termination
  by (relation "measure (\<lambda>(word, s). length s)") (auto dest: skip_space_shorter)

declare fields_from.simps [simp del]

definition string_fields :: "string \<Rightarrow> string list" where
  "string_fields s = fields_from [] s"

section \<open>Hexadecimal\<close>

definition hex_encode :: "string \<Rightarrow> string" where
  "hex_encode s =
    concat (map (\<lambda>c. [hex_digit (of_char c div 16), hex_digit (of_char c mod 16)]) s)"

definition is_hex :: "char \<Rightarrow> bool" where
  "is_hex c = (c \<in> set ''0123456789abcdefABCDEF'')"

definition hex_decodes :: "string \<Rightarrow> bool" where
  "hex_decodes s = (even (length s) \<and> list_all is_hex s)"

definition ascii_lower :: "char \<Rightarrow> char" where
  "ascii_lower c =
    (if 65 \<le> (of_char c :: nat) \<and> (of_char c :: nat) \<le> 90 then char_of ((of_char c :: nat) + 32) else c)"

lemma length_hex_encode [simp]: "length (hex_encode s) = 2 * length s"
  by (induction s) (simp_all add: hex_encode_def)

lemma hex_digit_cases:
  assumes "n < 16" shows "is_hex (hex_digit n) \<and> ascii_lower (hex_digit n) = hex_digit n"
proof -
  have "\<forall>n\<in>set [0..<16]. is_hex (hex_digit n) \<and> ascii_lower (hex_digit n) = hex_digit n"
    by code_simp
  with assms show ?thesis by simp
qed

lemma hex_digit_inj: "m < 16 \<Longrightarrow> n < 16 \<Longrightarrow> hex_digit m = hex_digit n \<longleftrightarrow> m = n"
  by (auto simp: hex_digit_def split: if_splits dest: arg_cong [where f = "of_char :: char \<Rightarrow> nat"])

lemma hex_encode_hex:
  "hex_decodes (hex_encode s) \<and> map ascii_lower (hex_encode s) = hex_encode s"
proof (induction s)
  case (Cons c s)
  have "of_char c div 16 < (16::nat)"
    using nat_of_char_less_256 [of c] by (simp add: less_mult_imp_div_less)
  with Cons hex_digit_cases show ?case
    by (simp add: hex_encode_def hex_decodes_def)
qed (simp add: hex_encode_def hex_decodes_def)

lemma hex_encode_inj: "hex_encode s = hex_encode t \<longleftrightarrow> s = t"
proof
  have lt: "of_char c div 16 < (16::nat)" for c :: char
    using nat_of_char_less_256 [of c] by (simp add: less_mult_imp_div_less)
  show "hex_encode s = hex_encode t \<Longrightarrow> s = t"
  proof (induction s t rule: list_induct2')
    case (4 c s d t)
    then have "of_char c div 16 = (of_char d div 16 :: nat)" "of_char c mod 16 = (of_char d mod 16 :: nat)"
      "hex_encode s = hex_encode t"
      using lt by (auto simp: hex_encode_def hex_digit_inj)
    with 4 show ?case by (metis div_mult_mod_eq of_char_eq_iff)
  qed (auto simp: hex_encode_def)
qed simp


section \<open>Parts of a path\<close>

text \<open>\<open>filepath.Dir\<close>, \<open>filepath.Ext\<close> and \<open>filepath.Abs\<close>, the last with the working directory as an argument.\<close>

definition path_dir :: "string \<Rightarrow> string" where
  "path_dir path = Clean (rev (dropWhile (\<lambda>c. c \<noteq> CHR ''/'') (rev path)))"

definition path_ext :: "string \<Rightarrow> string" where
  "path_ext path =
    (let base = rev (takeWhile (\<lambda>c. c \<noteq> CHR ''/'') (rev path)) in
     if CHR ''.'' \<in> set base then CHR ''.'' # rev (takeWhile (\<lambda>c. c \<noteq> CHR ''.'') (rev base)) else [])"

definition path_abs :: "string option \<Rightarrow> string \<Rightarrow> string option" where
  "path_abs cwd path =
    (if IsAbs path then Some (Clean path) else map_option (\<lambda>d. path_join d path) cwd)"

end
