(* ===== verification/Glob.thy ===== *)
theory Glob
  imports Go_Strings
begin

text \<open>
  Path globs (\<open>internal/project/glob.go\<close>): a pattern is split into segments, \<open>**\<close> spans any
  number of segments, and one segment is matched with \<open>*\<close> and \<open>?\<close>. The segment table is filled
  bottom up as the code does and shown equal to a recursive specification; the two-pointer matcher
  of one segment is shown to decide the wildcard language for names without a literal \<open>*\<close>.
\<close>

section \<open>Matching one segment\<close>

text \<open>The state of the loop of \<open>wildcardMatch\<close>: \<open>pi\<close>, \<open>si\<close>, \<open>star\<close> (-1 is \<open>None\<close>), \<open>ssave\<close>.\<close>

function wildcard_loop :: "string \<Rightarrow> string \<Rightarrow> nat \<Rightarrow> nat \<Rightarrow> nat option \<Rightarrow> nat \<Rightarrow> nat option" where
  "wildcard_loop p s pi si star ssave =
    (if si < length s then
       (if pi < length p \<and> (p ! pi = s ! si \<or> p ! pi = CHR ''?'') then
          wildcard_loop p s (pi + 1) (si + 1) star ssave
        else if pi < length p \<and> p ! pi = CHR ''*'' then
          wildcard_loop p s (pi + 1) si (Some pi) si
        else (case star of
            Some st \<Rightarrow> wildcard_loop p s (st + 1) (ssave + 1) star (ssave + 1)
          | None \<Rightarrow> None))
     else Some pi)"
  by pat_completeness auto
termination
  by (relation "measures
      [\<lambda>(p, s, pi, si, star, ssave). if si < ssave then 1 else 0,
       \<lambda>(p, s, pi, si, star, ssave). if si < length s then Suc (length s - ssave) else 0,
       \<lambda>(p, s, pi, si, star, ssave). (length s - si) + (length p - pi)]") auto

declare wildcard_loop.simps [simp del]

definition wildcardMatch :: "string \<Rightarrow> string \<Rightarrow> bool" where
  "wildcardMatch pattern s =
    (case wildcard_loop pattern s 0 0 None 0 of
      None \<Rightarrow> False
    | Some pi \<Rightarrow> dropWhile (\<lambda>c. c = CHR ''*'') (drop pi pattern) = [])"

definition matchSeg :: "string \<Rightarrow> string \<Rightarrow> bool" where
  "matchSeg pattern seg = (if pattern = ''*'' then True else wildcardMatch pattern seg)"

text \<open>The language of a segment pattern.\<close>

fun wild :: "string \<Rightarrow> string \<Rightarrow> bool" where
  "wild [] s = (s = [])"
| "wild (q # p) [] = (q = CHR ''*'' \<and> wild p [])"
| "wild (q # p) (c # s) =
    (if q = CHR ''*'' then wild p (c # s) \<or> wild (q # p) s
     else (q = c \<or> q = CHR ''?'') \<and> wild p s)"

lemma wild_Nil: "wild p [] \<longleftrightarrow> dropWhile (\<lambda>c. c = CHR ''*'') p = []"
  by (induction p) auto

lemma wild_star: "wild (CHR ''*'' # p) s \<longleftrightarrow> (\<exists>k. k \<le> length s \<and> wild p (drop k s))"
proof (induction s)
  case Nil
  then show ?case by simp
next
  case (Cons c s)
  have "(\<exists>k. k \<le> length (c # s) \<and> wild p (drop k (c # s)))
      \<longleftrightarrow> wild p (c # s) \<or> (\<exists>k. k \<le> length s \<and> wild p (drop k s))"
    by (metis Suc_le_mono drop0 drop_Suc_Cons length_Cons not0_implies_Suc zero_le)
  with Cons show ?case by simp
qed

lemma wild_literal_append:
  assumes "CHR ''*'' \<notin> set q" and "wild (q @ p) s"
  shows "length q \<le> length s \<and> wild p (drop (length q) s)"
  using assms
proof (induction q arbitrary: s)
  case (Cons a q)
  then show ?case by (cases s) auto
qed simp

text \<open>
  The invariant of the loop: since the last star, the pattern between it and \<open>pi\<close> is free of stars
  and as long as the text between \<open>ssave\<close> and \<open>si\<close> that it has consumed.
\<close>

definition wild_inv :: "string \<Rightarrow> string \<Rightarrow> nat \<Rightarrow> nat \<Rightarrow> nat option \<Rightarrow> nat \<Rightarrow> bool" where
  "wild_inv p s pi si star ssave \<longleftrightarrow>
    pi \<le> length p \<and> si \<le> length s \<and>
    (case star of
      None \<Rightarrow> True
    | Some st \<Rightarrow> st < pi \<and> ssave \<le> si \<and> pi - (st + 1) = si - ssave \<and>
        CHR ''*'' \<notin> set (take (pi - (st + 1)) (drop (st + 1) p)))"

definition wild_retry :: "string \<Rightarrow> string \<Rightarrow> nat option \<Rightarrow> nat \<Rightarrow> bool" where
  "wild_retry p s star ssave \<longleftrightarrow>
    (case star of
      None \<Rightarrow> False
    | Some st \<Rightarrow> \<exists>k. ssave < k \<and> k \<le> length s \<and> wild (drop (st + 1) p) (drop k s))"

lemma take_segment_Suc:
  assumes "st < pi" and "pi < length p"
  shows "take (pi - st) (drop (Suc st) p) = take (pi - Suc st) (drop (Suc st) p) @ [p ! pi]"
proof -
  have "pi - st = Suc (pi - Suc st)" using assms by simp
  moreover have "take (Suc (pi - Suc st)) (drop (Suc st) p) =
      take (pi - Suc st) (drop (Suc st) p) @ [drop (Suc st) p ! (pi - Suc st)]"
    by (rule take_Suc_conv_app_nth) (use assms in simp)
  moreover have "drop (Suc st) p ! (pi - Suc st) = p ! pi" using assms by simp
  ultimately show ?thesis by simp
qed

lemma wild_inv_literal:
  assumes "wild_inv p s pi si star ssave" and "si < length s" and "pi < length p"
    and "p ! pi \<noteq> CHR ''*''"
  shows "wild_inv p s (pi + 1) (si + 1) star ssave"
  using assms by (auto simp: wild_inv_def take_segment_Suc Suc_diff_le split: option.splits)

lemma wild_retry_segment:
  assumes inv: "wild_inv p s pi si (Some st) ssave"
    and k: "ssave < k" "k \<le> length s" and w: "wild (drop (st + 1) p) (drop k s)"
  shows "k + (si - ssave) \<le> length s \<and> wild (drop pi p) (drop (k + (si - ssave)) s)"
proof -
  let ?q = "take (pi - (st + 1)) (drop (st + 1) p)"
  have len: "length ?q = si - ssave" and lit: "CHR ''*'' \<notin> set ?q"
    and st: "st + 1 \<le> pi"
    using inv by (auto simp: wild_inv_def min_def)
  have "drop (pi - (st + 1)) (drop (st + 1) p) = drop pi p"
    using st by (simp del: Suc_eq_plus1 add: drop_drop)
  then have eq: "drop (st + 1) p = ?q @ drop pi p"
    using append_take_drop_id [of "pi - (st + 1)" "drop (st + 1) p"] by simp
  have "wild (?q @ drop pi p) (drop k s)" using w by (subst (asm) eq)
  from wild_literal_append [OF lit this]
  have "length ?q \<le> length (drop k s)" and "wild (drop pi p) (drop (length ?q) (drop k s))"
    by blast+
  with len k show ?thesis by (auto simp: add.commute)
qed

lemma wildcard_loop_correct:
  assumes "wild_inv p s pi si star ssave" and "CHR ''*'' \<notin> set s"
  shows "(case wildcard_loop p s pi si star ssave of
      None \<Rightarrow> False | Some pj \<Rightarrow> wild (drop pj p) []) \<longleftrightarrow>
    wild (drop pi p) (drop si s) \<or> wild_retry p s star ssave"
  using assms
proof (induction p s pi si star ssave rule: wildcard_loop.induct)
  case (1 p s pi si star ssave)
  note inv = "1.prems"(1) and nostar = "1.prems"(2)
  show ?case
  proof (cases "si < length s")
    case False
    then have end_s: "drop si s = []" by simp
    have "\<not> wild_retry p s star ssave"
    proof (cases star)
      case (Some st)
      show ?thesis
      proof
        assume "wild_retry p s star ssave"
        then obtain k where "ssave < k" "k \<le> length s" "wild (drop (st + 1) p) (drop k s)"
          using Some by (auto simp: wild_retry_def)
        with wild_retry_segment inv Some have "k + (si - ssave) \<le> length s" by blast
        with False \<open>ssave < k\<close> inv Some show False by (auto simp: wild_inv_def)
      qed
    qed (simp add: wild_retry_def)
    with False end_s show ?thesis by (simp add: wildcard_loop.simps [of p s pi si])
  next
    case True
    then have dsi: "drop si s = s ! si # drop (si + 1) s"
      by (simp add: Cons_nth_drop_Suc)
    have csi: "s ! si \<noteq> CHR ''*''" using True nostar nth_mem by fastforce
    consider (lit) "pi < length p" "p ! pi = s ! si \<or> p ! pi = CHR ''?''"
      | (star) "pi < length p" "p ! pi = CHR ''*''"
      | (other) "\<not> (pi < length p \<and> (p ! pi = s ! si \<or> p ! pi = CHR ''?''))"
          "\<not> (pi < length p \<and> p ! pi = CHR ''*'')"
      by blast
    then show ?thesis
    proof cases
      case lit
      have dpi: "drop pi p = p ! pi # drop (pi + 1) p" using lit(1) by (simp add: Cons_nth_drop_Suc)
      have "wild_inv p s (pi + 1) (si + 1) star ssave"
        using wild_inv_literal [OF inv True lit(1)] lit(2) csi by auto
      then have "(case wildcard_loop p s (pi + 1) (si + 1) star ssave of
          None \<Rightarrow> False | Some pj \<Rightarrow> wild (drop pj p) []) \<longleftrightarrow>
          wild (drop (pi + 1) p) (drop (si + 1) s) \<or> wild_retry p s star ssave"
        using "1.IH"(1) True lit nostar by blast
      moreover have "wild (drop pi p) (drop si s) \<longleftrightarrow> wild (drop (pi + 1) p) (drop (si + 1) s)"
        using lit csi by (auto simp: dpi dsi)
      ultimately show ?thesis using True lit by (simp add: wildcard_loop.simps [of p s pi si])
    next
      case star
      have ne: "\<not> (p ! pi = s ! si \<or> p ! pi = CHR ''?'')" using star csi by auto
      have dpi: "drop pi p = CHR ''*'' # drop (pi + 1) p"
        using star by (metis Cons_nth_drop_Suc Suc_eq_plus1)
      have "wild_inv p s (pi + 1) si (Some pi) si"
        using inv star by (auto simp: wild_inv_def)
      then have IH: "(case wildcard_loop p s (pi + 1) si (Some pi) si of
          None \<Rightarrow> False | Some pj \<Rightarrow> wild (drop pj p) []) \<longleftrightarrow>
          wild (drop (pi + 1) p) (drop si s) \<or> wild_retry p s (Some pi) si"
        using "1.IH"(2) True star ne nostar by blast
      have now: "wild (drop pi p) (drop si s) \<longleftrightarrow>
          wild (drop (pi + 1) p) (drop si s) \<or> wild_retry p s (Some pi) si" (is "?L \<longleftrightarrow> ?R")
      proof
        assume ?L
        then obtain k where k: "k \<le> length s - si" "wild (drop (pi + 1) p) (drop (si + k) s)"
          unfolding dpi wild_star by (auto simp: add.commute)
        show ?R
        proof (cases k)
          case 0
          with k show ?thesis by simp
        next
          case (Suc n)
          with k True have "si < si + k \<and> si + k \<le> length s" by auto
          with k(2) show ?thesis by (auto simp: wild_retry_def)
        qed
      next
        assume ?R
        then obtain k where "si \<le> k" "k \<le> length s" "wild (drop (pi + 1) p) (drop k s)"
          using True by (auto simp: wild_retry_def intro: less_imp_le)
        then show ?L unfolding dpi wild_star
          by (intro exI [of _ "k - si"]) (auto simp: diff_le_mono)
      qed
      have "wild_retry p s star ssave \<Longrightarrow> wild (drop pi p) (drop si s)"
      proof -
        assume "wild_retry p s star ssave"
        then obtain st k where st: "star = Some st" and k: "ssave < k" "k \<le> length s"
            "wild (drop (st + 1) p) (drop k s)"
          by (auto simp: wild_retry_def split: option.splits)
        have kk: "k + (si - ssave) \<le> length s" "wild (drop pi p) (drop (k + (si - ssave)) s)"
          using wild_retry_segment inv k unfolding st by blast+
        have "si \<le> k + (si - ssave)" using k(1) by simp
        from kk(2) obtain m where m: "m \<le> length s - (k + (si - ssave))"
            "wild (drop (pi + 1) p) (drop (k + (si - ssave) + m) s)"
          unfolding dpi wild_star by (auto simp: add.commute)
        have "si + (k + (si - ssave) - si + m) = k + (si - ssave) + m"
          using \<open>si \<le> k + (si - ssave)\<close> by simp
        then show ?thesis unfolding dpi wild_star
          using m kk(1) \<open>si \<le> k + (si - ssave)\<close>
          by (intro exI [of _ "k + (si - ssave) - si + m"]) (auto simp: add.commute)
      qed
      with IH now True star ne show ?thesis
        by (auto simp: wildcard_loop.simps [of p s pi si])
    next
      case other
      have no: "\<not> wild (drop pi p) (drop si s)"
      proof (cases "pi < length p")
        case True
        then have "drop pi p = p ! pi # drop (pi + 1) p" by (simp add: Cons_nth_drop_Suc)
        with other True show ?thesis by (simp add: dsi)
      qed (simp add: dsi)
      show ?thesis
      proof (cases star)
        case None
        with True other no show ?thesis
          by (auto simp: wildcard_loop.simps [of p s pi si] wild_retry_def)
      next
        case (Some st)
        have "wild_inv p s (st + 1) (ssave + 1) (Some st) (ssave + 1)"
          using inv True Some by (auto simp: wild_inv_def)
        then have IH: "(case wildcard_loop p s (st + 1) (ssave + 1) star (ssave + 1) of
            None \<Rightarrow> False | Some pj \<Rightarrow> wild (drop pj p) []) \<longleftrightarrow>
            wild (drop (st + 1) p) (drop (ssave + 1) s) \<or> wild_retry p s star (ssave + 1)"
          using "1.IH"(3) [OF True _ _ Some] other nostar Some by blast
        have "ssave + 1 \<le> length s" using inv True Some by (auto simp: wild_inv_def)
        then have "wild_retry p s star ssave \<longleftrightarrow>
            wild (drop (st + 1) p) (drop (ssave + 1) s) \<or> wild_retry p s star (ssave + 1)"
          unfolding Some wild_retry_def
          by (auto simp: less_Suc_eq_le Suc_le_eq intro: Suc_lessD) (metis Suc_lessI)
        with IH no True other Some show ?thesis
          by (auto simp: wildcard_loop.simps [of p s pi si])
      qed
    qed
  qed
qed

text \<open>
  For every pattern and every name without a literal star, the two-pointer matcher with
  one-level backtracking of wildcardMatch decides the wildcard language (a star matches any
  substring, a question mark any byte).
\<close>

theorem wildcardMatch_correct:
  assumes "CHR ''*'' \<notin> set s"
  shows "wildcardMatch p s \<longleftrightarrow> wild p s"
  using wildcard_loop_correct [of p s 0 0 None 0] assms
  by (auto simp: wildcardMatch_def wild_inv_def wild_retry_def wild_Nil split: option.splits)

theorem wildcardMatch_correct_witness:
  "wildcardMatch ''a*b?'' ''axxbxbc'' \<and> wild ''a*b?'' ''axxbxbc''"
proof -
  have "CHR ''*'' \<notin> set ''axxbxbc''" by simp
  from wildcardMatch_correct [OF this, of "''a*b?''"] show ?thesis by simp
qed

text \<open>
  Without the hypothesis the matcher is wrong: a literal star in the name is consumed by the
  literal-equality test before the star branch is reached, so no backtracking point is recorded.
  The pattern *b accepts every name that ends in b, but wildcardMatch rejects the name *ab.
\<close>

theorem wildcardMatch_literal_star:
  "\<not> wildcardMatch ''*b'' ''*ab'' \<and> wild ''*b'' ''*ab'' \<and> wildcardMatch ''*b'' ''xab''"
  by code_simp

section \<open>Matching a path\<close>

definition splitSegments :: "string \<Rightarrow> string list" where
  "splitSegments s = split_char (CHR ''/'') (replace_char (CHR 0x5C) ''/'' s)"

text \<open>
  The table \<open>dp\<close> of \<open>matchSegments\<close>, one row per pattern segment: \<open>dp_row p path next\<close> is row
  \<open>i\<close>, for \<open>pat[i] = p\<close>, from row \<open>i+1\<close>; its elements are \<open>dp[i][0], ..., dp[i][m]\<close>, and as in
  the inner loop each is computed after the one on its right.
\<close>

fun dp_row :: "string \<Rightarrow> string list \<Rightarrow> bool list \<Rightarrow> bool list" where
  "dp_row p [] next = [if p = ''**'' then hd next else False]"
| "dp_row p (s # path) next =
    (let row = dp_row p path (tl next) in
      (if p = ''**'' then hd next \<or> hd row else matchSeg p s \<and> hd (tl next)) # row)"

definition matchSegments :: "string list \<Rightarrow> string list \<Rightarrow> bool" where
  "matchSegments pat path =
    hd (foldr (\<lambda>p next. dp_row p path next) pat (replicate (length path) False @ [True]))"

definition MatchGlob :: "string \<Rightarrow> string \<Rightarrow> bool" where
  "MatchGlob pattern path =
    (let pattern = trim_space pattern in
      if pattern = [] then False
      else matchSegments (splitSegments pattern) (splitSegments path))"

text \<open>The specification: which lists of segments a list of pattern segments accepts.\<close>

fun glob :: "string list \<Rightarrow> string list \<Rightarrow> bool" where
  "glob [] path = (path = [])"
| "glob (p # pat) [] = (p = ''**'' \<and> glob pat [])"
| "glob (p # pat) (s # path) =
    (if p = ''**'' then glob pat (s # path) \<or> glob (p # pat) path
     else matchSeg p s \<and> glob pat path)"

fun suffixes_of :: "'a list \<Rightarrow> 'a list list" where
  "suffixes_of [] = [[]]"
| "suffixes_of (x # xs) = (x # xs) # suffixes_of xs"

lemma suffixes_of_Cons: "\<exists>ys. suffixes_of xs = xs # ys"
  by (cases xs) auto

lemma hd_suffixes_of [simp]: "hd (map f (suffixes_of xs)) = f xs"
  by (cases xs) auto

lemma dp_row_glob:
  "dp_row p path (map (glob pat) (suffixes_of path)) = map (glob (p # pat)) (suffixes_of path)"
proof (induction path)
  case (Cons s path)
  obtain ys where "suffixes_of path = path # ys" using suffixes_of_Cons by blast
  with Cons show ?case by (auto simp: Let_def)
qed simp

lemma dp_last_row: "replicate (length path) False @ [True] = map (glob []) (suffixes_of path)"
  by (induction path) auto

lemma dp_rows_glob:
  "foldr (\<lambda>p next. dp_row p path next) pat (replicate (length path) False @ [True]) =
    map (glob pat) (suffixes_of path)"
  by (induction pat) (simp_all add: dp_row_glob dp_last_row)

lemma dp_table_glob: "matchSegments pat path = glob pat path"
  by (simp add: matchSegments_def dp_rows_glob)

text \<open>
  C13: the bottom-up table of matchSegments computes the recursive matching relation: a double star
  stands for any number of path segments, any other pattern segment for exactly one segment it
  matches.
\<close>

theorem matchSegments_eq_glob: "matchSegments pat path = glob pat path"
  by (rule dp_table_glob)

lemma glob_double_star: "glob (''**'' # pat) path \<longleftrightarrow> (\<exists>pre suf. path = pre @ suf \<and> glob pat suf)"
proof (induction path)
  case (Cons s path)
  have "(\<exists>pre suf. s # path = pre @ suf \<and> glob pat suf) \<longleftrightarrow>
      glob pat (s # path) \<or> (\<exists>pre suf. path = pre @ suf \<and> glob pat suf)"
    by (metis Cons_eq_append_conv append_Cons append_Nil)
  with Cons show ?case by simp
qed simp

lemma glob_prefix:
  assumes "''**'' \<notin> set pat"
  shows "glob (pat @ rest) path \<longleftrightarrow>
    (\<exists>pre suf. path = pre @ suf \<and> list_all2 matchSeg pat pre \<and> glob rest suf)"
  using assms
proof (induction pat arbitrary: path)
  case (Cons p pat)
  show ?case
  proof (cases path)
    case (Cons s path')
    let ?R = "\<lambda>pat path. \<exists>pre suf. path = pre @ suf \<and> list_all2 matchSeg pat pre \<and> glob rest suf"
    have "?R (p # pat) path" if "matchSeg p s" and "?R pat path'"
    proof -
      from that(2) obtain pre suf where "path' = pre @ suf" "list_all2 matchSeg pat pre" "glob rest suf"
        by blast
      with that(1) Cons show ?thesis by (intro exI [of _ "s # pre"] exI [of _ suf]) auto
    qed
    moreover have "matchSeg p s \<and> ?R pat path'" if "?R (p # pat) path"
      using that Cons by (auto simp: list_all2_Cons1) blast
    ultimately show ?thesis using Cons.IH [of path'] Cons.prems Cons by auto
  qed (use Cons.prems in auto)
qed simp

text \<open>
  A glob with a double star accepts exactly the paths that split in three: one segment per
  leading pattern segment, each matched by it, then any segments, then a path the rest of the
  pattern accepts.
\<close>

lemma matchSegments_double_star:
  assumes "''**'' \<notin> set pat"
  shows "matchSegments (pat @ ''**'' # rest) path \<longleftrightarrow>
    (\<exists>a b c. path = a @ b @ c \<and> list_all2 matchSeg pat a \<and> matchSegments rest c)"
  using assms by (auto simp: dp_table_glob glob_prefix glob_double_star)

lemma matchSegments_double_star_witness:
  "matchSegments [''gamemodes'', ''**'', ''*.pwn''] [''gamemodes'', ''a'', ''b'', ''main.pwn''] \<and>
    (\<exists>a b c. [''gamemodes'', ''a'', ''b'', ''main.pwn''] = a @ b @ c \<and>
      list_all2 matchSeg [''gamemodes''] a \<and> matchSegments [''*.pwn''] c)"
proof -
  have h: "''**'' \<notin> set [''gamemodes'']" by simp
  have "matchSegments [''gamemodes'', ''**'', ''*.pwn''] [''gamemodes'', ''a'', ''b'', ''main.pwn'']"
    by code_simp
  with matchSegments_double_star [OF h, of "[''*.pwn'']" "[''gamemodes'', ''a'', ''b'', ''main.pwn'']"]
  show ?thesis by simp
qed

end
