(* ===== verification/Source.thy ===== *)
theory Source
  imports Go_Strings
begin

text \<open>
  Source positions and the line table (\<open>internal/source/source.go\<close>,
  \<open>internal/source/linetable.go\<close>): a byte offset is turned into a line and a column by binary
  search over the offsets at which lines start. The search is shown to agree with reading the text
  byte by byte. Go's \<open>int\<close> is \<open>int\<close>; indices into slices are \<open>nat\<close>.
\<close>

section \<open>Positions and ranges\<close>

record position =
  p_offset :: int
  p_line :: int
  p_col :: int

record range =
  r_start :: position
  r_end :: position

definition zero_position :: position where
  "zero_position = \<lparr>p_offset = 0, p_line = 0, p_col = 0\<rparr>"

definition IsEmpty :: "range \<Rightarrow> bool" where
  "IsEmpty r \<longleftrightarrow> p_offset (r_start r) \<ge> p_offset (r_end r)"

definition Contains :: "range \<Rightarrow> int \<Rightarrow> bool" where
  "Contains r offset \<longleftrightarrow> offset \<ge> p_offset (r_start r) \<and> offset < p_offset (r_end r)"

section \<open>The line table\<close>

abbreviation newline :: char where
  "newline \<equiv> CHR 0x0A"

abbreviation carriage_return :: char where
  "carriage_return \<equiv> CHR 0x0D"

record line_table =
  lt_source :: string
  lt_lineStart :: "int list"

definition NewLineTable :: "string \<Rightarrow> line_table" where
  "NewLineTable source =
    \<lparr>lt_source = source,
     lt_lineStart = 0 # map (\<lambda>i. int i + 1) (filter (\<lambda>i. source ! i = newline) [0..<length source])\<rparr>"

definition LineCount :: "line_table \<Rightarrow> nat" where
  "LineCount lt = length (lt_lineStart lt)"

definition clamp :: "int \<Rightarrow> int \<Rightarrow> int \<Rightarrow> int" where
  "clamp v lo hi = (if v < lo then lo else if v > hi then hi else v)"

function search_loop :: "int list \<Rightarrow> int \<Rightarrow> nat \<Rightarrow> nat \<Rightarrow> nat" where
  "search_loop lineStart offset lo hi =
    (if lo < hi then
       (let mid = (lo + hi) div 2 in
         if lineStart ! mid \<le> offset then search_loop lineStart offset (mid + 1) hi
         else search_loop lineStart offset lo mid)
     else lo)"
  by pat_completeness auto
termination
  by (relation "measure (\<lambda>(lineStart, offset, lo, hi). hi - lo)") (auto simp: Let_def)

declare search_loop.simps [simp del]

definition searchLine :: "int list \<Rightarrow> int \<Rightarrow> nat" where
  "searchLine lineStart offset =
    (let lo = search_loop lineStart offset 0 (length lineStart - 1);
         lo = (if lo > 0 \<and> lineStart ! lo > offset then lo - 1 else lo)
     in nat (clamp (int lo) 0 (int (length lineStart) - 1)))"

definition Lookup :: "line_table \<Rightarrow> int \<Rightarrow> position" where
  "Lookup lt offset =
    (let offset = (if offset < 0 then 0 else offset);
         offset = (if offset > int (length (lt_source lt)) then int (length (lt_source lt)) else offset);
         line = searchLine (lt_lineStart lt) offset;
         lineStart = lt_lineStart lt ! line;
         col = offset - lineStart + 1
     in \<lparr>p_offset = offset, p_line = int line + 1, p_col = col\<rparr>)"

definition Range :: "line_table \<Rightarrow> int \<Rightarrow> int \<Rightarrow> range" where
  "Range lt start stop =
    (let start = (if start < 0 then 0 else start);
         stop = (if stop > int (length (lt_source lt)) then int (length (lt_source lt)) else stop);
         stop = (if stop < start then start else stop)
     in \<lparr>r_start = Lookup lt start, r_end = Lookup lt stop\<rparr>)"

text \<open>The slice \<open>s[start:end]\<close> for \<open>0 \<le> start \<le> end \<le> len s\<close>.\<close>

definition slice :: "string \<Rightarrow> int \<Rightarrow> int \<Rightarrow> string" where
  "slice s start stop = take (nat (stop - start)) (drop (nat start) s)"

definition LineText :: "line_table \<Rightarrow> int \<Rightarrow> string" where
  "LineText lt lineIdx =
    (if lineIdx < 1 \<or> lineIdx > int (length (lt_lineStart lt)) then []
     else
       (let start = lt_lineStart lt ! nat (lineIdx - 1);
            stop =
              (if lineIdx < int (length (lt_lineStart lt)) then
                 (let e = lt_lineStart lt ! nat lineIdx - 1 in
                   if e > 0 \<and> lt_source lt ! nat (e - 1) = carriage_return then e - 1 else e)
               else int (length (lt_source lt)))
        in slice (lt_source lt) start stop))"

definition DisplayWidth :: "line_table \<Rightarrow> int \<Rightarrow> int \<Rightarrow> int" where
  "DisplayWidth lt start stop =
    (let start = (if start < 0 then 0 else start) in
      if stop < start then 0
      else
        (let pos = Lookup lt start;
             lineStart = lt_lineStart lt ! nat (p_line pos - 1);
             lineEnd =
               (if p_line pos < int (length (lt_lineStart lt))
                then lt_lineStart lt ! nat (p_line pos) - 1 else int (length (lt_source lt)));
             stop = (if stop > lineEnd then lineEnd else stop)
         in if stop \<le> lineStart then 0 else stop - start))"

definition SplitLines :: "string \<Rightarrow> string list" where
  "SplitLines source =
    map (\<lambda>l. trim_suffix (trim_suffix l [newline]) [carriage_return]) (split_after newline source)"

section \<open>The binary search\<close>

lemma search_loop_stop [simp]: "\<not> lo < hi \<Longrightarrow> search_loop ls v lo hi = lo"
  by (simp add: search_loop.simps)

lemma search_loop_step:
  "lo < hi \<Longrightarrow> search_loop ls v lo hi =
    (if ls ! ((lo + hi) div 2) \<le> v then search_loop ls v ((lo + hi) div 2 + 1) hi
     else search_loop ls v lo ((lo + hi) div 2))"
  by (simp add: search_loop.simps [of ls v lo hi] Let_def)

lemma search_loop_bounds:
  "lo \<le> hi \<Longrightarrow> lo \<le> search_loop ls v lo hi \<and> search_loop ls v lo hi \<le> hi"
proof (induction ls v lo hi rule: search_loop.induct)
  case (1 ls v lo hi)
  show ?case
  proof (cases "lo < hi")
    case True
    then have "lo \<le> (lo + hi) div 2" "(lo + hi) div 2 < hi" by simp_all
    with 1 True show ?thesis by (fastforce simp: search_loop.simps [of ls v lo hi] Let_def)
  qed (use 1 in simp)
qed

lemma search_loop_partition:
  assumes "sorted ls" and "hi < length ls" and "lo \<le> hi"
    and "\<forall>i<lo. ls ! i \<le> v" and "\<forall>i. hi \<le> i \<longrightarrow> i < length ls - 1 \<longrightarrow> ls ! i > v"
  shows "(\<forall>i<search_loop ls v lo hi. ls ! i \<le> v) \<and>
    (\<forall>i. search_loop ls v lo hi \<le> i \<longrightarrow> i < length ls - 1 \<longrightarrow> ls ! i > v)"
  using assms
proof (induction ls v lo hi rule: search_loop.induct)
  case (1 ls v lo hi)
  show ?case
  proof (cases "lo < hi")
    case False
    with "1.prems" show ?thesis by auto
  next
    case True
    define mid where "mid = (lo + hi) div 2"
    have mid: "lo \<le> mid" "mid < hi" using True by (simp_all add: mid_def)
    show ?thesis
    proof (cases "ls ! mid \<le> v")
      case le: True
      have "\<forall>i<mid + 1. ls ! i \<le> v"
      proof (intro allI impI)
        fix i assume "i < mid + 1"
        with mid "1.prems"(1,2) have "ls ! i \<le> ls ! mid" by (intro sorted_nth_mono) auto
        with le show "ls ! i \<le> v" by simp
      qed
      with "1.IH"(1) [OF True mid_def le] "1.prems" mid le True show ?thesis
        by (simp add: search_loop_step flip: mid_def)
    next
      case False
      have "\<forall>i. mid \<le> i \<longrightarrow> i < length ls - 1 \<longrightarrow> ls ! i > v"
      proof (intro allI impI)
        fix i assume "mid \<le> i" "i < length ls - 1"
        with "1.prems"(1) have "ls ! mid \<le> ls ! i" by (intro sorted_nth_mono) auto
        with False show "v < ls ! i" by simp
      qed
      with "1.IH"(2) [OF True mid_def False] "1.prems" mid False True show ?thesis
        by (simp add: search_loop_step flip: mid_def)
    qed
  qed
qed

lemma searchLine_spec:
  assumes "sorted ls" and "ls \<noteq> []" and "ls ! 0 \<le> v"
  shows "searchLine ls v < length ls" and "\<forall>i\<le>searchLine ls v. ls ! i \<le> v"
    and "\<forall>i. searchLine ls v < i \<longrightarrow> i < length ls \<longrightarrow> ls ! i > v"
proof -
  let ?r = "search_loop ls v 0 (length ls - 1)"
  have r: "?r \<le> length ls - 1" using search_loop_bounds by blast
  have low: "\<forall>i<?r. ls ! i \<le> v" and high: "\<forall>i. ?r \<le> i \<longrightarrow> i < length ls - 1 \<longrightarrow> ls ! i > v"
    using search_loop_partition [of ls "length ls - 1" 0 v] assms by simp_all
  have "searchLine ls v = (if ?r > 0 \<and> ls ! ?r > v then ?r - 1 else ?r)"
    using r assms(2) by (auto simp: searchLine_def clamp_def Let_def nat_less_iff)
  moreover have "ls ! ?r > v \<longrightarrow> ?r > 0" using assms(3) by (metis gr0I leD)
  ultimately have cases: "(ls ! ?r > v \<and> ?r > 0 \<and> searchLine ls v = ?r - 1) \<or>
      (ls ! ?r \<le> v \<and> searchLine ls v = ?r)" by auto
  have last: "ls ! ?r \<le> v \<Longrightarrow> ?r = length ls - 1"
    using high r by (metis le_neq_implies_less leD order_refl)
  have "0 < length ls" using assms(2) by simp
  with cases r show "searchLine ls v < length ls" by linarith
  show "\<forall>i\<le>searchLine ls v. ls ! i \<le> v"
  proof (intro allI impI)
    fix i assume "i \<le> searchLine ls v"
    with cases have "i < ?r \<or> i = ?r \<and> ls ! ?r \<le> v" by linarith
    with low show "ls ! i \<le> v" by blast
  qed
  show "\<forall>i. searchLine ls v < i \<longrightarrow> i < length ls \<longrightarrow> ls ! i > v"
  proof (intro allI impI)
    fix i assume i: "searchLine ls v < i" "i < length ls"
    show "ls ! i > v"
    proof (cases "ls ! ?r \<le> v")
      case True
      with last cases i show ?thesis by auto
    next
      case False
      then have "?r \<le> i" using cases i by auto
      with False have "ls ! ?r \<le> ls ! i" using sorted_nth_mono [OF assms(1)] i(2) by blast
      with False show ?thesis by simp
    qed
  qed
qed

section \<open>The line table against reading the text\<close>

text \<open>Reading one byte moves to the next column, or to the first column of the next line.\<close>

fun advance :: "int \<times> int \<Rightarrow> char \<Rightarrow> int \<times> int" where
  "advance (line, col) c = (if c = newline then (line + 1, 1) else (line, col + 1))"

lemma foldl_advance:
  "foldl advance (1, 1) xs =
    (1 + int (length (filter (\<lambda>c. c = newline) xs)), 1 + int (length (takeWhile (\<lambda>c. c \<noteq> newline) (rev xs))))"
  by (induction xs rule: rev_induct) auto

lemma line_starts_sorted: "sorted (lt_lineStart (NewLineTable s))"
proof -
  have "sorted (filter (\<lambda>i. s ! i = newline) [0..<length s])"
    by (rule sorted_wrt_filter) simp
  then have "sorted (map (\<lambda>i. int i + 1) (filter (\<lambda>i. s ! i = newline) [0..<length s]))"
    by (simp add: sorted_wrt_map)
  then show ?thesis by (auto simp: NewLineTable_def)
qed

lemma line_starts_simps [simp]:
  "lt_source (NewLineTable s) = s" "lt_lineStart (NewLineTable s) ! 0 = 0"
  "lt_lineStart (NewLineTable s) \<noteq> []"
  by (simp_all add: NewLineTable_def)

lemma line_starts_set:
  "x \<in> set (lt_lineStart (NewLineTable s)) \<longleftrightarrow>
    x = 0 \<or> (\<exists>i<length s. s ! i = newline \<and> x = int i + 1)"
  by (auto simp: NewLineTable_def)

text \<open>The line start the search finds is the one right after the last line break before \<open>o\<close>.\<close>

lemma last_line_start:
  assumes "n \<le> length s" and "x \<in> set (lt_lineStart (NewLineTable s))" and "x \<le> int n"
    and "\<And>y. y \<in> set (lt_lineStart (NewLineTable s)) \<Longrightarrow> x < y \<Longrightarrow> int n < y"
  shows "int (length (takeWhile (\<lambda>c. c \<noteq> newline) (rev (take n s)))) = int n - x"
proof -
  define k where "k = nat x"
  have x: "x = int k" and k: "k \<le> n"
    using assms(2,3) by (auto simp: k_def line_starts_set)
  have split: "take n s = take k s @ drop k (take n s)" by (metis append_take_drop_id k min.absorb1 take_take)
  have noline: "c \<noteq> newline" if "c \<in> set (drop k (take n s))" for c
  proof
    assume "c = newline"
    from that obtain i where i: "i < n - k" "s ! (k + i) = c"
      using assms(1) by (auto simp: in_set_conv_nth)
    then have i: "k + i < n" "k + i < length s" "s ! (k + i) = c" using assms(1) by auto
    then have "int (k + i) + 1 \<in> set (lt_lineStart (NewLineTable s))"
      using \<open>c = newline\<close> by (auto simp: line_starts_set simp del: of_nat_add)
    then have "int n < int (k + i) + 1" by (rule assms(4)) (simp add: x)
    with i show False by simp
  qed
  have last: "take k s = [] \<or> (\<exists>ys. take k s = ys @ [newline])"
  proof (cases k)
    case (Suc j)
    with assms(2) x have j: "j < length s" "s ! j = newline" by (auto simp: line_starts_set)
    then show ?thesis unfolding Suc by (simp add: take_Suc_conv_app_nth)
  qed simp
  have "rev (take n s) = rev (drop k (take n s)) @ rev (take k s)"
    using arg_cong [OF split, of rev] by simp
  also have "takeWhile (\<lambda>c. c \<noteq> newline) \<dots> =
      rev (drop k (take n s)) @ takeWhile (\<lambda>c. c \<noteq> newline) (rev (take k s))"
    by (rule takeWhile_append2) (use noline in auto)
  also have "takeWhile (\<lambda>c. c \<noteq> newline) (rev (take k s)) = []" using last by auto
  finally show ?thesis using assms(1) k x by simp
qed

lemma sorted_search_count:
  assumes "sorted ls" and "i < length ls" and "\<forall>j\<le>i. ls ! j \<le> v"
    and "\<forall>j. i < j \<longrightarrow> j < length ls \<longrightarrow> ls ! j > v"
  shows "length (filter (\<lambda>x. x \<le> (v::int)) ls) = i + 1"
proof -
  have "filter (\<lambda>x. x \<le> v) (take (i + 1) ls) = take (i + 1) ls"
    using assms(3) by (auto simp: filter_id_conv in_set_conv_nth)
  moreover have "filter (\<lambda>x. x \<le> v) (drop (i + 1) ls) = []"
    using assms(4) by (fastforce simp: filter_empty_conv in_set_conv_nth not_le)
  ultimately have "filter (\<lambda>x. x \<le> v) ls = take (i + 1) ls"
    by (metis append_Nil2 append_take_drop_id filter_append)
  with assms(2) show ?thesis by simp
qed

lemma line_starts_count:
  assumes "n \<le> length s"
  shows "length (filter (\<lambda>x. x \<le> int n) (lt_lineStart (NewLineTable s))) =
    1 + length (filter (\<lambda>c. c = newline) (take n s))"
proof -
  have "length (filter (\<lambda>c. c = newline) (take n s)) =
      length (filter (\<lambda>i. take n s ! i = newline) [0..<length (take n s)])"
    by (subst map_nth [symmetric, of "take n s"], subst filter_map) (simp add: o_def)
  also have "filter (\<lambda>i. take n s ! i = newline) [0..<length (take n s)] =
      filter (\<lambda>i. s ! i = newline) [0..<n]"
    using assms by (auto intro: filter_cong)
  also have "\<dots> = filter (\<lambda>i. i < n \<and> s ! i = newline) [0..<length s]"
  proof -
    have "[0..<length s] = [0..<n] @ [n..<length s]" using assms upt_add_eq_append [of 0 n] by (metis le_add_diff_inverse zero_le)
    then show ?thesis by (auto intro!: filter_cong simp: filter_empty_conv)
  qed
  also have "\<dots> = filter (\<lambda>i. int i + 1 \<le> int n \<and> s ! i = newline) [0..<length s]"
    by (rule filter_cong) auto
  finally show ?thesis by (simp add: NewLineTable_def filter_map o_def conj_commute)
qed

lemma Lookup_reads:
  assumes "n \<le> length s"
  shows "Lookup (NewLineTable s) (int n) =
    (let (line, col) = foldl advance (1, 1) (take n s) in \<lparr>p_offset = int n, p_line = line, p_col = col\<rparr>)"
proof -
  let ?ls = "lt_lineStart (NewLineTable s)" and ?i = "searchLine (lt_lineStart (NewLineTable s)) (int n)"
  have len: "?i < length ?ls" and low: "\<forall>j\<le>?i. ?ls ! j \<le> int n"
    and high: "\<forall>j. ?i < j \<longrightarrow> j < length ?ls \<longrightarrow> ?ls ! j > int n"
    using searchLine_spec [OF line_starts_sorted, of s "int n"] by simp_all
  have "int ?i + 1 = 1 + int (length (filter (\<lambda>c. c = newline) (take n s)))"
    using sorted_search_count [OF line_starts_sorted len low high] line_starts_count [OF assms] by simp
  moreover have "int (length (takeWhile (\<lambda>c. c \<noteq> newline) (rev (take n s)))) = int n - ?ls ! ?i"
  proof (rule last_line_start [OF assms])
    show "?ls ! ?i \<in> set ?ls" using len by simp
    show "?ls ! ?i \<le> int n" using low by simp
    fix y assume "y \<in> set ?ls" "?ls ! ?i < y"
    then obtain j where j: "j < length ?ls" "y = ?ls ! j" by (auto simp: in_set_conv_nth)
    have "?i < j"
    proof (rule ccontr)
      assume "\<not> ?i < j"
      then have "?ls ! j \<le> ?ls ! ?i" using sorted_nth_mono [OF line_starts_sorted] len by simp
      with j \<open>?ls ! ?i < y\<close> show False by simp
    qed
    with high j show "int n < y" by blast
  qed
  ultimately show ?thesis using assms by (simp add: Lookup_def foldl_advance Let_def)
qed

text \<open>
  For every text and every offset the binary search of Lookup gives the line and the column
  that reading the text from its start would: the offset is first clamped to the text, then every
  byte moves one column and every line break to the first column of the next line.
\<close>

theorem Lookup_correct:
  "Lookup (NewLineTable s) offset =
    (let n = nat (clamp offset 0 (int (length s)));
         (line, col) = foldl advance (1, 1) (take n s)
     in \<lparr>p_offset = int n, p_line = line, p_col = col\<rparr>)"
proof -
  let ?n = "nat (clamp offset 0 (int (length s)))"
  have "Lookup (NewLineTable s) offset = Lookup (NewLineTable s) (int ?n)"
    by (simp add: Lookup_def clamp_def Let_def)
  moreover have "?n \<le> length s" by (auto simp: clamp_def)
  ultimately show ?thesis using Lookup_reads [of ?n s] by (simp only: Let_def)
qed

text \<open>
  A range built from any two offsets stays inside the text and never ends before it starts,
  and its two ends are the positions of the clamped offsets.
\<close>

lemma Range_ordered:
  "let r = Range (NewLineTable s) start stop; a = p_offset (r_start r); b = p_offset (r_end r) in
    0 \<le> a \<and> a \<le> b \<and> b \<le> int (length s) \<and>
    r_start r = Lookup (NewLineTable s) a \<and> r_end r = Lookup (NewLineTable s) b"
  by (auto simp: Range_def Lookup_def Let_def)

end
