(* ===== verification/Diagnostic.thy ===== *)
theory Diagnostic
  imports Source "HOL-Library.Product_Lexorder"
begin

text \<open>
  Findings (\<open>pkg/diagnostic/diagnostic.go\<close>): severities, categories, the record of a finding with
  its edits, and the order in which findings are reported.
\<close>

section \<open>Severities and categories\<close>

datatype severity = SeverityOff | SeverityError | SeverityWarning | SeverityInfo | SeverityHint

fun severity_String :: "severity \<Rightarrow> string" where
  "severity_String SeverityOff = ''off''"
| "severity_String SeverityError = ''error''"
| "severity_String SeverityWarning = ''warning''"
| "severity_String SeverityInfo = ''info''"
| "severity_String SeverityHint = ''hint''"

text \<open>\<open>ParseSeverity\<close> returns \<open>(SeverityOff, false)\<close> for an unknown name: \<open>None\<close> here.\<close>

definition ParseSeverity :: "string \<Rightarrow> severity option" where
  "ParseSeverity s =
    (if s = ''off'' then Some SeverityOff
     else if s = ''error'' then Some SeverityError
     else if s = ''warning'' then Some SeverityWarning
     else if s = ''info'' then Some SeverityInfo
     else if s = ''hint'' then Some SeverityHint
     else None)"

lemma ParseSeverity_String: "ParseSeverity (severity_String s) = Some s"
  by (cases s) (simp_all add: ParseSeverity_def)

lemma ParseSeverity_Some: "ParseSeverity s = Some v \<longleftrightarrow> s = severity_String v"
  by (cases v) (auto simp: ParseSeverity_def split: if_splits)

text \<open>
  Parsing a severity name and printing a severity are inverse to each other, and every name
  other than the five printed ones is refused.
\<close>

lemma ParseSeverity_roundtrip:
  "ParseSeverity (severity_String v) = Some v \<and>
    (\<forall>s. (ParseSeverity s = None) = (s \<notin> severity_String ` UNIV))"
proof -
  have "ParseSeverity s = None \<longleftrightarrow> (\<forall>w. s \<noteq> severity_String w)" for s
    by (simp add: ParseSeverity_Some flip: not_Some_eq)
  then show ?thesis by (simp add: ParseSeverity_String image_iff)
qed

datatype category =
    CategoryCorrectness | CategorySuspicious | CategoryPerformance | CategoryMaintainability
  | CategoryOpenMP | CategoryStyle | CategorySecurity | CategoryPortability | CategoryRestriction

fun category_String :: "category \<Rightarrow> string" where
  "category_String CategoryCorrectness = ''correctness''"
| "category_String CategorySuspicious = ''suspicious''"
| "category_String CategoryPerformance = ''performance''"
| "category_String CategoryMaintainability = ''maintainability''"
| "category_String CategoryOpenMP = ''openmp''"
| "category_String CategoryStyle = ''style''"
| "category_String CategorySecurity = ''security''"
| "category_String CategoryPortability = ''portability''"
| "category_String CategoryRestriction = ''restriction''"

section \<open>Findings\<close>

record related_location =
  rl_range :: range
  rl_message :: string

record edit =
  e_range :: range
  e_newText :: string

record suggestion =
  sg_description :: string
  sg_edits :: "edit list"

record diag_fix =
  fx_description :: string
  fx_edits :: "edit list"

record diagnostic =
  d_ruleID :: string
  d_code :: string
  d_severity :: severity
  d_category :: category
  d_message :: string
  d_filename :: string
  d_range :: range
  d_notes :: "related_location list"
  d_suggestions :: "suggestion list"
  d_fix :: "diag_fix option"

definition d_offset :: "diagnostic \<Rightarrow> int" where
  "d_offset d = p_offset (r_start (d_range d))"

text \<open>\<open>Diagnostic.Add\<close> and the comparison of \<open>Sort\<close>.\<close>

definition diagnostic_Add :: "diagnostic \<Rightarrow> diagnostic list \<Rightarrow> diagnostic list" where
  "diagnostic_Add d dst = dst @ [d]"

definition diag_less :: "diagnostic \<Rightarrow> diagnostic \<Rightarrow> bool" where
  "diag_less a b =
    (if d_filename a \<noteq> d_filename b then d_filename a < d_filename b
     else if d_offset a \<noteq> d_offset b then d_offset a < d_offset b
     else if d_ruleID a \<noteq> d_ruleID b then d_ruleID a < d_ruleID b
     else d_message a < d_message b)"

definition diagnostic_Sort :: "diagnostic list \<Rightarrow> diagnostic list" where
  "diagnostic_Sort ds = stable_sort diag_less ds"

interpretation diag_less: go_less diag_less
  by unfold_locales (auto simp: diag_less_def split: if_splits)

lemma mset_diagnostic_Sort: "mset (diagnostic_Sort ds) = mset ds"
  by (simp add: diagnostic_Sort_def)

lemma sorted_diagnostic_Sort:
  "sorted_wrt (\<lambda>a b. (d_filename a, d_offset a, d_ruleID a, d_message a)
      \<le> (d_filename b, d_offset b, d_ruleID b, d_message b)) (diagnostic_Sort ds)"
  (is "sorted_wrt ?le _")
proof -
  have le: "?le a b \<longleftrightarrow> \<not> diag_less b a" for a b
    by (auto simp: diag_less_def)
  show ?thesis unfolding le diagnostic_Sort_def by (rule diag_less.sorted_stable_sort)
qed

text \<open>
  Sort reports every finding exactly once, in ascending order of file, offset, rule and
  message, keeps the order of findings that agree on all four, and changes nothing when run again.
\<close>

theorem diagnostic_Sort_correct:
  "mset (diagnostic_Sort ds) = mset ds \<and>
    sorted_wrt (\<lambda>a b. (d_filename a, d_offset a, d_ruleID a, d_message a)
      \<le> (d_filename b, d_offset b, d_ruleID b, d_message b)) (diagnostic_Sort ds) \<and>
    filter (\<lambda>d. (d_filename d, d_offset d, d_ruleID d, d_message d) = key) (diagnostic_Sort ds) =
      filter (\<lambda>d. (d_filename d, d_offset d, d_ruleID d, d_message d) = key) ds \<and>
    diagnostic_Sort (diagnostic_Sort ds) = diagnostic_Sort ds"
  (is "_ \<and> sorted_wrt ?le _ \<and> _ \<and> _")
proof -
  have "filter (\<lambda>d. (d_filename d, d_offset d, d_ruleID d, d_message d) = key)
      (diagnostic_Sort ds) = filter (\<lambda>d. (d_filename d, d_offset d, d_ruleID d, d_message d) = key) ds"
    unfolding diagnostic_Sort_def
  proof (rule diag_less.stable_sort_stable)
    fix a b
    assume "(d_filename a, d_offset a, d_ruleID a, d_message a) = key"
      and "(d_filename b, d_offset b, d_ruleID b, d_message b) = key"
    then have "(d_filename a, d_offset a, d_ruleID a, d_message a) =
        (d_filename b, d_offset b, d_ruleID b, d_message b)" by (simp only:)
    then show "\<not> diag_less a b" by (simp add: diag_less_def)
  qed
  with sorted_diagnostic_Sort mset_diagnostic_Sort show ?thesis
    by (simp add: diagnostic_Sort_def diag_less.stable_sort_idem)
qed

end
