(* ===== verification/Fix.thy ===== *)
theory Fix
  imports Diagnostic Go_Strings
begin

text \<open>
  Applying the fixes of findings (\<open>internal/fix/fix.go\<close>): planning the edits of each file, writing
  the changed files back through temporary files, and printing a diff. Go's \<open>int\<close> offsets are
  \<open>int\<close>; a file is a byte string.
\<close>

section \<open>Planning\<close>

record change =
  ch_path :: string
  ch_before :: string
  ch_after :: string

record planned_edit =
  pe_start :: int
  pe_end :: int
  pe_text :: string

datatype fix_error =
    Source_unavailable string
  | Invalid_range int int string
  | Overlapping string int int

definition planned :: "edit \<Rightarrow> planned_edit" where
  "planned e = \<lparr>pe_start = p_offset (r_start (e_range e)), pe_end = p_offset (r_end (e_range e)),
    pe_text = e_newText e\<rparr>"

text \<open>The loop of \<open>Build\<close> that groups the edits by path.\<close>

definition append_edit ::
  "string \<Rightarrow> (string \<times> planned_edit list) list \<Rightarrow> edit \<Rightarrow> (string \<times> planned_edit list) list" where
  "append_edit path m e =
    alist_set path ((case map_of m path of None \<Rightarrow> [] | Some es \<Rightarrow> es) @ [planned e]) m"

fun collect_edits ::
  "(string \<rightharpoonup> string) \<Rightarrow> (string \<times> planned_edit list) list \<Rightarrow> diagnostic list \<Rightarrow>
    fix_error + (string \<times> planned_edit list) list" where
  "collect_edits sources m [] = Inr m"
| "collect_edits sources m (finding # rest) =
    (case d_fix finding of
      None \<Rightarrow> collect_edits sources m rest
    | Some f \<Rightarrow>
        (case sources (d_filename finding) of
          None \<Rightarrow> Inl (Source_unavailable (d_filename finding))
        | Some _ \<Rightarrow>
            collect_edits sources (foldl (append_edit (d_filename finding)) m (fx_edits f)) rest))"

definition edit_less :: "planned_edit \<Rightarrow> planned_edit \<Rightarrow> bool" where
  "edit_less a b =
    (if pe_start a \<noteq> pe_start b then pe_start a < pe_start b
     else if pe_end a \<noteq> pe_end b then pe_end a < pe_end b
     else pe_text a < pe_text b)"

fun validate_loop ::
  "string \<Rightarrow> int \<Rightarrow> planned_edit list \<Rightarrow> planned_edit list \<Rightarrow> fix_error + planned_edit list" where
  "validate_loop path sz result [] = Inr result"
| "validate_loop path sz result (e # es) =
    (if pe_start e < 0 \<or> pe_end e < pe_start e \<or> pe_end e > sz
     then Inl (Invalid_range (pe_start e) (pe_end e) path)
     else if result \<noteq> []
     then (let previous = last result in
       if e = previous then validate_loop path sz result es
       else if pe_start e < pe_end previous \<or> pe_start e = pe_start previous
       then Inl (Overlapping path (pe_start previous) (pe_start e))
       else validate_loop path sz (result @ [e]) es)
     else validate_loop path sz (result @ [e]) es)"

definition validateEdits ::
  "string \<Rightarrow> int \<Rightarrow> planned_edit list \<Rightarrow> fix_error + planned_edit list" where
  "validateEdits path sz edits = validate_loop path sz [] (stable_sort edit_less edits)"

text \<open>The inner loop of \<open>Build\<close>: the edits are applied from the last to the first.\<close>

definition apply_edit :: "planned_edit \<Rightarrow> string \<Rightarrow> string" where
  "apply_edit e updated =
    take (nat (pe_start e)) updated @ pe_text e @ drop (nat (pe_end e)) updated"

definition apply_edits :: "planned_edit list \<Rightarrow> string \<Rightarrow> string" where
  "apply_edits edits source = foldr apply_edit edits source"

fun build_changes ::
  "(string \<rightharpoonup> string) \<Rightarrow> (string \<times> planned_edit list) list \<Rightarrow> change list \<Rightarrow> string list \<Rightarrow>
    fix_error + change list" where
  "build_changes sources byPath plan [] = Inr plan"
| "build_changes sources byPath plan (path # paths) =
    (let source = (case sources path of None \<Rightarrow> [] | Some s \<Rightarrow> s);
         es = (case map_of byPath path of None \<Rightarrow> [] | Some es \<Rightarrow> es) in
      case validateEdits path (int (length source)) es of
        Inl err \<Rightarrow> Inl err
      | Inr edits \<Rightarrow>
          if edits = [] then build_changes sources byPath plan paths
          else let updated = apply_edits edits source in
            if source \<noteq> updated
            then build_changes sources byPath
              (plan @ [\<lparr>ch_path = path, ch_before = source, ch_after = updated\<rparr>]) paths
            else build_changes sources byPath plan paths)"

definition Build :: "(string \<rightharpoonup> string) \<Rightarrow> diagnostic list \<Rightarrow> fix_error + change list" where
  "Build sources diagnostics =
    (case collect_edits sources [] diagnostics of
      Inl err \<Rightarrow> Inl err
    | Inr byPath \<Rightarrow> build_changes sources byPath [] (sort_strings (map fst byPath)))"

section \<open>Which sets of edits are accepted\<close>

interpretation edit_less: go_total_less edit_less
proof unfold_locales
  show "edit_less x y \<or> edit_less y x \<or> x = y" for x y
    by (cases x, cases y) (auto simp: edit_less_def)
qed (auto simp: edit_less_def split: if_splits)

definition edit_in_range :: "int \<Rightarrow> planned_edit \<Rightarrow> bool" where
  "edit_in_range sz e = (0 \<le> pe_start e \<and> pe_start e \<le> pe_end e \<and> pe_end e \<le> sz)"

text \<open>Two different edits are compatible when one ends before the other starts and they do not start
  at the same place.\<close>

definition precedes :: "planned_edit \<Rightarrow> planned_edit \<Rightarrow> bool" where
  "precedes a b = (pe_start a < pe_start b \<and> pe_end a \<le> pe_start b)"

definition compatible :: "planned_edit \<Rightarrow> planned_edit \<Rightarrow> bool" where
  "compatible a b = (a = b \<or> precedes a b \<or> precedes b a)"

lemma precedes_edit_less: "precedes a b \<Longrightarrow> edit_less a b"
  by (auto simp: precedes_def edit_less_def)

lemma precedes_not_edit_less: "precedes a b \<Longrightarrow> \<not> edit_less b a"
  using precedes_edit_less edit_less.lt_asym by blast

lemma precedes_trans: "edit_in_range sz b \<Longrightarrow> precedes a b \<Longrightarrow> precedes b c \<Longrightarrow> precedes a c"
  by (auto simp: precedes_def edit_in_range_def)

text \<open>The state of the loop: an accepted result is a chain of in-range edits.\<close>

definition chain :: "int \<Rightarrow> planned_edit list \<Rightarrow> bool" where
  "chain sz es = (sorted_wrt precedes es \<and> (\<forall>e\<in>set es. edit_in_range sz e))"

lemma chain_snoc:
  assumes "chain sz es" and "edit_in_range sz e" and "es \<noteq> [] \<Longrightarrow> precedes (last es) e"
  shows "chain sz (es @ [e])"
proof (cases es rule: rev_cases)
  case Nil
  with assms show ?thesis by (simp add: chain_def)
next
  case (snoc xs y)
  with assms have y: "precedes y e" "edit_in_range sz y" by (auto simp: chain_def)
  with snoc assms(1) have "\<forall>x\<in>set xs. precedes x e"
    unfolding chain_def by (auto simp: sorted_wrt_append intro: precedes_trans)
  with snoc assms(1,2) y show ?thesis by (auto simp: chain_def sorted_wrt_append)
qed

lemma chain_distinct: "chain sz es \<Longrightarrow> distinct es"
  unfolding chain_def by (induction es) (auto simp: precedes_def)

lemma chain_sorted: "chain sz es \<Longrightarrow> sorted_wrt (\<lambda>a b. \<not> edit_less b a) es"
  unfolding chain_def by (induction es) (auto simp: precedes_not_edit_less)

lemma chain_compatible: "chain sz es \<Longrightarrow> a \<in> set es \<Longrightarrow> b \<in> set es \<Longrightarrow> compatible a b"
  unfolding chain_def compatible_def by (induction es) auto

lemma validate_loop_Inr:
  assumes "validate_loop path sz res es = Inr out" and "chain sz res"
    and "sorted_wrt (\<lambda>a b. \<not> edit_less b a) (res @ es)"
  shows "chain sz out \<and> set out = set res \<union> set es"
  using assms
proof (induction es arbitrary: res)
  case Nil
  then show ?case by simp
next
  case (Cons e es)
  from Cons.prems(1) have range: "edit_in_range sz e"
    by (auto simp: edit_in_range_def split: if_splits)
  show ?case
  proof (cases "res \<noteq> [] \<and> e = last res")
    case True
    with Cons.prems range have "validate_loop path sz res es = Inr out"
      by (auto simp: edit_in_range_def split: if_splits)
    moreover have "sorted_wrt (\<lambda>a b. \<not> edit_less b a) (res @ es)"
      using Cons.prems(3) by (auto simp: sorted_wrt_append)
    ultimately have "chain sz out \<and> set out = set res \<union> set es"
      using Cons.IH Cons.prems(2) by blast
    with True show ?thesis by auto
  next
    case False
    have "res \<noteq> [] \<Longrightarrow> \<not> edit_less e (last res)"
      using Cons.prems(3) by (auto simp: sorted_wrt_append)
    with False Cons.prems(1) have "res \<noteq> [] \<Longrightarrow> precedes (last res) e"
      by (auto simp: precedes_def edit_less_def Let_def split: if_splits)
    then have "chain sz (res @ [e])"
      using chain_snoc Cons.prems(2) range by blast
    moreover have "validate_loop path sz (res @ [e]) es = Inr out"
      using Cons.prems(1) False by (auto simp: Let_def split: if_splits)
    ultimately have "chain sz out \<and> set out = set (res @ [e]) \<union> set es"
      using Cons.IH Cons.prems(3) by simp
    then show ?thesis by auto
  qed
qed

lemma validate_loop_complete:
  assumes "\<forall>e\<in>set es. edit_in_range sz e"
    and "\<forall>a\<in>set (res @ es). \<forall>b\<in>set (res @ es). compatible a b"
    and "sorted_wrt (\<lambda>a b. \<not> edit_less b a) (res @ es)"
  shows "\<exists>out. validate_loop path sz res es = Inr out"
  using assms
proof (induction es arbitrary: res)
  case Nil
  then show ?case by simp
next
  case (Cons e es)
  have range: "\<not> (pe_start e < 0 \<or> pe_end e < pe_start e \<or> pe_end e > sz)"
    using Cons.prems(1) by (auto simp: edit_in_range_def)
  have rest: "sorted_wrt (\<lambda>a b. \<not> edit_less b a) (res @ es)"
    using Cons.prems(3) by (auto simp: sorted_wrt_append)
  have ok: "\<not> (pe_start e < pe_end (last res) \<or> pe_start e = pe_start (last res))"
    if "res \<noteq> []" "e \<noteq> last res"
  proof -
    from that Cons.prems(2) have "compatible (last res) e" by simp
    moreover have "\<not> edit_less e (last res)"
      using that(1) Cons.prems(3) by (auto simp: sorted_wrt_append)
    ultimately have "precedes (last res) e"
      using that(2) precedes_edit_less by (auto simp: compatible_def)
    then show ?thesis by (auto simp: precedes_def)
  qed
  have "\<exists>out. validate_loop path sz res es = Inr out"
    and "\<exists>out. validate_loop path sz (res @ [e]) es = Inr out"
    using Cons.IH [of res] Cons.IH [of "res @ [e]"] Cons.prems rest by simp_all
  with range ok show ?case by (auto simp: Let_def simp del: not_less)
qed

lemma validateEdits_Inr:
  assumes "validateEdits path sz edits = Inr out"
  shows "chain sz out" and "set out = set edits"
  using validate_loop_Inr [of path sz "[]" "stable_sort edit_less edits" out] assms
  by (simp_all add: validateEdits_def chain_def edit_less.sorted_stable_sort)

lemma validateEdits_ok_iff:
  "(\<exists>out. validateEdits path sz edits = Inr out) \<longleftrightarrow>
    (\<forall>e\<in>set edits. edit_in_range sz e) \<and> (\<forall>a\<in>set edits. \<forall>b\<in>set edits. compatible a b)"
proof
  assume "\<exists>out. validateEdits path sz edits = Inr out"
  then obtain out where "validateEdits path sz edits = Inr out" ..
  then have "chain sz out" "set out = set edits" by (fact validateEdits_Inr)+
  then show "(\<forall>e\<in>set edits. edit_in_range sz e) \<and> (\<forall>a\<in>set edits. \<forall>b\<in>set edits. compatible a b)"
    using chain_compatible [of sz out] by (auto simp: chain_def)
next
  assume ok: "(\<forall>e\<in>set edits. edit_in_range sz e) \<and> (\<forall>a\<in>set edits. \<forall>b\<in>set edits. compatible a b)"
  show "\<exists>out. validateEdits path sz edits = Inr out"
    unfolding validateEdits_def
    by (rule validate_loop_complete) (use ok in \<open>auto simp: edit_less.sorted_stable_sort\<close>)
qed

text \<open>
  C5: validateEdits accepts a list of edits exactly when every edit lies inside the file and no two
  different edits overlap or start at the same place; what it returns are the given edits, each
  once, in ascending order and without overlap.
\<close>

theorem validateEdits_correct:
  "(\<exists>out. validateEdits path sz edits = Inr out) =
      ((\<forall>e\<in>set edits. edit_in_range sz e) \<and> (\<forall>a\<in>set edits. \<forall>b\<in>set edits. compatible a b)) \<and>
    (case validateEdits path sz edits of
      Inr out \<Rightarrow> set out = set edits \<and> distinct out \<and> sorted_wrt precedes out
    | Inl err \<Rightarrow> True)"
proof -
  have "set out = set edits \<and> distinct out \<and> sorted_wrt precedes out"
    if "validateEdits path sz edits = Inr out" for out
    using validateEdits_Inr [OF that] chain_distinct [of sz out] by (auto simp: chain_def)
  then show ?thesis by (simp add: validateEdits_ok_iff split: sum.split)
qed

theorem validateEdits_correct_witness:
  "let es = [\<lparr>pe_start = 5, pe_end = 13, pe_text = []\<rparr>, \<lparr>pe_start = 4, pe_end = 5, pe_text = ''b''\<rparr>] in
    (\<forall>a\<in>set es. \<forall>b\<in>set es. compatible a b) \<and> \<not> (\<exists>out. validateEdits ''a.pwn'' 12 es = Inr out)"
proof -
  let ?es = "[\<lparr>pe_start = 5, pe_end = 13, pe_text = []\<rparr>, \<lparr>pe_start = 4, pe_end = 5, pe_text = ''b''\<rparr>]"
  have "validateEdits ''a.pwn'' 14 ?es = Inr (rev ?es)"
    by (simp add: validateEdits_def edit_less_def)
  with validateEdits_correct [of "''a.pwn''" 14 ?es] have "\<forall>a\<in>set ?es. \<forall>b\<in>set ?es. compatible a b" by blast
  moreover from validateEdits_correct [of "''a.pwn''" 12 ?es]
  have "\<not> (\<exists>out. validateEdits ''a.pwn'' 12 ?es = Inr out)" by (auto simp: edit_in_range_def)
  ultimately show ?thesis unfolding Let_def by blast
qed

lemma validateEdits_unique:
  assumes "validateEdits path sz edits = Inr out" and "set edits' = set edits"
  shows "validateEdits path sz edits' = Inr out"
proof -
  obtain out' where out': "validateEdits path sz edits' = Inr out'"
    using validateEdits_ok_iff assms by metis
  from validateEdits_Inr [OF assms(1)] validateEdits_Inr [OF out'] assms(2)
  have "chain sz out" "chain sz out'" "mset out = mset out'"
    using chain_distinct by (auto simp: set_eq_iff_mset_eq_distinct [symmetric])
  then have "out = out'"
    by (intro edit_less.sorted_perm_unique chain_sorted)
  with out' show ?thesis by simp
qed

section \<open>What applying the edits does\<close>

text \<open>
  The specification: all edits at once, read from the left. \<open>splice k es s\<close> is the text from offset
  \<open>k\<close> on, where \<open>s\<close> is what the file holds from there.
\<close>

fun splice :: "int \<Rightarrow> planned_edit list \<Rightarrow> string \<Rightarrow> string" where
  "splice k [] s = s"
| "splice k (e # es) s =
    take (nat (pe_start e - k)) s @ pe_text e @
      splice (pe_end e) es (drop (nat (pe_end e - k)) s)"

lemma apply_edits_append_prefix:
  assumes "\<forall>e\<in>set es. int (length p) \<le> pe_start e \<and> pe_start e \<le> pe_end e"
  shows "\<exists>t. apply_edits es (p @ s) = p @ t"
  using assms
proof (induction es)
  case Nil
  then show ?case by (simp add: apply_edits_def)
next
  case (Cons e es)
  then obtain t where "apply_edits es (p @ s) = p @ t" by auto
  with Cons.prems show ?case
    by (simp add: apply_edits_def apply_edit_def le_nat_iff)
qed

lemma splice_apply:
  assumes "sorted_wrt precedes es" and "\<forall>e\<in>set es. edit_in_range (int (length p + length s)) e"
    and "\<forall>e\<in>set es. int (length p) \<le> pe_start e"
  shows "apply_edits es (p @ s) = p @ splice (int (length p)) es s"
  using assms
proof (induction es arbitrary: p s)
  case Nil
  then show ?case by (simp add: apply_edits_def)
next
  case (Cons e es)
  define i j where "i = nat (pe_start e - int (length p))" and "j = nat (pe_end e - int (length p))"
  have ij: "i \<le> j" "j \<le> length s" "pe_start e = int (length p + i)" "pe_end e = int (length p + j)"
    using Cons.prems by (auto simp: edit_in_range_def i_def j_def)
  have len: "length (p @ take j s) = length p + j" using ij by simp
  have "apply_edits es (p @ s) = apply_edits es ((p @ take j s) @ drop j s)" by simp
  also have "\<dots> = (p @ take j s) @ splice (int (length (p @ take j s))) es (drop j s)"
  proof (rule Cons.IH)
    show "sorted_wrt precedes es" using Cons.prems by simp
    show "\<forall>e\<in>set es. edit_in_range (int (length (p @ take j s) + length (drop j s))) e"
      using Cons.prems(2) ij by simp
    show "\<forall>e\<in>set es. int (length (p @ take j s)) \<le> pe_start e"
      using Cons.prems(1) ij by (auto simp: precedes_def)
  qed
  finally have "apply_edits es (p @ s) = p @ take j s @ splice (int (length p + j)) es (drop j s)"
    unfolding len by simp
  then have "apply_edits (e # es) (p @ s) =
      apply_edit e (p @ take j s @ splice (int (length p + j)) es (drop j s))"
    by (simp add: apply_edits_def)
  also have "\<dots> = p @ take i s @ pe_text e @ splice (int (length p + j)) es (drop j s)"
    using ij by (simp add: apply_edit_def nat_add_distrib min_def)
  finally show ?case using ij by (simp add: i_def [symmetric] j_def [symmetric])
qed

lemma apply_edits_splice:
  assumes "validateEdits path (int (length source)) edits = Inr es"
  shows "apply_edits es source = splice 0 es source"
  using splice_apply [of es "[]" source] validateEdits_Inr [OF assms]
  by (auto simp: chain_def edit_in_range_def)

text \<open>
  C6: the edits the validation accepts are applied as if all at once. Replacing them from the last
  to the first gives the source with every accepted range replaced by its text and everything
  between the ranges kept, and it does not depend on the order or the number of times the findings
  list the edits.
\<close>

theorem apply_edits_simultaneous:
  assumes "validateEdits path (int (length source)) edits = Inr es"
  shows "apply_edits es source = splice 0 es source \<and> set es = set edits \<and>
    (\<forall>edits'. set edits' = set edits \<longrightarrow> validateEdits path (int (length source)) edits' = Inr es)"
  using apply_edits_splice [OF assms] validateEdits_unique [OF assms] validateEdits_Inr [OF assms]
  by simp

text \<open>Three findings out of order, one of them reported twice, on \<open>if (a == true)\<close>.\<close>

theorem apply_edits_simultaneous_witness:
  "let e1 = \<lparr>pe_start = 4, pe_end = 5, pe_text = ''b''\<rparr>;
       e2 = \<lparr>pe_start = 5, pe_end = 13, pe_text = []\<rparr> in
    apply_edits [e1, e2] ''if (a == true)'' = splice 0 [e1, e2] ''if (a == true)'' \<and>
    splice 0 [e1, e2] ''if (a == true)'' = ''if (b)''"
proof -
  let ?e1 = "\<lparr>pe_start = 4, pe_end = 5, pe_text = ''b''\<rparr>"
  let ?e2 = "\<lparr>pe_start = 5, pe_end = 13, pe_text = []\<rparr>"
  have "validateEdits ''a.pwn'' (int (length ''if (a == true)'')) [?e2, ?e1, ?e2] = Inr [?e1, ?e2]"
    by (simp add: validateEdits_def edit_less_def)
  from apply_edits_simultaneous [OF this] show ?thesis
    by (simp add: Let_def)
qed

section \<open>The plan as a whole\<close>

abbreviation edits_at :: "(string \<times> planned_edit list) list \<Rightarrow> string \<Rightarrow> planned_edit list" where
  "edits_at m path \<equiv> (case map_of m path of None \<Rightarrow> [] | Some es \<Rightarrow> es)"

definition edits_for :: "string \<Rightarrow> diagnostic list \<Rightarrow> planned_edit list" where
  "edits_for path ds =
    concat (map (\<lambda>d. case d_fix d of None \<Rightarrow> []
      | Some f \<Rightarrow> if d_filename d = path then map planned (fx_edits f) else []) ds)"

definition sources_known :: "(string \<rightharpoonup> string) \<Rightarrow> diagnostic list \<Rightarrow> bool" where
  "sources_known sources ds = (\<forall>d\<in>set ds. d_fix d \<noteq> None \<longrightarrow> sources (d_filename d) \<noteq> None)"

lemma append_edits:
  "edits_at (foldl (append_edit path) m es) q =
    edits_at m q @ (if q = path then map planned es else [])"
  by (induction es arbitrary: m) (auto simp: append_edit_def)

lemma dom_append_edits:
  "fst ` set (foldl (append_edit path) m es) = fst ` set m \<union> (if es = [] then {} else {path})"
  by (induction es arbitrary: m) (auto simp: append_edit_def)

lemma distinct_append_edits:
  "distinct (map fst m) \<Longrightarrow> distinct (map fst (foldl (append_edit path) m es))"
  by (induction es arbitrary: m) (auto simp: append_edit_def)

lemma collect_edits_ok_iff:
  "(\<exists>m'. collect_edits sources m ds = Inr m') = sources_known sources ds"
  by (induction sources m ds rule: collect_edits.induct)
    (auto simp: sources_known_def split: option.splits)

lemma collect_edits_Inr:
  assumes "collect_edits sources m ds = Inr m'" and "distinct (map fst m)"
  shows "distinct (map fst m') \<and> edits_at m' q = edits_at m q @ edits_for q ds \<and>
    fst ` set m' = fst ` set m \<union> {p. edits_for p ds \<noteq> []}"
  using assms
proof (induction sources m ds rule: collect_edits.induct)
  case (1 sources m)
  then show ?case by (simp add: edits_for_def)
next
  case (2 sources m d ds)
  show ?case
  proof (cases "d_fix d")
    case None
    with 2 show ?thesis by (simp add: edits_for_def)
  next
    case (Some f)
    with 2 obtain src where src: "sources (d_filename d) = Some src"
      by (auto split: option.splits)
    let ?m = "foldl (append_edit (d_filename d)) m (fx_edits f)"
    have step: "edits_for p (d # ds) =
        (if p = d_filename d then map planned (fx_edits f) else []) @ edits_for p ds" for p
      by (simp add: edits_for_def Some)
    have "distinct (map fst m') \<and> edits_at m' q = edits_at ?m q @ edits_for q ds \<and>
        fst ` set m' = fst ` set ?m \<union> {p. edits_for p ds \<noteq> []}"
      using 2(2) [OF Some src] 2(3,4) Some src by (simp add: distinct_append_edits)
    then show ?thesis
      by (auto simp: append_edits dom_append_edits step)
  qed
qed

text \<open>What one path contributes to the plan.\<close>

definition change_for ::
  "(string \<rightharpoonup> string) \<Rightarrow> (string \<Rightarrow> planned_edit list) \<Rightarrow> string \<Rightarrow> change list" where
  "change_for sources edits path =
    (let source = (case sources path of None \<Rightarrow> [] | Some s \<Rightarrow> s) in
      case validateEdits path (int (length source)) (edits path) of
        Inl _ \<Rightarrow> []
      | Inr es \<Rightarrow> if splice 0 es source = source then []
          else [\<lparr>ch_path = path, ch_before = source, ch_after = splice 0 es source\<rparr>])"

definition path_ok :: "(string \<rightharpoonup> string) \<Rightarrow> (string \<Rightarrow> planned_edit list) \<Rightarrow> string \<Rightarrow> bool" where
  "path_ok sources edits path =
    (\<exists>es. validateEdits path
      (int (length (case sources path of None \<Rightarrow> [] | Some s \<Rightarrow> s))) (edits path) = Inr es)"

lemma build_changes_ok_iff:
  "(\<exists>cs. build_changes sources m plan paths = Inr cs) =
    (\<forall>p\<in>set paths. path_ok sources (edits_at m) p)"
  by (induction paths arbitrary: plan)
    (auto simp: Let_def path_ok_def split: sum.splits)

lemma build_changes_Inr:
  "build_changes sources m plan paths = Inr cs \<Longrightarrow>
    cs = plan @ concat (map (change_for sources (edits_at m)) paths)"
proof (induction paths arbitrary: plan)
  case Nil
  then show ?case by simp
next
  case (Cons path paths)
  let ?source = "case sources path of None \<Rightarrow> [] | Some s \<Rightarrow> s"
  from Cons.prems obtain es where es:
    "validateEdits path (int (length ?source)) (edits_at m path) = Inr es"
    by (auto simp: Let_def split: sum.splits)
  note eq = apply_edits_splice [OF es]
  show ?case
  proof (cases "splice 0 es ?source = ?source")
    case True
    with Cons.prems es eq have "build_changes sources m plan paths = Inr cs"
      by (auto simp: Let_def split: if_splits)
    from Cons.IH [OF this] True es show ?thesis by (simp add: change_for_def Let_def)
  next
    case False
    then have "es \<noteq> []" by auto
    with False Cons.prems es eq have "build_changes sources m (plan @
        [\<lparr>ch_path = path, ch_before = ?source, ch_after = splice 0 es ?source\<rparr>]) paths = Inr cs"
      by (auto simp: Let_def split: if_splits)
    from Cons.IH [OF this] False es show ?thesis by (simp add: change_for_def Let_def)
  qed
qed

lemma change_for_path: "c \<in> set (change_for sources edits p) \<Longrightarrow> ch_path c = p"
  by (auto simp: change_for_def Let_def split: sum.splits if_splits)

lemma sorted_concat_change_for:
  "sorted_wrt (<) ps \<Longrightarrow> sorted_wrt (<) (map ch_path (concat (map (change_for sources edits) ps)))"
proof (induction ps)
  case (Cons p ps)
  have "sorted_wrt (<) (map ch_path (change_for sources edits p))"
    by (simp add: change_for_def Let_def split: sum.split)
  with Cons show ?case by (auto simp: sorted_wrt_append dest!: change_for_path)
qed simp

lemma sorted_strict_sort_strings: "distinct xs \<Longrightarrow> sorted_wrt (<) (sort_strings xs)"
  using sorted_sort_strings [of xs] by (simp add: strict_sorted_iff)

text \<open>
  C2: Build succeeds exactly when every finding that carries a fix has its source and the edits of
  each file are accepted. The plan then holds, in strictly ascending order of path, one change for
  each file whose text the accepted edits change, from its source to the result of applying them
  all at once, and nothing else.
\<close>

theorem Build_correct:
  "(\<exists>plan. Build sources ds = Inr plan) =
      (sources_known sources ds \<and>
        (\<forall>p. edits_for p ds \<noteq> [] \<longrightarrow> path_ok sources (\<lambda>p. edits_for p ds) p)) \<and>
    (case Build sources ds of
      Inl _ \<Rightarrow> True
    | Inr plan \<Rightarrow> sorted_wrt (<) (map ch_path plan) \<and>
        (\<forall>c. c \<in> set plan \<longleftrightarrow> (\<exists>es. sources (ch_path c) = Some (ch_before c) \<and>
            validateEdits (ch_path c) (int (length (ch_before c))) (edits_for (ch_path c) ds) = Inr es \<and>
            ch_after c = splice 0 es (ch_before c) \<and> ch_after c \<noteq> ch_before c)))"
proof (cases "collect_edits sources [] ds")
  case (Inl err)
  then have "\<not> sources_known sources ds"
    using collect_edits_ok_iff [of sources "[]" ds] by simp
  with Inl show ?thesis by (simp add: Build_def)
next
  case (Inr m)
  have known: "sources_known sources ds"
    using collect_edits_ok_iff [of sources "[]" ds] Inr by blast
  have m: "distinct (map fst m)" "edits_at m = (\<lambda>p. edits_for p ds)"
      "fst ` set m = {p. edits_for p ds \<noteq> []}"
    using collect_edits_Inr [OF Inr] by (auto simp: fun_eq_iff)
  have build: "Build sources ds = build_changes sources m [] (sort_strings (map fst m))"
    by (simp add: Build_def Inr)
  have mem: "c \<in> set plan \<longleftrightarrow> (\<exists>es. sources (ch_path c) = Some (ch_before c) \<and>
            validateEdits (ch_path c) (int (length (ch_before c))) (edits_for (ch_path c) ds) = Inr es \<and>
            ch_after c = splice 0 es (ch_before c) \<and> ch_after c \<noteq> ch_before c)"
    if "Build sources ds = Inr plan" for plan c
  proof -
    have src: "edits_for p ds \<noteq> [] \<Longrightarrow> \<exists>s. sources p = Some s" for p
      using known by (auto simp: edits_for_def sources_known_def split: option.splits if_splits)
    have none: "validateEdits p n [] = Inr es \<Longrightarrow> es = []" for p n es
      by (simp add: validateEdits_def)
    have "c \<in> set plan \<longleftrightarrow> edits_for (ch_path c) ds \<noteq> [] \<and>
        c \<in> set (change_for sources (\<lambda>p. edits_for p ds) (ch_path c))"
      using build_changes_Inr [OF that [unfolded build]] m(2,3)
      by (auto simp: dest: change_for_path)
    also have "\<dots> \<longleftrightarrow> (\<exists>es. sources (ch_path c) = Some (ch_before c) \<and>
        validateEdits (ch_path c) (int (length (ch_before c))) (edits_for (ch_path c) ds) = Inr es \<and>
        ch_after c = splice 0 es (ch_before c) \<and> ch_after c \<noteq> ch_before c)"
    proof (cases "edits_for (ch_path c) ds = []")
      case True
      then show ?thesis using none by fastforce
    next
      case False
      with src obtain s where s: "sources (ch_path c) = Some s" by blast
      show ?thesis
        by (cases c; cases "validateEdits (ch_path c) (int (length s)) (edits_for (ch_path c) ds)")
          (use False s in \<open>auto simp: change_for_def split: if_splits\<close>)
    qed
    finally show ?thesis .
  qed
  have sorted: "sorted_wrt (<) (map ch_path plan)" if "Build sources ds = Inr plan" for plan
    using build_changes_Inr [OF that [unfolded build]]
    by (simp add: sorted_concat_change_for sorted_strict_sort_strings m(1))
  have "(\<exists>plan. Build sources ds = Inr plan) \<longleftrightarrow>
      (\<forall>p. edits_for p ds \<noteq> [] \<longrightarrow> path_ok sources (\<lambda>p. edits_for p ds) p)"
    unfolding build build_changes_ok_iff using m by simp
  with known mem sorted show ?thesis by (simp split: sum.split)
qed

text \<open>One finding that removes the first two bytes of \<open>!!x\<close>.\<close>

theorem Build_correct_witness:
  "let d = \<lparr>d_ruleID = ''double-negation'', d_code = [], d_severity = SeverityWarning, d_category = CategoryStyle,
      d_message = ''use x'', d_filename = ''a.pwn'', d_range = \<lparr>r_start = zero_position, r_end = zero_position\<rparr>,
      d_notes = [], d_suggestions = [],
      d_fix = Some \<lparr>fx_description = [], fx_edits = [\<lparr>
        e_range = \<lparr>r_start = zero_position, r_end = zero_position\<lparr>p_offset := 2\<rparr>\<rparr>, e_newText = []\<rparr>]\<rparr>\<rparr> in
    sources_known [''a.pwn'' \<mapsto> ''!!x''] [d] \<and>
    Build [''a.pwn'' \<mapsto> ''!!x''] [d] = Inr [\<lparr>ch_path = ''a.pwn'', ch_before = ''!!x'', ch_after = ''x''\<rparr>]"
proof -
  let ?d = "\<lparr>d_ruleID = ''double-negation'', d_code = [], d_severity = SeverityWarning, d_category = CategoryStyle,
      d_message = ''use x'', d_filename = ''a.pwn'', d_range = \<lparr>r_start = zero_position, r_end = zero_position\<rparr>,
      d_notes = [], d_suggestions = [],
      d_fix = Some \<lparr>fx_description = [], fx_edits = [\<lparr>
        e_range = \<lparr>r_start = zero_position, r_end = zero_position\<lparr>p_offset := 2\<rparr>\<rparr>, e_newText = []\<rparr>]\<rparr>\<rparr>"
  have build: "Build [''a.pwn'' \<mapsto> ''!!x''] [?d] =
      Inr [\<lparr>ch_path = ''a.pwn'', ch_before = ''!!x'', ch_after = ''x''\<rparr>]"
    by code_simp
  with Build_correct [of "[''a.pwn'' \<mapsto> ''!!x'']" "[?d]"] have "sources_known [''a.pwn'' \<mapsto> ''!!x''] [?d]"
    by blast
  with build show ?thesis unfolding Let_def by blast
qed

end
