(* ===== verification/Fix_Write.thy ===== *)
theory Fix_Write
  imports Fix
begin

text \<open>
  Writing a plan back and printing it (\<open>Write\<close> and \<open>Diff\<close> of \<open>internal/fix/fix.go\<close>). The file
  system is a record: the named files, the temporary files that exist, the next temporary name and
  the number of system calls made. Which calls fail is a parameter \<open>fault\<close> over the number of the
  call, so a theorem for every \<open>fault\<close> covers every pattern of failures. Paths that differ as
  strings are different files.
\<close>

section \<open>The file system\<close>

record stored_file =
  sf_data :: string
  sf_mode :: nat

record file_system =
  fs_files :: "string \<rightharpoonup> stored_file"
  fs_temps :: "(nat \<times> stored_file) list"
  fs_next :: nat
  fs_calls :: nat

datatype write_error =
    Duplicate_target string
  | Source_changed string
  | Call_failed string

definition tick :: "file_system \<Rightarrow> file_system" where
  "tick st = st\<lparr>fs_calls := Suc (fs_calls st)\<rparr>"

text \<open>A system call that fails changes nothing but the count.\<close>

definition sys_call ::
  "(nat \<Rightarrow> bool) \<Rightarrow> string \<Rightarrow> (file_system \<Rightarrow> file_system) \<Rightarrow> file_system \<Rightarrow>
    write_error option \<times> file_system" where
  "sys_call fault name eff st =
    (if fault (fs_calls st) then (Some (Call_failed name), tick st) else (None, eff (tick st)))"

definition and_then ::
  "write_error option \<times> file_system \<Rightarrow> (file_system \<Rightarrow> write_error option \<times> file_system) \<Rightarrow>
    write_error option \<times> file_system" where
  "and_then r f = (case r of (None, st) \<Rightarrow> f st | (Some e, st) \<Rightarrow> (Some e, st))"

definition create_temp :: "file_system \<Rightarrow> file_system" where
  "create_temp st = st\<lparr>fs_temps := (fs_next st, \<lparr>sf_data = [], sf_mode = 384\<rparr>) # fs_temps st,
    fs_next := Suc (fs_next st)\<rparr>"

definition update_temp :: "nat \<Rightarrow> (stored_file \<Rightarrow> stored_file) \<Rightarrow> file_system \<Rightarrow> file_system" where
  "update_temp name f st =
    (case map_of (fs_temps st) name of
      None \<Rightarrow> st
    | Some file \<Rightarrow> st\<lparr>fs_temps := alist_set name (f file) (fs_temps st)\<rparr>)"

definition remove_temp :: "nat \<Rightarrow> file_system \<Rightarrow> file_system" where
  "remove_temp name st = st\<lparr>fs_temps := alist_del name (fs_temps st)\<rparr>"

definition rename_temp :: "nat \<Rightarrow> string \<Rightarrow> file_system \<Rightarrow> file_system" where
  "rename_temp name path st =
    (case map_of (fs_temps st) name of
      None \<Rightarrow> st
    | Some file \<Rightarrow> st\<lparr>fs_files := (fs_files st)(path \<mapsto> file),
        fs_temps := alist_del name (fs_temps st)\<rparr>)"

section \<open>Write\<close>

text \<open>The first loop: every target is read and compared before anything is written.\<close>

fun prepare ::
  "(nat \<Rightarrow> bool) \<Rightarrow> string list \<Rightarrow> (change \<times> nat) list \<Rightarrow> change list \<Rightarrow> file_system \<Rightarrow>
    (write_error + (change \<times> nat) list) \<times> file_system" where
  "prepare fault seen prepared [] st = (Inr prepared, st)"
| "prepare fault seen prepared (c # cs) st =
    (if ch_path c \<in> set seen then (Inl (Duplicate_target (ch_path c)), st)
     else if fault (fs_calls st) then (Inl (Call_failed ''read''), tick st)
     else (case fs_files st (ch_path c) of
       None \<Rightarrow> (Inl (Call_failed ''read''), tick st)
     | Some file \<Rightarrow>
         if sf_data file \<noteq> ch_before c then (Inl (Source_changed (ch_path c)), tick st)
         else if fault (fs_calls (tick st)) then (Inl (Call_failed ''stat''), tick (tick st))
         else prepare fault (ch_path c # seen) (prepared @ [(c, sf_mode file)]) cs (tick (tick st))))"

text \<open>The body of the second loop, up to \<open>ok = true\<close>, and the deferred removal when it is not reached.\<close>

definition write_temp :: "(nat \<Rightarrow> bool) \<Rightarrow> nat \<Rightarrow> change \<Rightarrow> nat \<Rightarrow> file_system \<Rightarrow>
    write_error option \<times> file_system" where
  "write_temp fault name c mode st =
    and_then (sys_call fault ''chmod'' (update_temp name (\<lambda>f. f\<lparr>sf_mode := mode\<rparr>)) st) (\<lambda>st.
    and_then (sys_call fault ''write'' (update_temp name (\<lambda>f. f\<lparr>sf_data := ch_after c\<rparr>)) st) (\<lambda>st.
    and_then (sys_call fault ''sync'' id st) (\<lambda>st.
    and_then (sys_call fault ''close'' id st) (\<lambda>st.
    sys_call fault ''rename'' (rename_temp name (ch_path c)) st))))"

definition write_one :: "(nat \<Rightarrow> bool) \<Rightarrow> change \<times> nat \<Rightarrow> file_system \<Rightarrow>
    write_error option \<times> file_system" where
  "write_one fault item st =
    and_then (sys_call fault ''create'' create_temp st) (\<lambda>st1.
      let name = fs_next st in
      case write_temp fault name (fst item) (snd item) st1 of
        (None, st2) \<Rightarrow> (None, st2)
      | (Some e, st2) \<Rightarrow> (Some e, snd (sys_call fault ''remove'' (remove_temp name) st2)))"

fun write_all :: "(nat \<Rightarrow> bool) \<Rightarrow> (change \<times> nat) list \<Rightarrow> file_system \<Rightarrow>
    write_error option \<times> file_system" where
  "write_all fault [] st = (None, st)"
| "write_all fault (item # items) st =
    and_then (write_one fault item st) (write_all fault items)"

definition Write :: "(nat \<Rightarrow> bool) \<Rightarrow> change list \<Rightarrow> file_system \<Rightarrow>
    write_error option \<times> file_system" where
  "Write fault plan st =
    (case prepare fault [] [] plan st of
      (Inl e, st1) \<Rightarrow> (Some e, st1)
    | (Inr items, st1) \<Rightarrow> write_all fault items st1)"

section \<open>What Write leaves behind\<close>

definition same_disk :: "file_system \<Rightarrow> file_system \<Rightarrow> bool" where
  "same_disk a b = (fs_files a = fs_files b \<and> fs_temps a = fs_temps b \<and> fs_next a = fs_next b)"

lemma same_disk_refl [simp]: "same_disk st st"
  by (simp add: same_disk_def)

lemma same_disk_tick [simp]: "same_disk (tick a) b = same_disk a b"
  by (simp add: same_disk_def tick_def)

text \<open>A plan fits the files when its paths are distinct and every file still holds the old text.\<close>

definition fits :: "change list \<Rightarrow> (string \<rightharpoonup> stored_file) \<Rightarrow> bool" where
  "fits plan files = (distinct (map ch_path plan) \<and>
    (\<forall>c\<in>set plan. \<exists>file. files (ch_path c) = Some file \<and> sf_data file = ch_before c))"

definition replaced :: "change list \<Rightarrow> (string \<rightharpoonup> stored_file) \<Rightarrow> (string \<rightharpoonup> stored_file)" where
  "replaced plan files = (\<lambda>p.
    (case List.find (\<lambda>c. ch_path c = p) plan of
      None \<Rightarrow> files p
    | Some c \<Rightarrow> map_option (\<lambda>file. file\<lparr>sf_data := ch_after c\<rparr>) (files p)))"

definition mode_of :: "(string \<rightharpoonup> stored_file) \<Rightarrow> change \<Rightarrow> nat" where
  "mode_of files c = (case files (ch_path c) of None \<Rightarrow> 0 | Some file \<Rightarrow> sf_mode file)"

lemma prepare_same_disk: "prepare fault seen items cs st = (r, st') \<Longrightarrow> same_disk st' st"
proof (induction fault seen items cs st arbitrary: r st' rule: prepare.induct)
  case (2 fault seen prepared c cs st)
  have "same_disk (tick (tick st)) st" by simp
  with 2 show ?case by (fastforce split: if_splits option.splits simp: same_disk_def tick_def)
qed simp

lemma prepare_Inr:
  assumes "prepare fault seen items cs st = (Inr out, st')"
  shows "out = items @ map (\<lambda>c. (c, mode_of (fs_files st) c)) cs \<and> fits cs (fs_files st) \<and>
    set (map ch_path cs) \<inter> set seen = {}"
  using assms
proof (induction fault seen items cs st rule: prepare.induct)
  case (2 fault seen prepared c cs st)
  then show ?case
    by (fastforce simp: tick_def fits_def mode_of_def split: if_splits option.splits)
qed (simp add: fits_def)

lemma prepare_no_faults:
  assumes "fits cs (fs_files st)" and "set (map ch_path cs) \<inter> set seen = {}" and "\<And>n. \<not> fault n"
  shows "\<exists>out st'. prepare fault seen items cs st = (Inr out, st')"
  using assms
proof (induction fault seen items cs st rule: prepare.induct)
  case (2 fault seen prepared c cs st)
  from 2(2) obtain f where "fs_files st (ch_path c) = Some f" "sf_data f = ch_before c"
    by (auto simp: fits_def)
  with 2 show ?case by (auto simp: fits_def tick_def)
qed simp

text \<open>The temporary files whose name is not yet taken.\<close>

definition fresh_names :: "file_system \<Rightarrow> bool" where
  "fresh_names st = (\<forall>(n, f)\<in>set (fs_temps st). n < fs_next st)"

lemma alist_del_absent [simp]: "k \<notin> fst ` set m \<Longrightarrow> alist_del k m = m"
  by (induction m) auto

lemma fresh_absent: "fresh_names st \<Longrightarrow> fs_next st \<notin> fst ` set (fs_temps st)"
  by (auto simp: fresh_names_def)

lemma fresh_names_Suc:
  "fresh_names st \<Longrightarrow> (n, f) \<in> set (fs_temps st) \<Longrightarrow> n < Suc (fs_next st)"
  by (auto simp: fresh_names_def)

lemma write_one_None:
  assumes "write_one fault (c, mode) st = (None, st')" and "fresh_names st"
  shows "fs_files st' = (fs_files st)(ch_path c \<mapsto> \<lparr>sf_data = ch_after c, sf_mode = mode\<rparr>) \<and>
    fs_temps st' = fs_temps st \<and> fresh_names st'"
  using assms fresh_absent [OF assms(2)] fresh_names_Suc [OF assms(2)]
  by (auto simp: write_one_def write_temp_def and_then_def sys_call_def tick_def create_temp_def
      update_temp_def rename_temp_def fresh_names_def Let_def split: if_splits)

lemma write_one_Some:
  assumes "write_one fault (c, mode) st = (Some e, st')" and "fresh_names st"
  shows "fs_files st' = fs_files st \<and> (fs_temps st' = fs_temps st \<or> fault (fs_calls st' - 1))"
  using assms fresh_absent [OF assms(2)]
  by (auto simp: write_one_def write_temp_def and_then_def sys_call_def tick_def create_temp_def
      update_temp_def rename_temp_def remove_temp_def Let_def split: if_splits)

lemma write_one_no_faults:
  assumes "\<And>n. \<not> fault n"
  shows "\<exists>st'. write_one fault item st = (None, st')"
  using assms by (simp add: write_one_def write_temp_def and_then_def sys_call_def Let_def)

definition install ::
  "(change \<Rightarrow> nat) \<Rightarrow> (string \<rightharpoonup> stored_file) \<Rightarrow> change \<Rightarrow> (string \<rightharpoonup> stored_file)" where
  "install m files c = files(ch_path c \<mapsto> \<lparr>sf_data = ch_after c, sf_mode = m c\<rparr>)"

lemma write_all_prefix:
  assumes "write_all fault (map (\<lambda>c. (c, m c)) cs) st = (r, st')" and "fresh_names st"
  shows "\<exists>k. fs_files st' = foldl (install m)
        (fs_files st) (take k cs) \<and>
      (case r of None \<Rightarrow> k = length cs \<and> fs_temps st' = fs_temps st
        | Some e \<Rightarrow> k < length cs \<and> (fs_temps st' = fs_temps st \<or> fault (fs_calls st' - 1)))"
  using assms
proof (induction cs arbitrary: st)
  case Nil
  then show ?case by simp
next
  case (Cons c cs)
  obtain r1 st1 where one: "write_one fault (c, m c) st = (r1, st1)"
    by (cases "write_one fault (c, m c) st")
  show ?case
  proof (cases r1)
    case None
    with one have st1: "fs_files st1 = install m (fs_files st) c"
      "fs_temps st1 = fs_temps st" "fresh_names st1"
      using write_one_None [OF _ Cons.prems(2)] unfolding install_def by blast+
    have "write_all fault (map (\<lambda>c. (c, m c)) cs) st1 = (r, st')"
      using Cons.prems(1) one None by (simp add: and_then_def)
    from Cons.IH [OF this st1(3)] obtain k where
      k: "fs_files st' = foldl (install m)
          (fs_files st1) (take k cs)"
        "case r of None \<Rightarrow> k = length cs \<and> fs_temps st' = fs_temps st1
          | Some e \<Rightarrow> k < length cs \<and> (fs_temps st' = fs_temps st1 \<or> fault (fs_calls st' - 1))"
      by blast
    then show ?thesis
      by (intro exI [of _ "Suc k"]) (auto simp: st1 split: option.splits)
  next
    case (Some e)
    with Cons.prems(1) one have "r = Some e" "st' = st1" by (simp_all add: and_then_def)
    with write_one_Some [of fault c "m c" st e st1] one Some Cons.prems(2) show ?thesis
      by (intro exI [of _ 0]) auto
  qed
qed

lemma foldl_writes:
  assumes "distinct (map ch_path cs)"
  shows "foldl (install m) files cs p =
    (case List.find (\<lambda>c. ch_path c = p) cs of
      None \<Rightarrow> files p | Some c \<Rightarrow> Some \<lparr>sf_data = ch_after c, sf_mode = m c\<rparr>)"
  using assms
proof (induction cs arbitrary: files)
  case (Cons c cs)
  from Cons.prems have "List.find (\<lambda>d. ch_path d = ch_path c) cs = None"
    by (simp add: find_None_iff) (metis image_eqI)
  with Cons show ?case by (auto simp: install_def)
qed simp

lemma foldl_writes_replaced:
  assumes "fits cs files"
  shows "foldl (install (mode_of files)) files
    (take k cs) = replaced (take k cs) files"
proof
  fix p
  have dist: "distinct (map ch_path (take k cs))"
    using assms by (metis distinct_take fits_def take_map)
  show "foldl (install (mode_of files)) files (take k cs) p = replaced (take k cs) files p"
  proof (cases "List.find (\<lambda>c. ch_path c = p) (take k cs)")
    case None
    then show ?thesis unfolding foldl_writes [OF dist] replaced_def by simp
  next
    case (Some c)
    then have "c \<in> set (take k cs)" and p: "ch_path c = p"
      by (auto simp: find_Some_iff simp del: nth_take intro!: nth_mem)
    with assms obtain f where "files p = Some f" unfolding fits_def by (blast dest: in_set_takeD)
    with Some p show ?thesis
      unfolding foldl_writes [OF dist] replaced_def by (simp add: mode_of_def)
  qed
qed

lemma write_all_no_faults:
  assumes "\<And>n. \<not> fault n"
  shows "\<exists>st'. write_all fault items st = (None, st')"
proof (induction items arbitrary: st)
  case (Cons item items)
  obtain st1 where "write_one fault item st = (None, st1)"
    using write_one_no_faults [of fault item st] assms by blast
  with Cons show ?case by (simp add: and_then_def)
qed simp

lemma fresh_names_same_disk: "same_disk a b \<Longrightarrow> fresh_names a = fresh_names b"
  by (simp add: same_disk_def fresh_names_def)



text \<open>
  When no system call fails and the plan fits the files, Write succeeds.
\<close>

lemma Write_succeeds:
  "fits plan (fs_files st) \<Longrightarrow> fst (Write (\<lambda>n. False) plan st) = None"
proof -
  assume "fits plan (fs_files st)"
  with prepare_no_faults [of plan st "[]" "\<lambda>n. False" "[]"] obtain items st1 where
    "prepare (\<lambda>n. False) [] [] plan st = (Inr items, st1)" by auto
  moreover from write_all_no_faults [of "\<lambda>n. False"] obtain st2 where
    "write_all (\<lambda>n. False) items st1 = (None, st2)" by blast
  ultimately show ?thesis by (simp add: Write_def)
qed

lemma Write_succeeds_witness:
  "fst (Write (\<lambda>n. False) [\<lparr>ch_path = ''a'', ch_before = ''x'', ch_after = ''y''\<rparr>]
    \<lparr>fs_files = [''a'' \<mapsto> \<lparr>sf_data = ''x'', sf_mode = 420\<rparr>], fs_temps = [], fs_next = 0,
      fs_calls = 0\<rparr>) = None"
  by (rule Write_succeeds) (simp add: fits_def)

section \<open>Diff\<close>

record diff_line =
  dl_text :: string
  dl_terminated :: bool

definition fix_splitLines :: "string \<Rightarrow> diff_line list" where
  "fix_splitLines source =
    (if source = [] then []
     else map (\<lambda>part. \<lparr>dl_text = trim_suffix part [newline], dl_terminated = has_suffix part [newline]\<rparr>)
       (filter (\<lambda>part. part \<noteq> []) (split_after newline source)))"

definition no_newline :: string where
  "no_newline = CHR 0x5C # '' No newline at end of file''"

definition writeDiffLine :: "char \<Rightarrow> diff_line \<Rightarrow> string" where
  "writeDiffLine prefix line =
    prefix # dl_text line @ newline # (if dl_terminated line then [] else no_newline @ [newline])"

definition diffStart :: "diff_line list \<Rightarrow> nat" where
  "diffStart ls = (if ls = [] then 0 else 1)"

definition diff_header :: "change \<Rightarrow> string" where
  "diff_header c =
    (let before = fix_splitLines (ch_before c); after = fix_splitLines (ch_after c) in
      ''--- '' @ ch_path c @ [newline] @ ''+++ '' @ ch_path c @ [newline] @
      ''@@ -'' @ itoa (diffStart before) @ '','' @ itoa (length before) @
      '' +'' @ itoa (diffStart after) @ '','' @ itoa (length after) @ '' @@'' @ [newline])"

definition diff_body :: "change \<Rightarrow> string" where
  "diff_body c =
    concat (map (writeDiffLine (CHR ''-'')) (fix_splitLines (ch_before c))) @
    concat (map (writeDiffLine (CHR ''+'')) (fix_splitLines (ch_after c)))"

definition Diff :: "change list \<Rightarrow> string" where
  "Diff plan = concat (map (\<lambda>c. diff_header c @ diff_body c) plan)"

text \<open>
  The reader of a diff, as \<open>patch\<close> works: one side is the text of the lines with its prefix, with
  the line end unless the marker line follows.
\<close>

fun patch_side :: "char \<Rightarrow> string list \<Rightarrow> string" where
  "patch_side c [] = []"
| "patch_side c (l # ls) =
    (if l \<noteq> [] \<and> hd l = c
     then tl l @ (if ls \<noteq> [] \<and> hd ls = no_newline then [] else [newline]) @ patch_side c ls
     else patch_side c ls)"

definition line_source :: "diff_line \<Rightarrow> string" where
  "line_source l = dl_text l @ (if dl_terminated l then [newline] else [])"

lemma split_char_segment: "d \<notin> set w \<Longrightarrow> split_char d (w @ d # s) = w # split_char d s"
  by (induction w) auto

lemma split_after_butlast: "w \<in> set (split_after d s) \<Longrightarrow> d \<notin> set (butlast w)"
  by (induction s arbitrary: w) (auto split: if_splits list.splits)

lemma fix_splitLines_no_newline: "l \<in> set (fix_splitLines s) \<Longrightarrow> newline \<notin> set (dl_text l)"
proof -
  assume "l \<in> set (fix_splitLines s)"
  then obtain part where part: "part \<in> set (split_after newline s)" "part \<noteq> []"
    "dl_text l = trim_suffix part [newline]"
    by (auto simp: fix_splitLines_def split: if_splits)
  obtain w c where "part = w @ [c]" using part(2) by (cases part rule: rev_cases) auto
  with split_after_butlast [OF part(1)] part(3) show ?thesis
    by (auto simp: trim_suffix_def has_suffix_def)
qed

lemma line_source_part:
  "line_source \<lparr>dl_text = trim_suffix p [newline], dl_terminated = has_suffix p [newline]\<rparr> = p"
  by (auto simp: line_source_def trim_suffix_def has_suffix_iff)

lemma concat_nonempty: "concat (filter (\<lambda>p. p \<noteq> []) ps) = concat ps"
  by (induction ps) auto

lemma fix_splitLines_source: "concat (map line_source (fix_splitLines s)) = s"
  by (simp add: fix_splitLines_def line_source_part o_def concat_nonempty concat_split_after)

lemma split_writeDiffLine:
  assumes "newline \<notin> set (dl_text l)" and "p \<noteq> newline"
  shows "split_char newline (writeDiffLine p l @ rest) =
    (p # dl_text l) # (if dl_terminated l then [] else [no_newline]) @ split_char newline rest"
proof -
  have "newline \<notin> set no_newline" by (simp add: no_newline_def)
  then have "split_char newline (no_newline @ newline # rest) = no_newline # split_char newline rest"
    by (rule split_char_segment)
  with split_char_segment [of newline "p # dl_text l"] assms show ?thesis
    by (auto simp: writeDiffLine_def)
qed

lemma hd_split_writeDiffLines:
  assumes "\<And>l. l \<in> set ls \<Longrightarrow> newline \<notin> set (dl_text l)" and "p \<noteq> newline" and "p \<noteq> CHR 0x5C"
    and "hd (split_char newline rest) \<noteq> no_newline"
  shows "hd (split_char newline (concat (map (writeDiffLine p) ls) @ rest)) \<noteq> no_newline"
proof (cases ls)
  case (Cons l ls')
  with assms show ?thesis by (simp add: split_writeDiffLine) (simp add: no_newline_def)
qed (use assms in simp)

lemma patch_side_lines:
  assumes "\<And>l. l \<in> set ls \<Longrightarrow> newline \<notin> set (dl_text l)" and "p \<noteq> newline" and "p \<noteq> CHR 0x5C"
    and "c \<noteq> CHR 0x5C" and "hd (split_char newline rest) \<noteq> no_newline"
  shows "patch_side c (split_char newline (concat (map (writeDiffLine p) ls) @ rest)) =
    (if p = c then concat (map line_source ls) else []) @ patch_side c (split_char newline rest)"
  using assms(1)
proof (induction ls)
  case (Cons l ls)
  let ?tail = "concat (map (writeDiffLine p) ls) @ rest"
  have "hd (split_char newline ?tail) \<noteq> no_newline"
    by (rule hd_split_writeDiffLines) (use Cons.prems assms in auto)
  with Cons assms show ?case
    by (auto simp: split_writeDiffLine line_source_def) (simp_all add: no_newline_def)
qed simp

text \<open>
  The diff of a change says what the change is: the side of the removed lines is exactly the
  text before, the side of the added lines exactly the text after, also where the last line has no
  line end.
\<close>

theorem Diff_readable:
  "Diff [c] = diff_header c @ diff_body c \<and>
    patch_side (CHR ''-'') (split_char newline (diff_body c)) = ch_before c \<and>
    patch_side (CHR ''+'') (split_char newline (diff_body c)) = ch_after c"
proof -
  let ?a = "concat (map (writeDiffLine (CHR ''+'')) (fix_splitLines (ch_after c)))"
  have no: "hd (split_char newline []) \<noteq> no_newline" by (simp add: no_newline_def)
  have "hd (split_char newline (?a @ [])) \<noteq> no_newline"
    by (rule hd_split_writeDiffLines) (use fix_splitLines_no_newline no in auto)
  then have side: "patch_side x (split_char newline (diff_body c)) =
      (if CHR ''-'' = x then ch_before c else []) @ patch_side x (split_char newline (?a @ []))"
    if "x \<noteq> CHR 0x5C" for x
    unfolding diff_body_def using that
    by (subst patch_side_lines)
      (use fix_splitLines_no_newline in \<open>auto simp: fix_splitLines_source\<close>)
  have added: "patch_side x (split_char newline (?a @ [])) = (if CHR ''+'' = x then ch_after c else [])"
    if "x \<noteq> CHR 0x5C" for x
    using that no
    by (subst patch_side_lines)
      (use fix_splitLines_no_newline in \<open>auto simp: fix_splitLines_source\<close>)
  show ?thesis
    using side [of "CHR 0x2D"] side [of "CHR 0x2B"] added [of "CHR 0x2D"] added [of "CHR 0x2B"]
    by (simp add: Diff_def)
qed

end
