(* ===== verification/Suppress.thy ===== *)
theory Suppress
  imports Diagnostic Go_Strings
begin

text \<open>
  Suppression comments (\<open>pkg/lint/suppress/parser.go\<close> and \<open>matcher.go\<close>).
  The trivia of the parser, a package outside
  the repository, comes in as a list of records.
\<close>

section \<open>Directives\<close>

datatype directive_kind = KindDisableNextLine | KindDisable | KindEnable

record directive =
  dr_file :: string
  dr_line :: int
  dr_offset :: int
  dr_end :: int
  dr_kind :: directive_kind
  dr_ids :: "string list"
  dr_all :: bool
  dr_reason :: string
  dr_malformed :: bool

definition MatchesRule :: "directive \<Rightarrow> string \<Rightarrow> bool" where
  "MatchesRule d ruleID = (if dr_all d then True else ruleID \<in> set (dr_ids d))"

text \<open>The position of a trivia token: what \<open>parseTrivia\<close> reads of it.\<close>

record trivia =
  tr_comment :: bool
  tr_start :: int
  tr_line :: int
  tr_end :: int

section \<open>Reading a comment\<close>

definition marker :: string where
  "marker = ''pawnlint-''"

definition stripCommentSyntax :: "string \<Rightarrow> string" where
  "stripCommentSyntax line =
    (let s = trim_space line;
         s = trim_prefix s ''//'';
         s = trim_prefix s ''/*'';
         s = trim_suffix s ''*/''
     in trim_space s)"

definition extract_line :: "string \<Rightarrow> (string \<times> string) option" where
  "extract_line line =
    (let body = stripCommentSyntax line in
      case index_of body marker of
        None \<Rightarrow> None
      | Some idx \<Rightarrow>
          (let rest = drop (idx + length marker) body;
               (action, ids) = (case index_of rest '' '' of
                   Some i \<Rightarrow> (take i rest, drop (i + 1) rest)
                 | None \<Rightarrow> (rest, []));
               action = trim_space action
           in if \<not> has_prefix action ''disable'' \<and> \<not> has_prefix action ''enable'' then None
              else Some (action, ids)))"

definition extractFromComment :: "string \<Rightarrow> (string \<times> string) list" where
  "extractFromComment comment = List.map_filter extract_line (split_char newline comment)"

text \<open>\<open>parseIDs\<close> returns the identifiers, whether \<open>all\<close> is among them, the reason, and whether the
  directive is malformed.\<close>

definition split_reason :: "string \<Rightarrow> string \<times> string" where
  "split_reason body =
    (if body = ''--'' then ([], [])
     else if has_prefix body ''-- '' then ([], trim_space (drop 3 body))
     else (case index_of body '' -- '' of
         Some i \<Rightarrow> (trim_space (take i body), trim_space (drop (i + 4) body))
       | None \<Rightarrow> (body, [])))"

fun parse_id_list :: "string list \<Rightarrow> string list \<times> bool" where
  "parse_id_list [] = ([], False)"
| "parse_id_list (part # rest) =
    (let part = trim_space part; (ids, all) = parse_id_list rest in
      if part = [] then (ids, all)
      else if part = ''all'' then (ids, True)
      else (part # ids, all))"

definition parseIDs :: "string \<Rightarrow> string list \<times> bool \<times> string \<times> bool" where
  "parseIDs rest =
    (let body = trim_space rest in
      if body = [] then ([], False, [], True)
      else
        (let (body, reason) = split_reason body in
          if body = [] then ([], False, reason, True)
          else
            (let (ids, all) = parse_id_list (split_char (CHR '','') body) in
              if \<not> all \<and> ids = [] then ([], False, reason, True)
              else (ids, all, reason, False))))"

definition buildDirective ::
  "string \<Rightarrow> int \<Rightarrow> int \<Rightarrow> int \<Rightarrow> string \<times> string \<Rightarrow> directive option" where
  "buildDirective path line startOff endOff m =
    (let kind =
        (if fst m = ''disable-next-line'' then Some KindDisableNextLine
         else if fst m = ''disable'' then Some KindDisable
         else if fst m = ''enable'' then Some KindEnable
         else None) in
      case kind of
        None \<Rightarrow> None
      | Some k \<Rightarrow>
          (let (ids, all, reason, malformed) = parseIDs (snd m) in
            Some \<lparr>dr_file = path, dr_line = line, dr_offset = startOff, dr_end = endOff,
              dr_kind = k, dr_ids = ids, dr_all = all, dr_reason = reason,
              dr_malformed = malformed\<rparr>))"

definition parseTrivia :: "string \<Rightarrow> string \<Rightarrow> trivia \<Rightarrow> directive list" where
  "parseTrivia path src tr =
    (if \<not> tr_comment tr then []
     else if tr_start tr < 0 \<or> tr_start tr \<ge> int (length src) then []
     else
       (let stop = (if tr_end tr > int (length src) then int (length src) else tr_end tr);
            raw = slice src (tr_start tr) stop
        in List.map_filter (buildDirective path (tr_line tr) (tr_start tr) stop)
             (extractFromComment raw)))"

definition directive_less :: "directive \<Rightarrow> directive \<Rightarrow> bool" where
  "directive_less a b =
    (if dr_line a \<noteq> dr_line b then dr_line a < dr_line b else dr_offset a < dr_offset b)"

definition SortDirectives :: "directive list \<Rightarrow> directive list" where
  "SortDirectives ds = stable_sort directive_less ds"

text \<open>\<open>FromFile\<close>: the trivia of all tokens, then of the root, each comment once.\<close>

fun visit_trivia ::
  "string \<Rightarrow> string \<Rightarrow> trivia list \<Rightarrow> int list \<times> directive list \<Rightarrow> int list \<times> directive list" where
  "visit_trivia path src [] st = st"
| "visit_trivia path src (tr # trs) (seen, out) =
    (if \<not> tr_comment tr \<or> tr_start tr \<in> set seen then visit_trivia path src trs (seen, out)
     else visit_trivia path src trs (tr_start tr # seen, out @ parseTrivia path src tr))"

definition FromFile ::
  "string \<Rightarrow> string \<Rightarrow> (trivia list \<times> trivia list) list \<Rightarrow> (trivia list \<times> trivia list) option \<Rightarrow>
    directive list" where
  "FromFile path src tokens root =
    (let st = foldl (\<lambda>st (lead, trail). visit_trivia path src trail (visit_trivia path src lead st))
        ([], []) tokens in
      case root of
        None \<Rightarrow> SortDirectives (snd st)
      | Some (lead, trail) \<Rightarrow>
          SortDirectives (snd (visit_trivia path src trail (visit_trivia path src lead st))))"

definition FromCompact :: "string \<Rightarrow> string \<Rightarrow> trivia list \<Rightarrow> directive list" where
  "FromCompact path src trs =
    SortDirectives (concat (map (\<lambda>tr. if \<not> tr_comment tr then [] else parseTrivia path src tr) trs))"

interpretation directive_less: go_less directive_less
  by unfold_locales (auto simp: directive_less_def split: if_splits)

lemma sorted_SortDirectives:
  "sorted_wrt (\<lambda>a b. dr_line a \<le> dr_line b) (SortDirectives ds)"
proof -
  have "sorted_wrt (\<lambda>a b. \<not> directive_less b a) (SortDirectives ds)"
    unfolding SortDirectives_def by (rule directive_less.sorted_stable_sort)
  then show ?thesis
    by (rule sorted_wrt_mono_rel [rotated]) (auto simp: directive_less_def split: if_splits)
qed

section \<open>Matching a finding\<close>

text \<open>The loop over the next-line directives: the index of the first that covers the finding.\<close>

fun find_next_line :: "directive list \<Rightarrow> nat \<Rightarrow> string \<Rightarrow> int \<Rightarrow> nat option" where
  "find_next_line [] i ruleID diagLine = None"
| "find_next_line (d # ds) i ruleID diagLine =
    (if dr_kind d \<noteq> KindDisableNextLine then find_next_line ds (Suc i) ruleID diagLine
     else if \<not> MatchesRule d ruleID then find_next_line ds (Suc i) ruleID diagLine
     else if dr_line d + 1 = diagLine then Some i
     else find_next_line ds (Suc i) ruleID diagLine)"

definition pop :: "'a list \<Rightarrow> 'a list" where
  "pop stack = (if stack \<noteq> [] then butlast stack else stack)"

definition push_id :: "nat \<Rightarrow> (string \<Rightarrow> nat list) \<Rightarrow> string \<Rightarrow> (string \<Rightarrow> nat list)" where
  "push_id i activeIDs key = activeIDs(key := activeIDs key @ [i])"

definition pop_id :: "(string \<Rightarrow> nat list) \<Rightarrow> string \<Rightarrow> (string \<Rightarrow> nat list)" where
  "pop_id activeIDs key = activeIDs(key := pop (activeIDs key))"

text \<open>The loop of \<open>blockSuppresses\<close>; a key that is absent from the Go map is the empty stack.\<close>

fun block_loop ::
  "directive list \<Rightarrow> nat \<Rightarrow> int \<Rightarrow> nat list \<Rightarrow> (string \<Rightarrow> nat list) \<Rightarrow>
    nat list \<times> (string \<Rightarrow> nat list)" where
  "block_loop [] i diagLine activeAll activeIDs = (activeAll, activeIDs)"
| "block_loop (d # ds) i diagLine activeAll activeIDs =
    (if dr_line d > diagLine then (activeAll, activeIDs)
     else (case dr_kind d of
         KindDisable \<Rightarrow> block_loop ds (Suc i) diagLine
           (if dr_all d then activeAll @ [i] else activeAll)
           (foldl (push_id i) activeIDs (dr_ids d))
       | KindEnable \<Rightarrow> block_loop ds (Suc i) diagLine
           (if dr_all d \<and> length activeAll > 0 then butlast activeAll else activeAll)
           (foldl pop_id activeIDs (dr_ids d))
       | KindDisableNextLine \<Rightarrow> block_loop ds (Suc i) diagLine activeAll activeIDs))"

definition mark :: "bool list \<Rightarrow> nat list \<Rightarrow> bool list" where
  "mark used is = foldl (\<lambda>u i. u[i := True]) used is"

definition blockSuppresses ::
  "directive list \<Rightarrow> bool list option \<Rightarrow> string \<Rightarrow> int \<Rightarrow> bool \<times> bool list option" where
  "blockSuppresses ds used ruleID diagLine =
    (let (activeAll, activeIDs) = block_loop ds 0 diagLine [] (\<lambda>_. []);
         active = activeIDs ruleID
     in if activeAll = [] \<and> active = [] then (False, used)
        else (True, map_option (\<lambda>u. mark (mark u activeAll) active) used))"

definition IsSuppressed ::
  "directive list \<Rightarrow> bool list option \<Rightarrow> string \<Rightarrow> int \<Rightarrow> bool \<times> bool list option" where
  "IsSuppressed ds used ruleID diagLine =
    (case find_next_line ds 0 ruleID diagLine of
      Some i \<Rightarrow> (True, map_option (\<lambda>u. u[i := True]) used)
    | None \<Rightarrow> blockSuppresses ds used ruleID diagLine)"

section \<open>What a stack of directives means\<close>

text \<open>
  Of one rule, or of \<open>all\<close>, a directive opens some blocks (a disable), closes some (an enable) or
  neither. \<open>unmatched es\<close> is the number of blocks open before \<open>es\<close> that the enables in \<open>es\<close>
  close, after the disables in \<open>es\<close> are matched with them.
\<close>

datatype block_event = Opens nat | Closes nat

fun unmatched :: "block_event list \<Rightarrow> nat" where
  "unmatched [] = 0"
| "unmatched (Opens c # es) = unmatched es - c"
| "unmatched (Closes c # es) = c + unmatched es"

definition id_event :: "string \<Rightarrow> directive \<Rightarrow> block_event" where
  "id_event ruleID d =
    (case dr_kind d of
      KindDisable \<Rightarrow> Opens (count_list (dr_ids d) ruleID)
    | KindEnable \<Rightarrow> Closes (count_list (dr_ids d) ruleID)
    | KindDisableNextLine \<Rightarrow> Opens 0)"

definition all_event :: "directive \<Rightarrow> block_event" where
  "all_event d =
    (case dr_kind d of
      KindDisable \<Rightarrow> Opens (if dr_all d then 1 else 0)
    | KindEnable \<Rightarrow> Closes (if dr_all d then 1 else 0)
    | KindDisableNextLine \<Rightarrow> Opens 0)"

text \<open>Block \<open>i\<close> is open at the end when it opens more blocks than the later directives close.\<close>

definition open_blocks :: "block_event list \<Rightarrow> nat set" where
  "open_blocks es = {i. i < length es \<and>
    (case es ! i of Opens c \<Rightarrow> c > unmatched (drop (Suc i) es) | Closes c \<Rightarrow> False)}"

text \<open>The stack machine: the events from the left, the indices of the open blocks as the stack.\<close>

fun run_events :: "nat \<Rightarrow> nat list \<Rightarrow> block_event list \<Rightarrow> nat list" where
  "run_events i stack [] = stack"
| "run_events i stack (Opens c # es) = run_events (Suc i) (stack @ replicate c i) es"
| "run_events i stack (Closes c # es) = run_events (Suc i) (take (length stack - c) stack) es"

lemma run_events_split:
  "run_events i stack es = take (length stack - unmatched es) stack @ run_events i [] es"
proof (induction es arbitrary: i stack)
  case Nil
  then show ?case by simp
next
  case (Cons e es)
  show ?case
  proof (cases e)
    case (Opens c)
    have "run_events i stack (e # es) =
        take (length stack + c - unmatched es) (stack @ replicate c i) @ run_events (Suc i) [] es"
      using Cons.IH [of "Suc i" "stack @ replicate c i"] by (simp add: Opens)
    also have "\<dots> = take (length stack - (unmatched es - c)) stack @
        take (c - unmatched es) (replicate c i) @ run_events (Suc i) [] es"
      by (cases "c \<le> unmatched es") auto
    also have "take (c - unmatched es) (replicate c i) @ run_events (Suc i) [] es =
        run_events (Suc i) (replicate c i) es"
      using Cons.IH [of "Suc i" "replicate c i"] by simp
    finally show ?thesis by (simp add: Opens)
  next
    case (Closes c)
    have "run_events i stack (e # es) = take (length stack - c - unmatched es)
        (take (length stack - c) stack) @ run_events (Suc i) [] es"
      using Cons.IH [of "Suc i" "take (length stack - c) stack"]
      by (simp add: Closes)
    then show ?thesis by (cases "c = 0 \<or> stack = []") (auto simp: Closes min_def)
  qed
qed

lemma open_blocks_Cons:
  "open_blocks (e # es) =
    (case e of Opens c \<Rightarrow> if c > unmatched es then {0} else {} | Closes c \<Rightarrow> {}) \<union> Suc ` open_blocks es"
proof -
  have "i \<in> open_blocks (e # es) \<longleftrightarrow> i \<in> (case e of Opens c \<Rightarrow> if c > unmatched es then {0} else {}
      | Closes c \<Rightarrow> {}) \<union> Suc ` open_blocks es" for i
    by (cases i) (auto simp: open_blocks_def split: block_event.splits)
  then show ?thesis by blast
qed

lemma set_run_events: "set (run_events i [] es) = (+) i ` open_blocks es"
proof (induction es arbitrary: i)
  case Nil
  then show ?case by (simp add: open_blocks_def)
next
  case (Cons e es)
  have shift: "(+) i ` open_blocks (e # es) =
      (case e of Opens c \<Rightarrow> if c > unmatched es then {i} else {} | Closes c \<Rightarrow> {}) \<union>
      (+) (Suc i) ` open_blocks es"
    by (simp add: open_blocks_Cons image_Un image_image split: block_event.split)
  show ?case
  proof (cases e)
    case (Opens c)
    have "set (run_events i [] (e # es)) =
        set (take (c - unmatched es) (replicate c i)) \<union> (+) (Suc i) ` open_blocks es"
      using run_events_split [of "Suc i" "replicate c i" es] Cons.IH [of "Suc i"]
      by (simp add: Opens)
    then show ?thesis unfolding shift by (auto simp: Opens)
  next
    case (Closes c)
    then show ?thesis unfolding shift by (simp add: Cons.IH)
  qed
qed

lemma pop_take: "pop xs = take (length xs - 1) xs"
  by (simp add: pop_def butlast_conv_take)

lemma foldl_push_id: "foldl (push_id i) m ids r = m r @ replicate (count_list ids r) i"
  by (induction ids arbitrary: m) (auto simp: push_id_def replicate_append_same)

lemma foldl_pop_id: "foldl pop_id m ids r = take (length (m r) - count_list ids r) (m r)"
  by (induction ids arbitrary: m) (auto simp: pop_id_def pop_take min_def)

text \<open>The loop of the matcher is the stack machine over the directives up to the finding's line.\<close>

lemma block_loop_events:
  "block_loop ds i l al m =
    (let ds' = takeWhile (\<lambda>d. dr_line d \<le> l) ds in
      (run_events i al (map all_event ds'), \<lambda>r. run_events i (m r) (map (id_event r) ds')))"
proof (induction ds arbitrary: i al m)
  case Nil
  then show ?case by simp
next
  case (Cons d ds)
  show ?case
    by (cases "dr_kind d")
      (auto simp: Cons.IH Let_def id_event_def all_event_def foldl_push_id foldl_pop_id
        butlast_conv_take fun_eq_iff)
qed

lemma length_mark [simp]: "length (mark u is) = length u"
  unfolding mark_def by (induction "is" arbitrary: u) auto

lemma nth_mark: "i < length u \<Longrightarrow> mark u is ! i = (u ! i \<or> i \<in> set is)"
proof (induction "is" arbitrary: u)
  case (Cons j js)
  have "mark u (j # js) = mark (u[j := True]) js" by (simp add: mark_def)
  with Cons show ?case by (cases "i = j") auto
qed (simp add: mark_def)

lemma find_next_line_Some:
  "find_next_line ds k r l = Some i \<Longrightarrow> k \<le> i \<and> i < k + length ds \<and>
    dr_kind (ds ! (i - k)) = KindDisableNextLine \<and> MatchesRule (ds ! (i - k)) r \<and>
    dr_line (ds ! (i - k)) + 1 = l"
  by (induction ds k r l rule: find_next_line.induct)
    (fastforce split: if_splits simp: nth_Cons')+

lemma find_next_line_None:
  "find_next_line ds k r l = None \<longleftrightarrow>
    (\<forall>d\<in>set ds. \<not> (dr_kind d = KindDisableNextLine \<and> MatchesRule d r \<and> dr_line d + 1 = l))"
  by (induction ds k r l rule: find_next_line.induct) auto

definition active_blocks :: "directive list \<Rightarrow> string \<Rightarrow> int \<Rightarrow> nat set" where
  "active_blocks ds ruleID l =
    (let before = takeWhile (\<lambda>d. dr_line d \<le> l) ds in
      open_blocks (map all_event before) \<union> open_blocks (map (id_event ruleID) before))"

lemma blockSuppresses_spec:
  assumes "length used = length ds"
  shows "blockSuppresses ds (Some used) r l =
    (active_blocks ds r l \<noteq> {},
     Some (map (\<lambda>i. used ! i \<or> i \<in> active_blocks ds r l) [0..<length ds]))"
proof -
  let ?ds = "takeWhile (\<lambda>d. dr_line d \<le> l) ds"
  let ?all = "run_events 0 [] (map all_event ?ds)"
  let ?ids = "run_events 0 [] (map (id_event r) ?ds)"
  have sets: "set ?all \<union> set ?ids = active_blocks ds r l"
    by (simp add: set_run_events active_blocks_def Let_def)
  have marks: "mark (mark used ?all) ?ids =
      map (\<lambda>i. used ! i \<or> i \<in> active_blocks ds r l) [0..<length ds]"
    by (rule nth_equalityI) (use assms sets in \<open>auto simp: nth_mark\<close>)
  show ?thesis
  proof (cases "?all = [] \<and> ?ids = []")
    case True
    with sets have none: "active_blocks ds r l = {}" by auto
    have "map ((!) used) [0..<length ds] = used" using assms by (metis map_nth)
    with True none show ?thesis
      by (simp add: blockSuppresses_def block_loop_events Let_def)
  next
    case False
    with sets have "active_blocks ds r l \<noteq> {}" by (metis Un_empty set_empty)
    with False marks show ?thesis
      by (auto simp: blockSuppresses_def block_loop_events Let_def)
  qed
qed

text \<open>
  C1: a finding is suppressed exactly when a next-line directive for its rule stands on the line
  above, or some disable of its rule or of all rules at or before its line is still open there:
  later enables close the most recently opened blocks first. Without a next-line directive, the
  directives marked as used are those marked before and precisely the disables open at the finding;
  with one, one more directive is marked and it is such a next-line directive.
\<close>

theorem IsSuppressed_correct:
  assumes "length used = length ds"
  shows "(let next = {i. i < length ds \<and> dr_kind (ds ! i) = KindDisableNextLine \<and>
        MatchesRule (ds ! i) ruleID \<and> dr_line (ds ! i) + 1 = l};
      open = active_blocks ds ruleID l;
      (result, used') = IsSuppressed ds (Some used) ruleID l in
    result = (next \<noteq> {} \<or> open \<noteq> {}) \<and>
    (next = {} \<longrightarrow> used' = Some (map (\<lambda>i. used ! i \<or> i \<in> open) [0..<length ds])) \<and>
    (next \<noteq> {} \<longrightarrow> (\<exists>i\<in>next. used' = Some (used[i := True]))))"
proof (cases "find_next_line ds 0 ruleID l")
  case None
  then have "{i. i < length ds \<and> dr_kind (ds ! i) = KindDisableNextLine \<and>
        MatchesRule (ds ! i) ruleID \<and> dr_line (ds ! i) + 1 = l} = {}"
    unfolding find_next_line_None by (auto simp: all_set_conv_all_nth)
  with None assms show ?thesis
    by (simp add: IsSuppressed_def blockSuppresses_spec Let_def)
next
  case (Some i)
  with find_next_line_Some [OF Some] show ?thesis
    by (auto simp: IsSuppressed_def Let_def)
qed

theorem IsSuppressed_correct_witness:
  "\<exists>used'. IsSuppressed
    [\<lparr>dr_file = ''a'', dr_line = 3, dr_offset = 9, dr_end = 20, dr_kind = KindDisable,
       dr_ids = [''r''], dr_all = False, dr_reason = [], dr_malformed = False\<rparr>]
    (Some [False]) ''r'' 5 = (True, used')"
proof -
  let ?ds = "[\<lparr>dr_file = ''a'', dr_line = 3, dr_offset = 9, dr_end = 20, dr_kind = KindDisable,
       dr_ids = [''r''], dr_all = False, dr_reason = [], dr_malformed = False\<rparr>]"
  have "active_blocks ?ds ''r'' 5 \<noteq> {}"
    by (simp add: active_blocks_def open_blocks_Cons id_event_def all_event_def)
  with IsSuppressed_correct [of "[False]" ?ds "''r''" 5] show ?thesis
    by (cases "IsSuppressed ?ds (Some [False]) ''r'' 5") (simp add: Let_def)
qed


end
