(* ===== verification/Suppress_Rule.thy ===== *)
theory Suppress_Rule
  imports Suppress
begin

text \<open>
  The checks of suppression comments: the rule \<open>unknown-suppression\<close>
  (\<open>pkg/rules/correctness/unknown_suppression.go\<close>), unused directives
  (\<open>pkg/lint/suppression.go\<close>), renamed rule identifiers (\<open>pkg/lint/aliases.go\<close>), and the round trip
  of the comment syntax.
\<close>

section \<open>The unknown-suppression rule\<close>

text \<open>A finding as a rule reports it: the fields it does not set have Go's zero values.\<close>

definition finding :: "string \<Rightarrow> string \<Rightarrow> string \<Rightarrow> range \<Rightarrow> diagnostic" where
  "finding ruleID message filename r =
    \<lparr>d_ruleID = ruleID, d_code = [], d_severity = SeverityOff, d_category = CategoryCorrectness,
     d_message = message, d_filename = filename, d_range = r, d_notes = [], d_suggestions = [],
     d_fix = None\<rparr>"

definition quote_id :: "string \<Rightarrow> string" where
  "quote_id s = CHR 0x22 # replace_char (CHR 0x22) [CHR 0x5C, CHR 0x22] s @ [CHR 0x22]"

definition malformed_message :: string where
  "malformed_message = ''malformed suppression: no rule id given''"

definition unknown_message :: "string \<Rightarrow> string" where
  "unknown_message ident = ''unknown suppression rule '' @ quote_id ident"

definition unmatched_all_message :: string where
  "unmatched_all_message =
    ''unmatched '' @ [CHR 0x60] @ ''pawnlint-enable'' @ [CHR 0x60] @ '' for '' @
      [CHR 0x22] @ ''all'' @ [CHR 0x22]"

definition unmatched_message :: "string \<Rightarrow> string" where
  "unmatched_message ident =
    ''unmatched '' @ [CHR 0x60] @ ''pawnlint-enable'' @ [CHR 0x60] @ '' for '' @ quote_id ident"

text \<open>The loop over the identifiers of an enable.\<close>

fun enable_ids :: "(string \<Rightarrow> int) \<Rightarrow> string list \<Rightarrow> string list \<times> (string \<Rightarrow> int)" where
  "enable_ids disableStack [] = ([], disableStack)"
| "enable_ids disableStack (i # is) =
    (if disableStack i \<le> 0
     then (let (msgs, disableStack) = enable_ids disableStack is in
       (unmatched_message i # msgs, disableStack))
     else enable_ids (disableStack(i := disableStack i - 1)) is)"

text \<open>One directive: the messages, in order, and the two counters after it.\<close>

definition unknown_step ::
  "(string \<Rightarrow> bool) \<Rightarrow> directive \<Rightarrow> int \<times> (string \<Rightarrow> int) \<Rightarrow> string list \<times> int \<times> (string \<Rightarrow> int)" where
  "unknown_step known d st =
    (let (allDepth, disableStack) = st in
      if dr_kind d = KindEnable then
        (let (msgs, allDepth) =
            (if dr_all d then
               (if allDepth \<le> 0 then ([unmatched_all_message], allDepth) else ([], allDepth - 1))
             else ([], allDepth));
             (msgs', disableStack) = enable_ids disableStack (dr_ids d)
         in (msgs @ msgs', allDepth, disableStack))
      else
        (let msgs =
            (if dr_malformed d then [malformed_message] else []) @
            (if \<not> dr_all d then map unknown_message (filter (\<lambda>i. \<not> known i) (dr_ids d)) else [])
         in if dr_kind d = KindDisable
            then (msgs, (if dr_all d then allDepth + 1 else allDepth),
              foldl (\<lambda>m i. m(i := m i + 1)) disableStack (dr_ids d))
            else (msgs, allDepth, disableStack)))"

fun unknown_loop ::
  "(string \<Rightarrow> bool) \<Rightarrow> string \<Rightarrow> line_table \<Rightarrow> int \<times> (string \<Rightarrow> int) \<Rightarrow> directive list \<Rightarrow>
    diagnostic list" where
  "unknown_loop known path lt st [] = []"
| "unknown_loop known path lt st (d # ds) =
    (let r = Range lt (dr_offset d) (dr_offset d);
         (msgs, st) = unknown_step known d st
     in map (\<lambda>m. finding ''unknown-suppression'' m path r) msgs @ unknown_loop known path lt st ds)"

definition UnknownSuppression_Run ::
  "(string \<Rightarrow> bool) \<Rightarrow> string \<Rightarrow> line_table \<Rightarrow> directive list \<Rightarrow> diagnostic list" where
  "UnknownSuppression_Run known path lt ds = unknown_loop known path lt (0, \<lambda>_. 0) ds"

text \<open>
  The specification in the matcher's terms: how many blocks of a rule, and of \<open>all\<close>, are open
  before a directive is the height of the matcher's stack, and an identifier of an enable is
  reported exactly when those before it in the list have closed them all.
\<close>

definition open_count :: "string \<Rightarrow> directive list \<Rightarrow> nat" where
  "open_count r ds = length (run_events 0 [] (map (id_event r) ds))"

definition open_all_count :: "directive list \<Rightarrow> nat" where
  "open_all_count ds = length (run_events 0 [] (map all_event ds))"

definition unmatched_ids :: "(string \<Rightarrow> nat) \<Rightarrow> string list \<Rightarrow> string list" where
  "unmatched_ids depth is =
    map ((!) is) (filter (\<lambda>k. depth (is ! k) \<le> count_list (take k is) (is ! k)) [0..<length is])"

definition unknown_messages :: "(string \<Rightarrow> bool) \<Rightarrow> directive list \<Rightarrow> directive \<Rightarrow> string list" where
  "unknown_messages known before d =
    (if dr_kind d = KindEnable then
       (if dr_all d \<and> open_all_count before = 0 then [unmatched_all_message] else []) @
       map unmatched_message (unmatched_ids (\<lambda>r. open_count r before) (dr_ids d))
     else
       (if dr_malformed d then [malformed_message] else []) @
       (if dr_all d then [] else map unknown_message (filter (\<lambda>i. \<not> known i) (dr_ids d))))"

lemma unmatched_ids_Cons:
  "unmatched_ids depth (i # is) =
    (if depth i = 0 then [i] else []) @ unmatched_ids (depth(i := depth i - 1)) is"
proof -
  have upt: "[0..<length (i # is)] = 0 # map Suc [0..<length is]"
    by (simp add: upt_0_Suc del: upt_Suc)
  have "filter (\<lambda>k. depth (is ! k) \<le> count_list (i # take k is) (is ! k)) [0..<length is] =
      filter (\<lambda>k. (depth(i := depth i - 1)) (is ! k) \<le> count_list (take k is) (is ! k)) [0..<length is]"
    by (rule filter_cong) auto
  then show ?thesis
    unfolding unmatched_ids_def upt by (simp add: filter_map o_def)
qed

lemma enable_ids_spec:
  assumes "\<And>r. m r = int (depth r)"
  shows "enable_ids m is =
    (map unmatched_message (unmatched_ids depth is), \<lambda>r. int (depth r - count_list is r))"
  using assms
proof (induction "is" arbitrary: m depth)
  case Nil
  then show ?case by (simp add: unmatched_ids_def fun_eq_iff)
next
  case (Cons i "is")
  show ?case
  proof (cases "depth i = 0")
    case True
    then have "depth(i := 0) = depth" by (simp add: fun_upd_idem)
    then have "unmatched_ids depth (i # is) = i # unmatched_ids depth is"
      using True by (simp add: unmatched_ids_Cons)
    moreover have "depth r - count_list is r = depth r - count_list (i # is) r" for r
      using True by auto
    ultimately show ?thesis
      using True Cons.IH [OF Cons.prems] by (simp add: Cons.prems)
  next
    case False
    let ?m = "m(i := m i - 1)" and ?depth = "depth(i := depth i - 1)"
    have "enable_ids ?m is =
        (map unmatched_message (unmatched_ids ?depth is), \<lambda>r. int (?depth r - count_list is r))"
      by (rule Cons.IH) (use False Cons.prems in auto)
    moreover have "?depth r - count_list is r = depth r - count_list (i # is) r" for r
      by auto
    ultimately show ?thesis using False Cons.prems [of i] by (simp add: unmatched_ids_Cons)
  qed
qed

lemma run_events_append:
  "run_events i stack (es @ fs) = run_events (i + length es) (run_events i stack es) fs"
  by (induction i stack es rule: run_events.induct) auto

lemma open_count_snoc:
  "open_count r (ds @ [d]) = (case id_event r d of
    Opens c \<Rightarrow> open_count r ds + c | Closes c \<Rightarrow> open_count r ds - c)"
  by (simp add: open_count_def run_events_append split: block_event.split)

lemma open_all_count_snoc:
  "open_all_count (ds @ [d]) = (case all_event d of
    Opens c \<Rightarrow> open_all_count ds + c | Closes c \<Rightarrow> open_all_count ds - c)"
  by (simp add: open_all_count_def run_events_append split: block_event.split)

lemma foldl_count: "foldl (\<lambda>m i. m(i := m i + 1)) m is r = m r + int (count_list is r)"
  by (induction "is" arbitrary: m) auto

lemma unknown_step_spec:
  "unknown_step known d (int (open_all_count before), \<lambda>r. int (open_count r before)) =
    (unknown_messages known before d, int (open_all_count (before @ [d])),
      \<lambda>r. int (open_count r (before @ [d])))"
proof (cases "dr_kind d")
  case KindDisableNextLine
  then show ?thesis
    by (simp add: unknown_step_def unknown_messages_def open_count_snoc open_all_count_snoc
        id_event_def all_event_def)
next
  case KindDisable
  then show ?thesis
    by (simp add: unknown_step_def unknown_messages_def open_count_snoc open_all_count_snoc
        id_event_def all_event_def foldl_count fun_eq_iff)
next
  case KindEnable
  have "enable_ids (\<lambda>r. int (open_count r before)) (dr_ids d) =
      (map unmatched_message (unmatched_ids (\<lambda>r. open_count r before) (dr_ids d)),
       \<lambda>r. int (open_count r before - count_list (dr_ids d) r))"
    by (rule enable_ids_spec) simp
  with KindEnable show ?thesis
    by (auto simp: unknown_step_def unknown_messages_def open_count_snoc open_all_count_snoc
        id_event_def all_event_def)
qed

lemma unknown_loop_spec:
  "unknown_loop known path lt (int (open_all_count before), \<lambda>r. int (open_count r before)) ds =
    concat (map (\<lambda>i. map (\<lambda>m. finding ''unknown-suppression'' m path
        (Range lt (dr_offset (ds ! i)) (dr_offset (ds ! i))))
      (unknown_messages known (before @ take i ds) (ds ! i))) [0..<length ds])"
proof (induction ds arbitrary: before)
  case Nil
  then show ?case by simp
next
  case (Cons d ds)
  have upt: "[0..<length (d # ds)] = 0 # map Suc [0..<length ds]"
    by (simp add: upt_0_Suc del: upt_Suc)
  show ?case unfolding upt
    using Cons.IH [of "before @ [d]"] by (simp add: unknown_step_spec o_def)
qed


section \<open>Unused directives\<close>

fun unused_loop ::
  "string \<Rightarrow> line_table \<Rightarrow> bool list \<Rightarrow> nat \<Rightarrow> directive list \<Rightarrow> diagnostic list" where
  "unused_loop path lt used i [] = []"
| "unused_loop path lt used i (d # ds) =
    (if dr_kind d = KindEnable then unused_loop path lt used (Suc i) ds
     else if dr_malformed d then unused_loop path lt used (Suc i) ds
     else if i < length used \<and> used ! i then unused_loop path lt used (Suc i) ds
     else (finding ''unknown-suppression'' ''unused pawnlint suppression directive'' path
         (Range lt (dr_offset d) (dr_end d)))
         \<lparr>d_severity := SeverityHint, d_category := CategoryMaintainability\<rparr>
       # unused_loop path lt used (Suc i) ds)"

definition unusedSuppressionDiagnostics ::
  "string \<Rightarrow> directive list \<Rightarrow> bool list \<Rightarrow> line_table \<Rightarrow> diagnostic list" where
  "unusedSuppressionDiagnostics path ds used lt = unused_loop path lt used 0 ds"

section \<open>Renamed rules\<close>

text \<open>\<open>ResolveID\<close> of the registry: the current identifier and whether the given one is deprecated.\<close>

fun normalize_ids ::
  "(string \<Rightarrow> (string \<times> bool) option) \<Rightarrow> line_table \<Rightarrow> directive \<Rightarrow> string list \<Rightarrow> string list \<Rightarrow>
    diagnostic list \<Rightarrow> string list \<times> diagnostic list" where
  "normalize_ids resolve lt d is [] migrations = (is, migrations)"
| "normalize_ids resolve lt d is (configured # rest) migrations =
    (let (ident, deprecated) = (case resolve configured of
           Some (i, dep) \<Rightarrow> (i, dep) | None \<Rightarrow> (configured, False));
         is = (if ident \<notin> set is then is @ [ident] else is);
         migrations = (if deprecated
           then migrations @ [(finding ''deprecated-rule-id''
             (''suppression rule ID '' @ go_quote configured @ '' is deprecated; use '' @ go_quote ident)
             (dr_file d) (Range lt (dr_offset d) (dr_end d)))
             \<lparr>d_severity := SeverityWarning, d_category := CategoryMaintainability\<rparr>]
           else migrations)
     in normalize_ids resolve lt d is rest migrations)"

fun normalizeSuppressionAliases ::
  "bool \<Rightarrow> (string \<Rightarrow> (string \<times> bool) option) \<Rightarrow> line_table \<Rightarrow> directive list \<Rightarrow>
    directive list \<times> diagnostic list" where
  "normalizeSuppressionAliases False resolve lt ds = (ds, [])"
| "normalizeSuppressionAliases True resolve lt [] = ([], [])"
| "normalizeSuppressionAliases True resolve lt (d # ds) =
    (let (is, ms) = normalize_ids resolve lt d [] (dr_ids d) [];
         (ds', ms') = normalizeSuppressionAliases True resolve lt ds
     in (d\<lparr>dr_ids := is\<rparr> # ds', ms @ ms'))"

definition current_id :: "(string \<Rightarrow> (string \<times> bool) option) \<Rightarrow> string \<Rightarrow> string" where
  "current_id resolve configured =
    (case resolve configured of Some (i, dep) \<Rightarrow> i | None \<Rightarrow> configured)"

lemma MatchesRule_iff: "MatchesRule d r \<longleftrightarrow> dr_all d \<or> r \<in> set (dr_ids d)"
  by (simp add: MatchesRule_def)

lemma normalize_ids_Cons:
  "\<exists>ms1. normalize_ids resolve lt d is (c # rest) ms = normalize_ids resolve lt d
    (if current_id resolve c \<notin> set is then is @ [current_id resolve c] else is) rest ms1"
  by (cases "resolve c") (auto simp: current_id_def Let_def simp del: set_append)

lemma normalize_ids_spec:
  "distinct is \<Longrightarrow> normalize_ids resolve lt d is rest ms = (out, ms') \<Longrightarrow>
    set out = set is \<union> current_id resolve ` set rest \<and> distinct out"
proof (induction rest arbitrary: "is" ms)
  case (Cons c rest)
  let ?is = "if current_id resolve c \<notin> set is then is @ [current_id resolve c] else is"
  obtain ms1 where "normalize_ids resolve lt d ?is rest ms1 = (out, ms')"
    using normalize_ids_Cons [of resolve lt d "is" c rest ms] Cons.prems(2) by metis
  with Cons.IH [of ?is ms1] Cons.prems(1) have
    "set out = set ?is \<union> current_id resolve ` set rest \<and> distinct out" by auto
  then show ?case by auto
qed simp

text \<open>
  After renaming, a directive covers exactly the rules its identifiers stand for: an
  identifier, deprecated or not, covers the rule it resolves to, and each identifier is kept once.
\<close>

theorem normalizeSuppressionAliases_correct:
  "list_all2 (\<lambda>d d'. dr_kind d' = dr_kind d \<and> dr_line d' = dr_line d \<and>
      (\<forall>r. MatchesRule d' r = (dr_all d \<or> r \<in> current_id resolve ` set (dr_ids d))) \<and>
      distinct (dr_ids d'))
    ds (fst (normalizeSuppressionAliases True resolve lt ds))"
proof (induction ds)
  case (Cons d ds)
  obtain out ms where out: "normalize_ids resolve lt d [] (dr_ids d) [] = (out, ms)" by force
  from normalize_ids_spec [OF _ this] have
    "set out = current_id resolve ` set (dr_ids d)" "distinct out" by auto
  moreover obtain ds' ms' where "normalizeSuppressionAliases True resolve lt ds = (ds', ms')" by force
  ultimately show ?case using Cons out by (simp add: MatchesRule_iff)
qed simp

section \<open>The comment syntax\<close>

text \<open>A directive as the documentation writes it.\<close>

fun action_text :: "directive_kind \<Rightarrow> string" where
  "action_text KindDisableNextLine = ''disable-next-line''"
| "action_text KindDisable = ''disable''"
| "action_text KindEnable = ''enable''"

definition directive_comment :: "directive_kind \<Rightarrow> string list \<Rightarrow> string \<Rightarrow> string" where
  "directive_comment k ids reason =
    ''// pawnlint-'' @ action_text k @ '' '' @ join_with '', '' ids @
      (if reason = [] then [] else '' -- '' @ reason)"

text \<open>A rule identifier: starts with a letter (any graphic byte but a dash), has no comma or slash, is not
  \<open>all\<close>.\<close>

definition plain_id :: "string \<Rightarrow> bool" where
  "plain_id w = (w \<noteq> [] \<and> (\<forall>c\<in>set w. graphic c \<and> c \<noteq> CHR '','' \<and> c \<noteq> CHR ''/'') \<and> hd w \<noteq> CHR ''-'' \<and> w \<noteq> ''all'')"

definition plain_reason :: "string \<Rightarrow> bool" where
  "plain_reason r = (r = [] \<or> (graphic (hd r) \<and> graphic (last r) \<and> newline \<notin> set r \<and>
    last r \<noteq> CHR ''/''))"

lemma index_of_skip:
  assumes "\<And>i. i < length u \<Longrightarrow> \<not> has_prefix (drop i (u @ v)) p"
  shows "index_of (u @ v) p = map_option ((+) (length u)) (index_of v p)"
  using assms
proof (induction u)
  case Nil
  then show ?case by (simp add: option.map_ident)
next
  case (Cons c u)
  have "\<not> has_prefix ((c # u) @ v) p" using Cons.prems [of 0] by simp
  moreover have "index_of (u @ v) p = map_option ((+) (length u)) (index_of v p)"
    by (rule Cons.IH) (use Cons.prems [of "Suc i" for i] in force)
  ultimately show ?case by (simp add: option.map_comp o_def)
qed

lemma index_of_space: "CHR '' '' \<notin> set w \<Longrightarrow> index_of (w @ CHR '' '' # s) '' '' = Some (length w)"
  by (subst index_of_skip) (auto simp: has_prefix_def nth_append Cons_nth_drop_Suc [symmetric]
      in_set_conv_nth)

text \<open>No separator of the reason starts inside \<open>u\<close>, whatever follows.\<close>

definition no_separator :: "string \<Rightarrow> bool" where
  "no_separator u = (\<forall>i<length u. \<forall>v. \<not> has_prefix (drop i (u @ v)) '' -- '')"

lemma no_separator_Nil: "no_separator []"
  by (simp add: no_separator_def)

lemma no_separator_Cons:
  assumes "no_separator u" and "c \<noteq> CHR '' '' \<or> u \<noteq> [] \<and> hd u \<noteq> CHR ''-''"
  shows "no_separator (c # u)"
  unfolding no_separator_def
proof (intro allI impI)
  fix i v assume "i < length (c # u)"
  with assms show "\<not> has_prefix (drop i ((c # u) @ v)) '' -- ''"
    by (cases i; cases u) (auto simp: no_separator_def has_prefix_def)
qed

lemma no_separator_append:
  "CHR '' '' \<notin> set w \<Longrightarrow> no_separator u \<Longrightarrow> no_separator (w @ u)"
  by (induction w) (auto intro: no_separator_Cons)

lemma plain_idD:
  assumes "plain_id w"
  shows "w \<noteq> []" "graphic (hd w)" "hd w \<noteq> CHR ''-''" "graphic (last w)" "last w \<noteq> CHR ''/''"
    "newline \<notin> set w" "CHR '' '' \<notin> set w" "CHR '','' \<notin> set w" "w \<noteq> ''all''"
proof -
  show ne: "w \<noteq> []" "w \<noteq> ''all''" "hd w \<noteq> CHR ''-''" using assms by (simp_all add: plain_id_def)
  have all: "graphic c \<and> c \<noteq> CHR '','' \<and> c \<noteq> CHR ''/''" if "c \<in> set w" for c
    using assms that by (simp add: plain_id_def)
  from all hd_in_set [OF ne(1)] last_in_set [OF ne(1)]
  show "graphic (hd w)" "graphic (last w)" "last w \<noteq> CHR ''/''" by blast+
  from all graphic_simps show "newline \<notin> set w" "CHR '' '' \<notin> set w" "CHR '','' \<notin> set w"
    by blast+
qed

lemma join_ids:
  assumes "ids \<noteq> []" and "\<forall>w\<in>set ids. plain_id w"
  defines "j \<equiv> join_with '', '' ids"
  shows "j \<noteq> [] \<and> graphic (hd j) \<and> hd j \<noteq> CHR ''-'' \<and> graphic (last j) \<and> last j \<noteq> CHR ''/'' \<and>
    newline \<notin> set j \<and> no_separator j"
  using assms(1,2) unfolding j_def
proof (induction ids rule: list_nonempty_induct)
  case (single w)
  then have "no_separator (w @ [])"
    by (intro no_separator_append no_separator_Nil plain_idD) simp
  with single plain_idD [of w] show ?case by simp
next
  case (cons w ws)
  let ?j = "join_with '', '' ws"
  from cons have IH: "?j \<noteq> []" "hd ?j \<noteq> CHR ''-''" "graphic (last ?j)" "last ?j \<noteq> CHR ''/''"
    "newline \<notin> set ?j" "no_separator ?j" and w: "plain_id w" by auto
  have "no_separator (CHR '','' # CHR '' '' # ?j)"
    using IH by (intro no_separator_Cons) auto
  then have "no_separator (w @ CHR '','' # CHR '' '' # ?j)"
    by (rule no_separator_append [OF plain_idD(7) [OF w]])
  moreover have "join_with '', '' (w # ws) = w @ CHR '','' # CHR '' '' # ?j"
    using cons by (simp add: join_with_Cons)
  ultimately show ?case using IH plain_idD [OF w] by simp
qed

lemma split_comma: "d \<notin> set w \<Longrightarrow> split_char d (w @ d # s) = w # split_char d s"
  by (induction w) auto

lemma split_char_none: "d \<notin> set w \<Longrightarrow> split_char d w = [w]"
  by (induction w) auto

lemma split_ids:
  assumes "ids \<noteq> []" and "\<forall>w\<in>set ids. plain_id w" and "x = [] \<or> x = '' ''"
  shows "parse_id_list (split_char (CHR '','') (x @ join_with '', '' ids)) = (ids, False)"
  using assms
proof (induction ids arbitrary: x rule: list_nonempty_induct)
  case (single w)
  then have "plain_id w" by simp
  from plain_idD [OF this] single show ?case
    by (auto simp: Let_def split_char_none trim_space_Cons_space trim_space_graphic)
next
  case (cons w ws)
  then have "plain_id w" by simp
  note w = plain_idD [OF this]
  have "split_char (CHR '','') ((x @ w) @ CHR '','' # '' '' @ join_with '', '' ws) =
      (x @ w) # split_char (CHR '','') ('' '' @ join_with '', '' ws)"
    using cons.prems w by (intro split_comma) auto
  moreover have "trim_space (x @ w) = w"
    using cons.prems w by (auto simp: trim_space_Cons_space trim_space_graphic)
  ultimately show ?case
    using cons.IH [of "'' ''"] cons.prems cons.hyps w by (simp add: join_with_Cons Let_def)
qed

lemma parseIDs_plain:
  assumes "ids \<noteq> []" and "\<forall>w\<in>set ids. plain_id w" and "plain_reason reason"
  shows "parseIDs (join_with '', '' ids @ (if reason = [] then [] else '' -- '' @ reason)) =
    (ids, False, reason, False)"
proof -
  let ?j = "join_with '', '' ids"
  let ?tail = "if reason = [] then [] else '' -- '' @ reason"
  note j = join_ids [OF assms(1,2)]
  have trim: "trim_space (?j @ ?tail) = ?j @ ?tail" "trim_space ?j = ?j" "trim_space reason = reason"
    using j assms(3) by (auto simp: plain_reason_def hd_append last_append intro!: trim_space_graphic)
  have ix: "index_of (?j @ ?tail) '' -- '' = (if reason = [] then None else Some (length ?j))"
    by (subst index_of_skip) (use j in \<open>auto simp: no_separator_def has_prefix_def\<close>)
  have "?j @ ?tail \<noteq> ''--''" and "\<not> has_prefix (?j @ ?tail) ''-- ''"
    using j by (cases ?j; simp add: has_prefix_def)+
  then have "split_reason (?j @ ?tail) = (?j, reason)"
    unfolding split_reason_def ix using trim by (auto simp: Let_def)
  with trim j split_ids [OF assms(1,2), of "[]"] assms(1) show ?thesis
    by (simp add: parseIDs_def)
qed

text \<open>
  C10: reading a directive back. A comment written the way the documentation shows, with any kind,
  any non-empty list of rule identifiers and any reason, is read as exactly that one directive.
\<close>

theorem directive_roundtrip:
  assumes "ids \<noteq> []" and "\<forall>w\<in>set ids. plain_id w" and "plain_reason reason"
  shows "List.map_filter (buildDirective path line s e)
      (extractFromComment (directive_comment k ids reason)) =
    [\<lparr>dr_file = path, dr_line = line, dr_offset = s, dr_end = e, dr_kind = k, dr_ids = ids,
      dr_all = False, dr_reason = reason, dr_malformed = False\<rparr>]"
proof -
  let ?tail = "join_with '', '' ids @ (if reason = [] then [] else '' -- '' @ reason)"
  let ?body = "''pawnlint-'' @ action_text k @ '' '' @ ?tail"
  note j = join_ids [OF assms(1,2)]
  have tail: "?tail \<noteq> []" "graphic (last ?tail)" "newline \<notin> set ?tail" "last ?tail \<noteq> CHR ''/''"
    using j assms(3) by (auto simp: plain_reason_def)
  let ?comment = "CHR ''/'' # CHR ''/'' # CHR '' '' # ?body"
  have comment: "directive_comment k ids reason = ?comment"
    by (simp add: directive_comment_def)
  have act: "newline \<notin> set (action_text k)" "CHR '' '' \<notin> set (action_text k)"
    "trim_space (action_text k) = action_text k"
    "has_prefix (action_text k) ''disable'' \<or> has_prefix (action_text k) ''enable''"
    by (cases k; simp add: trim_space_graphic graphic_def has_prefix_def)+
  have last: "last (xs @ ?tail) = last ?tail" for xs using tail(1) by simp
  have "split_char newline ?comment = [?comment]"
    using tail(3) act(1) by (intro split_char_none) auto
  moreover have "trim_space ?comment = ?comment"
    by (rule trim_space_graphic) (use tail last [of "''pawnlint-'' @ action_text k @ '' ''"] in
      \<open>auto simp: graphic_def\<close>)
  moreover have "trim_space (CHR '' '' # ?body) = ?body"
    unfolding trim_space_Cons_space
    by (rule trim_space_graphic) (use tail last [of "''pawnlint-'' @ action_text k @ '' ''"] in
      \<open>auto simp: graphic_def\<close>)
  moreover have "\<not> has_suffix (CHR '' '' # ?body) ''*/''"
    using tail(1,4) by (auto simp: has_suffix_iff dest!: arg_cong [where f = last])
  moreover have "index_of ?body marker = Some 0"
    by (simp add: marker_def has_prefix_def)
  moreover have "index_of (action_text k @ CHR '' '' # ?tail) '' '' = Some (length (action_text k))"
    by (rule index_of_space [OF act(2)])
  ultimately have "extractFromComment (directive_comment k ids reason) = [(action_text k, ?tail)]"
    unfolding comment using act(3,4)
    by (simp add: extractFromComment_def extract_line_def stripCommentSyntax_def trim_prefix_def
        trim_suffix_def has_prefix_def marker_def List.map_filter_def Let_def)
  then show ?thesis
    using parseIDs_plain [OF assms]
    by (cases k) (simp_all add: List.map_filter_def buildDirective_def)
qed

theorem directive_roundtrip_witness:
  "List.map_filter (buildDirective ''a.pwn'' 7 40 90)
      (extractFromComment (directive_comment KindDisable [''unused-local'', ''all-caps''] ''legacy, ok'')) =
    [\<lparr>dr_file = ''a.pwn'', dr_line = 7, dr_offset = 40, dr_end = 90, dr_kind = KindDisable,
      dr_ids = [''unused-local'', ''all-caps''], dr_all = False, dr_reason = ''legacy, ok'',
      dr_malformed = False\<rparr>]"
  by (rule directive_roundtrip) (simp_all add: plain_id_def plain_reason_def graphic_def)

end
