(* ===== verification/Baseline.thy ===== *)
theory Baseline
  imports Diagnostic Go_Paths
begin

text \<open>
  Baselines (\<open>internal/baseline/baseline.go\<close>): the fingerprints of findings, generating and
  validating a baseline and removing the findings it lists. The hash function is a parameter \<open>sha\<close>;
  what is needed of it, 32 bytes and no collision among the texts hashed, is a hypothesis of the
  theorems that need it.
\<close>

section \<open>Entries\<close>

record entry =
  en_fingerprint :: string
  en_ruleID :: string
  en_path :: string
  en_message :: string
  en_line :: int

record baseline_file =
  bf_version :: int
  bf_entries :: "entry list"

definition baseline_version :: int where
  "baseline_version = 1"

definition zero_entry :: entry where
  "zero_entry = \<lparr>en_fingerprint = [], en_ruleID = [], en_path = [], en_message = [], en_line = 0\<rparr>"

definition eligible :: "diagnostic \<Rightarrow> bool" where
  "eligible d = (d_ruleID d \<noteq> [] \<and> d_ruleID d \<noteq> ''parse-error'' \<and>
    d_ruleID d \<noteq> ''internal-error'' \<and> d_ruleID d \<noteq> ''deprecated-rule-id'' \<and> d_message d \<noteq> [])"

definition relativePath :: "string \<Rightarrow> string \<Rightarrow> string" where
  "relativePath projectDir path =
    (let path = (if \<not> IsAbs path then path_join projectDir path else path) in
      case Rel projectDir path of
        None \<Rightarrow> Clean path
      | Some relative \<Rightarrow> Clean relative)"

text \<open>The loop over the map of sources is over an association list: with two names of one file the
  code may take either, the model the first.\<close>

definition sourceFor :: "(string \<times> string) list \<Rightarrow> string \<Rightarrow> string" where
  "sourceFor sources path =
    (case map_of sources path of
      Some source \<Rightarrow> source
    | None \<Rightarrow>
        (case List.find (\<lambda>(candidate, source). Clean candidate = Clean path) sources of
          Some (candidate, source) \<Rightarrow> source
        | None \<Rightarrow> []))"

definition diagnosticExcerpt :: "string \<Rightarrow> diagnostic \<Rightarrow> string" where
  "diagnosticExcerpt source d =
    (let start = p_offset (r_start (d_range d)); stop = p_offset (r_end (d_range d)) in
      if start < 0 \<or> stop < start \<or> stop > int (length source) then []
      else join_with '' '' (string_fields (slice source start stop)))"

definition entry_less :: "entry \<Rightarrow> entry \<Rightarrow> bool" where
  "entry_less a b =
    (if en_path a \<noteq> en_path b then en_path a < en_path b
     else if en_ruleID a \<noteq> en_ruleID b then en_ruleID a < en_ruleID b
     else en_fingerprint a < en_fingerprint b)"

definition sortEntries :: "entry list \<Rightarrow> entry list" where
  "sortEntries es = stable_sort entry_less es"

section \<open>Fingerprints\<close>

definition nul :: char where
  "nul = CHR 0x00"

definition base_text ::
  "(string \<times> string) list \<Rightarrow> string \<Rightarrow> diagnostic \<Rightarrow> string" where
  "base_text sources projectDir d =
    join_with [nul] [relativePath projectDir (d_filename d), d_ruleID d, d_code d, d_message d,
      diagnosticExcerpt (sourceFor sources (d_filename d)) d]"

definition hashed_text :: "string \<Rightarrow> nat \<Rightarrow> string" where
  "hashed_text base occurrence = base @ nul # itoa occurrence"

definition make_entry ::
  "(string \<Rightarrow> string) \<Rightarrow> string \<Rightarrow> string \<Rightarrow> nat \<Rightarrow> diagnostic \<Rightarrow> entry" where
  "make_entry sha projectDir base occurrence d =
    \<lparr>en_fingerprint = hex_encode (sha (hashed_text base occurrence)), en_ruleID = d_ruleID d,
     en_path = relativePath projectDir (d_filename d), en_message = d_message d,
     en_line = max (p_line (r_start (d_range d))) 1\<rparr>"

text \<open>
  The loop over the sorted items. \<open>occurrences\<close> counts the findings with the same text so far; a
  finding that is not eligible keeps the zero entry.
\<close>

fun fingerprint_loop ::
  "(string \<Rightarrow> string) \<Rightarrow> (string \<times> string) list \<Rightarrow> string \<Rightarrow> (string \<Rightarrow> nat) \<Rightarrow>
    (nat \<times> diagnostic) list \<Rightarrow> entry list" where
  "fingerprint_loop sha sources projectDir occurrences [] = []"
| "fingerprint_loop sha sources projectDir occurrences ((index, d) # items) =
    (if \<not> eligible d
     then zero_entry # fingerprint_loop sha sources projectDir occurrences items
     else (let base = base_text sources projectDir d; occurrence = occurrences base in
       make_entry sha projectDir base occurrence d #
         fingerprint_loop sha sources projectDir (occurrences(base := occurrence + 1)) items))"

definition sorted_items :: "diagnostic list \<Rightarrow> (nat \<times> diagnostic) list" where
  "sorted_items ds = stable_sort (\<lambda>a b. diag_less (snd a) (snd b)) (enumerate 0 ds)"

definition position_of :: "(nat \<times> diagnostic) list \<Rightarrow> nat \<Rightarrow> nat" where
  "position_of items index = length (takeWhile (\<lambda>(i, d). i \<noteq> index) items)"

definition fingerprintDiagnostics ::
  "(string \<Rightarrow> string) \<Rightarrow> diagnostic list \<Rightarrow> (string \<times> string) list \<Rightarrow> string \<Rightarrow>
    entry list \<times> (nat \<Rightarrow> nat)" where
  "fingerprintDiagnostics sha ds sources projectDir =
    (let items = sorted_items ds in
      (fingerprint_loop sha sources projectDir (\<lambda>_. 0) items, position_of items))"

section \<open>Generate, Apply and Validate\<close>

definition Generate ::
  "(string \<Rightarrow> string) \<Rightarrow> diagnostic list \<Rightarrow> (string \<times> string) list \<Rightarrow> string \<Rightarrow> baseline_file" where
  "Generate sha ds sources projectDir =
    (let (entries, indexed) = fingerprintDiagnostics sha ds sources projectDir in
      \<lparr>bf_version = baseline_version,
       bf_entries = sortEntries (filter (\<lambda>e. en_fingerprint e \<noteq> []) entries)\<rparr>)"

record match_result =
  mr_remaining :: "diagnostic list"
  mr_current :: baseline_file
  mr_stale :: int

fun apply_loop ::
  "string set \<Rightarrow> entry list \<Rightarrow> (nat \<Rightarrow> nat) \<Rightarrow> diagnostic list \<times> (string \<times> entry) list \<Rightarrow>
    (nat \<times> diagnostic) list \<Rightarrow> diagnostic list \<times> (string \<times> entry) list" where
  "apply_loop existing entries indexed (remaining, matched) [] = (remaining, matched)"
| "apply_loop existing entries indexed (remaining, matched) ((index, item) # rest) =
    (let e = entries ! indexed index in
      if en_fingerprint e = []
      then apply_loop existing entries indexed (remaining @ [item], matched) rest
      else if en_fingerprint e \<notin> existing
      then apply_loop existing entries indexed (remaining @ [item], matched) rest
      else apply_loop existing entries indexed
        (remaining, alist_set (en_fingerprint e) e matched) rest)"

definition Apply ::
  "(string \<Rightarrow> string) \<Rightarrow> baseline_file \<Rightarrow> diagnostic list \<Rightarrow> (string \<times> string) list \<Rightarrow> string \<Rightarrow>
    match_result" where
  "Apply sha f ds sources projectDir =
    (let (entries, indexed) = fingerprintDiagnostics sha ds sources projectDir;
         existing = set (map en_fingerprint (bf_entries f));
         (remaining, matched) = apply_loop existing entries indexed ([], []) (enumerate 0 ds);
         current = sortEntries (map snd matched)
     in \<lparr>mr_remaining = remaining,
         mr_current = \<lparr>bf_version = baseline_version, bf_entries = current\<rparr>,
         mr_stale = int (length (bf_entries f)) - int (length current)\<rparr>)"

datatype baseline_error =
    Unsupported_version int
  | Invalid_fingerprint nat
  | Repeated_fingerprint nat string
  | Empty_rule nat
  | Invalid_path nat
  | Empty_message nat
  | Invalid_line nat

definition validFingerprint :: "string \<Rightarrow> bool" where
  "validFingerprint value =
    (if length value \<noteq> 64 then False else hex_decodes value \<and> map ascii_lower value = value)"

fun validate_entries :: "nat \<Rightarrow> string list \<Rightarrow> entry list \<Rightarrow> baseline_error option" where
  "validate_entries index seen [] = None"
| "validate_entries index seen (e # es) =
    (if \<not> validFingerprint (en_fingerprint e) then Some (Invalid_fingerprint (index + 1))
     else if en_fingerprint e \<in> set seen
     then Some (Repeated_fingerprint (index + 1) (en_fingerprint e))
     else if trim_space (en_ruleID e) = [] then Some (Empty_rule (index + 1))
     else if en_path e = [] \<or> IsAbs (en_path e) \<or> Clean (en_path e) \<noteq> en_path e
     then Some (Invalid_path (index + 1))
     else if trim_space (en_message e) = [] then Some (Empty_message (index + 1))
     else if en_line e < 1 then Some (Invalid_line (index + 1))
     else validate_entries (index + 1) (en_fingerprint e # seen) es)"

definition Validate :: "baseline_file \<Rightarrow> baseline_error option" where
  "Validate f =
    (if bf_version f \<noteq> baseline_version then Some (Unsupported_version (bf_version f))
     else validate_entries 0 [] (bf_entries f))"

section \<open>The fingerprints are the occurrences\<close>

interpretation entry_less: go_less entry_less
  by unfold_locales (auto simp: entry_less_def split: if_splits)

definition same_base ::
  "(string \<times> string) list \<Rightarrow> string \<Rightarrow> string \<Rightarrow> nat \<times> diagnostic \<Rightarrow> bool" where
  "same_base sources projectDir b item =
    (eligible (snd item) \<and> base_text sources projectDir (snd item) = b)"

text \<open>The fingerprint of the \<open>p\<close>-th item: its text and how many items before it share it.\<close>

definition item_key ::
  "(string \<times> string) list \<Rightarrow> string \<Rightarrow> (nat \<times> diagnostic) list \<Rightarrow> nat \<Rightarrow> string \<times> nat" where
  "item_key sources projectDir items p =
    (let b = base_text sources projectDir (snd (items ! p)) in
      (b, length (filter (same_base sources projectDir b) (take p items))))"

definition item_entry ::
  "(string \<Rightarrow> string) \<Rightarrow> (string \<times> string) list \<Rightarrow> string \<Rightarrow> (nat \<times> diagnostic) list \<Rightarrow> nat \<Rightarrow> entry" where
  "item_entry sha sources projectDir items p =
    (if eligible (snd (items ! p))
     then (let (b, k) = item_key sources projectDir items p in
       make_entry sha projectDir b k (snd (items ! p)))
     else zero_entry)"

lemma fingerprint_loop_from:
  "fingerprint_loop sha sources dir
      (\<lambda>b. length (filter (same_base sources dir b) before)) items =
    map (item_entry sha sources dir (before @ items)) [length before..<length before + length items]"
proof (induction items arbitrary: before)
  case Nil
  then show ?case by simp
next
  case (Cons item items)
  obtain i d where item: "item = (i, d)" by force
  let ?b = "base_text sources dir d"
  have upt: "[length before..<length before + length (item # items)] =
      length before # [length (before @ [item])..<length (before @ [item]) + length items]"
    by (subst upt_conv_Cons) simp_all
  have occ: "(\<lambda>b. length (filter (same_base sources dir b) (before @ [item]))) =
      (if eligible d then (\<lambda>b. length (filter (same_base sources dir b) before))
          (?b := length (filter (same_base sources dir ?b) before) + 1)
       else (\<lambda>b. length (filter (same_base sources dir b) before)))"
    by (auto simp: fun_eq_iff same_base_def item)
  have head: "item_entry sha sources dir (before @ item # items) (length before) =
      (if eligible d then make_entry sha dir ?b
        (length (filter (same_base sources dir ?b) before)) d else zero_entry)"
    by (simp add: item_entry_def item_key_def item Let_def)
  show ?case
    unfolding upt list.map head
    using Cons.IH [of "before @ [item]"] occ by (auto simp: item Let_def)
qed

lemma fingerprint_loop_items:
  "fingerprint_loop sha sources dir (\<lambda>_. 0) items =
    map (item_entry sha sources dir items) [0..<length items]"
  using fingerprint_loop_from [of sha sources dir "[]" items] by simp

lemma itoa_no_nul: "nul \<notin> set (itoa n)"
proof (induction n rule: itoa.induct)
  case (1 n)
  have "nul \<noteq> char_of (48 + m)" if "m < 10" for m :: nat
    using that by (auto simp: nul_def dest!: arg_cong [where f = "of_char :: char \<Rightarrow> nat"])
  with 1 show ?case by (subst itoa.simps) auto
qed

definition digits_value :: "string \<Rightarrow> nat" where
  "digits_value s = foldl (\<lambda>v c. v * 10 + (of_char c - 48)) 0 s"

lemma digits_value_itoa: "digits_value (itoa n) = n"
proof (induction n rule: itoa.induct)
  case (1 n)
  show ?case
  proof (cases "n < 10")
    case True
    then show ?thesis by (subst itoa.simps) (simp add: digits_value_def)
  next
    case False
    with 1 show ?thesis by (subst itoa.simps) (simp add: digits_value_def)
  qed
qed

lemma append_Cons_last_eq:
  assumes "xs @ x # ys = xs' @ x # ys'" and "x \<notin> set ys" and "x \<notin> set ys'"
  shows "xs = xs' \<and> ys = ys'"
proof -
  have last_part: "rev (takeWhile (\<lambda>y. y \<noteq> x) (rev (us @ x # vs))) = vs" if "x \<notin> set vs" for us vs
  proof -
    have "takeWhile (\<lambda>y. y \<noteq> x) (rev vs @ x # rev us) = rev vs"
      by (subst takeWhile_append2) (use that in auto)
    then show ?thesis by simp
  qed
  from last_part [OF assms(2), of xs] last_part [OF assms(3), of xs'] assms(1) have "ys = ys'" by simp
  with assms(1) show ?thesis by simp
qed

lemma hashed_text_inj: "hashed_text b k = hashed_text b' k' \<longleftrightarrow> b = b' \<and> k = k'"
proof
  assume "hashed_text b k = hashed_text b' k'"
  then have "b = b' \<and> itoa k = itoa k'"
    unfolding hashed_text_def using append_Cons_last_eq itoa_no_nul by metis
  then show "b = b' \<and> k = k'" using digits_value_itoa by metis
qed simp

section \<open>Counting occurrences\<close>

lemma count_before:
  "length (filter (\<lambda>p. Q (xs ! p) \<and> m \<le> length (filter Q (take p xs))) [0..<length xs]) =
    length (filter Q xs) - m"
proof (induction xs rule: rev_induct)
  case Nil
  then show ?case by simp
next
  case (snoc x xs)
  have "filter (\<lambda>p. Q ((xs @ [x]) ! p) \<and> m \<le> length (filter Q (take p (xs @ [x])))) [0..<length xs] =
      filter (\<lambda>p. Q (xs ! p) \<and> m \<le> length (filter Q (take p xs))) [0..<length xs]"
    by (rule filter_cong) (auto simp: nth_append)
  with snoc show ?case by (auto simp: Suc_diff_le)
qed

lemma ranks_before:
  "(\<lambda>p. length (filter Q (take p xs))) ` {p. p < length xs \<and> Q (xs ! p)} = {..<length (filter Q xs)}"
proof (induction xs rule: rev_induct)
  case Nil
  then show ?case by simp
next
  case (snoc x xs)
  have positions: "{p. p < length (xs @ [x]) \<and> Q ((xs @ [x]) ! p)} =
      {p. p < length xs \<and> Q (xs ! p)} \<union> (if Q x then {length xs} else {})"
    by (auto simp: nth_append less_Suc_eq)
  have earlier: "(\<lambda>p. length (filter Q (take p (xs @ [x])))) ` {p. p < length xs \<and> Q (xs ! p)} =
      (\<lambda>p. length (filter Q (take p xs))) ` {p. p < length xs \<and> Q (xs ! p)}"
    by (rule image_cong) auto
  show ?case
    unfolding positions image_Un earlier snoc.IH by (cases "Q x") (auto simp: lessThan_Suc)
qed

text \<open>A property of the items can be counted in the given order or in the sorted one.\<close>

lemma mset_sorted_items: "mset (sorted_items ds) = mset (enumerate 0 ds)"
  by (simp add: sorted_items_def)

lemma length_sorted_items [simp]: "length (sorted_items ds) = length ds"
  by (simp add: sorted_items_def)

lemma filter_sorted_items:
  "length (filter P (enumerate 0 ds)) = length (filter P (sorted_items ds))"
  by (metis mset_filter mset_sorted_items size_mset)

lemma filter_by_position:
  "length (filter P xs) = length (filter (\<lambda>p. P (xs ! p)) [0..<length xs])"
proof -
  have "filter P xs = map ((!) xs) (filter (P \<circ> (!) xs) [0..<length xs])"
    by (simp flip: filter_map add: map_nth)
  then show ?thesis by (simp add: o_def)
qed

lemma filter_enumerate_snd: "length (filter (\<lambda>x. P (snd x)) (enumerate n ds)) = length (filter P ds)"
  by (induction ds arbitrary: n) auto

lemma position_of_nth:
  "distinct (map fst items) \<Longrightarrow> p < length items \<Longrightarrow> position_of items (fst (items ! p)) = p"
proof (induction items arbitrary: p)
  case (Cons x items)
  show ?case
  proof (cases p)
    case 0
    then show ?thesis by (cases x) (simp add: position_of_def)
  next
    case (Suc q)
    with Cons.prems have "fst (items ! q) \<in> fst ` set items" by simp
    moreover have "fst x \<notin> fst ` set items" using Cons.prems(1) by simp
    ultimately have "fst (items ! q) \<noteq> fst x" by metis
    with Suc Cons show ?thesis by (cases x) (auto simp: position_of_def)
  qed
qed simp

lemma distinct_sorted_items: "distinct (map fst (sorted_items ds))"
proof -
  have "mset (map fst (sorted_items ds)) = mset (map fst (enumerate 0 ds))"
    unfolding mset_map mset_sorted_items ..
  then show ?thesis by (metis distinct_upt map_fst_enumerate mset_eq_imp_distinct_iff)
qed

section \<open>What a baseline removes\<close>

definition occurrences_in :: "(string \<times> string) list \<Rightarrow> string \<Rightarrow> diagnostic list \<Rightarrow> string \<Rightarrow> nat" where
  "occurrences_in sources dir ds b =
    length (filter (\<lambda>d. eligible d \<and> base_text sources dir d = b) ds)"

definition finding_keys :: "(string \<times> string) list \<Rightarrow> string \<Rightarrow> diagnostic list \<Rightarrow> (string \<times> nat) set" where
  "finding_keys sources dir ds = {(b, k). k < occurrences_in sources dir ds b}"

definition key_text :: "string \<times> nat \<Rightarrow> string" where
  "key_text key = hashed_text (fst key) (snd key)"

lemma key_text_inj: "key_text a = key_text b \<longleftrightarrow> a = b"
  by (cases a; cases b) (simp add: key_text_def hashed_text_inj)

lemma occurrences_sorted:
  "length (filter (same_base sources dir b) (sorted_items ds)) = occurrences_in sources dir ds b"
proof -
  have "length (filter (same_base sources dir b) (sorted_items ds)) =
      length (filter (\<lambda>x. eligible (snd x) \<and> base_text sources dir (snd x) = b) (enumerate 0 ds))"
    unfolding filter_sorted_items by (simp add: same_base_def cong: filter_cong)
  then show ?thesis
    using filter_enumerate_snd [of "\<lambda>d. eligible d \<and> base_text sources dir d = b" 0 ds]
    by (simp add: occurrences_in_def)
qed

lemma item_keys:
  "{item_key sources dir (sorted_items ds) p | p. p < length ds \<and> eligible (snd (sorted_items ds ! p))} =
    finding_keys sources dir ds"
proof -
  let ?items = "sorted_items ds"
  have "(b, k) \<in> {item_key sources dir ?items p | p. p < length ds \<and> eligible (snd (?items ! p))} \<longleftrightarrow>
      k \<in> (\<lambda>p. length (filter (same_base sources dir b) (take p ?items))) `
        {p. p < length ?items \<and> same_base sources dir b (?items ! p)}" for b k
    by (auto simp: item_key_def same_base_def Let_def)
  then show ?thesis
    unfolding ranks_before finding_keys_def by (auto simp: occurrences_sorted)
qed

lemma item_key_base:
  "item_key sources dir items p = (base_text sources dir (snd (items ! p)),
    length (filter (same_base sources dir (base_text sources dir (snd (items ! p)))) (take p items)))"
  by (simp add: item_key_def Let_def)

lemma ranks_increase:
  "p < q \<Longrightarrow> q \<le> length xs \<Longrightarrow> Q (xs ! p) \<Longrightarrow>
    length (filter Q (take p xs)) < length (filter Q (take q xs))"
proof -
  assume pq: "p < q" "q \<le> length xs" "Q (xs ! p)"
  then have "take q xs = take p xs @ xs ! p # take (q - Suc p) (drop (Suc p) xs)"
    by (metis Cons_nth_drop_Suc Suc_diff_Suc le_add_diff_inverse less_imp_le_nat less_le_trans
        take_Suc_Cons take_add)
  with pq(3) show ?thesis by simp
qed

lemma item_key_inj:
  assumes "p < length items" "q < length items" "eligible (snd (items ! p))" "eligible (snd (items ! q))"
    and "item_key sources dir items p = item_key sources dir items q"
  shows "p = q"
proof (rule ccontr)
  assume "p \<noteq> q"
  let ?Q = "same_base sources dir (base_text sources dir (snd (items ! p)))"
  have base: "base_text sources dir (snd (items ! q)) = base_text sources dir (snd (items ! p))"
    using assms(5) by (simp add: item_key_base)
  have "length (filter ?Q (take p items)) = length (filter ?Q (take q items))"
    using assms(5) by (simp add: item_key_base base)
  moreover have "?Q (items ! p)" "?Q (items ! q)" using assms(3,4) base by (simp_all add: same_base_def)
  ultimately show False
    using ranks_increase [of p q items ?Q] ranks_increase [of q p items ?Q] \<open>p \<noteq> q\<close> assms(1,2)
    by (cases p q rule: linorder_cases) auto
qed

lemma item_entry_fingerprint:
  "eligible (snd (items ! p)) \<Longrightarrow> en_fingerprint (item_entry sha sources dir items p) =
    hex_encode (sha (key_text (item_key sources dir items p)))"
  by (simp add: item_entry_def make_entry_def key_text_def split: prod.split)

lemma item_entry_ineligible:
  "\<not> eligible (snd (items ! p)) \<Longrightarrow> en_fingerprint (item_entry sha sources dir items p) = []"
  by (simp add: item_entry_def zero_entry_def)

definition fingerprints_of ::
  "(string \<Rightarrow> string) \<Rightarrow> (string \<times> string) list \<Rightarrow> string \<Rightarrow> diagnostic list \<Rightarrow> string set" where
  "fingerprints_of sha sources dir ds =
    (\<lambda>key. hex_encode (sha (key_text key))) ` finding_keys sources dir ds"

definition sized :: "(string \<Rightarrow> string) \<Rightarrow> bool" where
  "sized sha = (\<forall>t. length (sha t) = 32)"

lemma hex_sha_nonempty: "sized sha \<Longrightarrow> hex_encode (sha t) \<noteq> []"
  by (metis length_hex_encode list.size(3) mult_eq_0_iff sized_def zero_neq_numeral)

lemma Generate_fingerprints:
  assumes "sized sha"
  shows "en_fingerprint ` set (bf_entries (Generate sha ds sources dir)) =
    fingerprints_of sha sources dir ds"
proof -
  let ?items = "sorted_items ds"
  have "en_fingerprint ` set (bf_entries (Generate sha ds sources dir)) =
      {en_fingerprint (item_entry sha sources dir ?items p) | p. p < length ds \<and>
        en_fingerprint (item_entry sha sources dir ?items p) \<noteq> []}"
    by (auto simp: Generate_def fingerprintDiagnostics_def sortEntries_def Let_def
        fingerprint_loop_items)
  also have "\<dots> = {hex_encode (sha (key_text (item_key sources dir ?items p))) | p. p < length ds \<and>
        eligible (snd (?items ! p))}"
  proof -
    have "en_fingerprint (item_entry sha sources dir ?items p) \<noteq> [] \<longleftrightarrow> eligible (snd (?items ! p))" for p
      using hex_sha_nonempty [OF assms] item_entry_fingerprint
      by (cases "eligible (snd (?items ! p))") (auto simp: item_entry_def zero_entry_def)
    then show ?thesis by (auto simp: item_entry_fingerprint intro: item_entry_fingerprint [symmetric])
  qed
  also have "\<dots> = fingerprints_of sha sources dir ds"
    unfolding fingerprints_of_def item_keys [symmetric] by auto
  finally show ?thesis .
qed

lemma apply_loop_remaining:
  "fst (apply_loop existing entries indexed (remaining, matched) xs) =
    remaining @ map snd (filter (\<lambda>x. en_fingerprint (entries ! indexed (fst x)) = [] \<or>
      en_fingerprint (entries ! indexed (fst x)) \<notin> existing) xs)"
  by (induction existing entries indexed "(remaining, matched)" xs
      arbitrary: remaining matched rule: apply_loop.induct)
    (auto simp: Let_def)

definition removed_by :: "(string \<Rightarrow> string) \<Rightarrow> string set \<Rightarrow> string \<times> nat \<Rightarrow> bool" where
  "removed_by sha existing key = (hex_encode (sha (key_text key)) \<in> existing)"

text \<open>The remaining findings, counted by position in the sorted order.\<close>

lemma Apply_remaining_count:
  assumes "sized sha"
  shows "length (filter P (mr_remaining (Apply sha f ds sources dir))) =
    length (filter (\<lambda>p. P (snd (sorted_items ds ! p)) \<and>
      (eligible (snd (sorted_items ds ! p)) \<longrightarrow>
        \<not> removed_by sha (en_fingerprint ` set (bf_entries f)) (item_key sources dir (sorted_items ds) p)))
      [0..<length ds])"
proof -
  let ?items = "sorted_items ds"
  let ?entries = "map (item_entry sha sources dir ?items) [0..<length ds]"
  let ?left = "\<lambda>x. en_fingerprint (?entries ! position_of ?items (fst x)) = [] \<or>
    en_fingerprint (?entries ! position_of ?items (fst x)) \<notin> en_fingerprint ` set (bf_entries f)"
  have "mr_remaining (Apply sha f ds sources dir) = map snd (filter ?left (enumerate 0 ds))"
    using apply_loop_remaining [of "en_fingerprint ` set (bf_entries f)" ?entries
        "position_of ?items" "[]" "[]" "enumerate 0 ds"]
    by (cases "apply_loop (en_fingerprint ` set (bf_entries f)) ?entries (position_of ?items) ([], [])
        (enumerate 0 ds)")
      (simp add: Apply_def fingerprintDiagnostics_def Let_def fingerprint_loop_items)
  then have "length (filter P (mr_remaining (Apply sha f ds sources dir))) =
      length (filter (\<lambda>x. ?left x \<and> P (snd x)) (enumerate 0 ds))"
    by (simp add: filter_map o_def conj_commute)
  also have "\<dots> = length (filter (\<lambda>p. ?left (?items ! p) \<and> P (snd (?items ! p))) [0..<length ds])"
    unfolding filter_sorted_items filter_by_position [of _ ?items] by simp
  also have "filter (\<lambda>p. ?left (?items ! p) \<and> P (snd (?items ! p))) [0..<length ds] =
      filter (\<lambda>p. P (snd (?items ! p)) \<and> (eligible (snd (?items ! p)) \<longrightarrow>
        \<not> removed_by sha (en_fingerprint ` set (bf_entries f)) (item_key sources dir ?items p)))
        [0..<length ds]"
  proof (rule filter_cong [OF refl])
    fix p assume "p \<in> set [0..<length ds]"
    then have "position_of ?items (fst (?items ! p)) = p" and p: "p < length ds"
      using position_of_nth [OF distinct_sorted_items, of p ds] by auto
    then show "(?left (?items ! p) \<and> P (snd (?items ! p))) = (P (snd (?items ! p)) \<and>
        (eligible (snd (?items ! p)) \<longrightarrow> \<not> removed_by sha (en_fingerprint ` set (bf_entries f))
          (item_key sources dir ?items p)))"
      using hex_sha_nonempty [OF assms]
      by (cases "eligible (snd (?items ! p))")
        (simp_all add: item_entry_fingerprint item_entry_ineligible removed_by_def conj_commute)
  qed
  finally show ?thesis .
qed

text \<open>No collisions among the texts hashed for two runs.\<close>

definition collision_free ::
  "(string \<Rightarrow> string) \<Rightarrow> (string \<times> nat) set \<Rightarrow> bool" where
  "collision_free sha keys = inj_on sha (key_text ` keys)"

lemma removed_by_keys:
  assumes "collision_free sha (A \<union> B)" and "key \<in> B"
  shows "removed_by sha ((\<lambda>key. hex_encode (sha (key_text key))) ` A) key \<longleftrightarrow> key \<in> A"
proof
  assume "removed_by sha ((\<lambda>key. hex_encode (sha (key_text key))) ` A) key"
  then obtain a where a: "a \<in> A" "sha (key_text key) = sha (key_text a)"
    by (auto simp: removed_by_def hex_encode_inj)
  with assms have "key_text key = key_text a"
    unfolding collision_free_def by (auto dest: inj_onD)
  with a show "key \<in> A" by (simp add: key_text_inj)
qed (auto simp: removed_by_def)

text \<open>
  C4: a baseline removes as many findings as it lists, no more and no fewer. Applied to any later
  findings, the baseline generated from earlier ones leaves, of every kind of finding (same path,
  rule, code, message and excerpt), exactly those beyond the number it listed, and every finding
  that has no fingerprint.
\<close>

theorem Apply_counts:
  assumes "sized sha"
    and "collision_free sha (finding_keys sources dir old \<union> finding_keys sources' dir new)"
  shows "let remaining = mr_remaining (Apply sha (Generate sha old sources dir) new sources' dir) in
    (\<forall>b. occurrences_in sources' dir remaining b =
      occurrences_in sources' dir new b - occurrences_in sources dir old b) \<and>
    (\<forall>d. \<not> eligible d \<longrightarrow> count (mset remaining) d = count (mset new) d)"
proof -
  let ?items = "sorted_items new"
  let ?r = "mr_remaining (Apply sha (Generate sha old sources dir) new sources' dir)"
  have removed: "removed_by sha (en_fingerprint ` set (bf_entries (Generate sha old sources dir)))
      (item_key sources' dir ?items p) \<longleftrightarrow> item_key sources' dir ?items p \<in> finding_keys sources dir old"
    if "p < length new" "eligible (snd (?items ! p))" for p
    unfolding Generate_fingerprints [OF assms(1)] fingerprints_of_def
    by (rule removed_by_keys [OF assms(2)]) (use that item_keys [of sources' dir new] in blast)
  note count = Apply_remaining_count [OF assms(1), of _ "Generate sha old sources dir" new sources' dir]
  have "occurrences_in sources' dir ?r b =
      occurrences_in sources' dir new b - occurrences_in sources dir old b" for b
  proof -
    have "occurrences_in sources' dir ?r b = length (filter (\<lambda>p. same_base sources' dir b (?items ! p) \<and>
        occurrences_in sources dir old b \<le> length (filter (same_base sources' dir b) (take p ?items)))
        [0..<length new])"
      unfolding occurrences_in_def [of sources' dir ?r] count
    proof (rule arg_cong [where f = length], rule filter_cong [OF refl])
      fix p assume "p \<in> set [0..<length new]"
      then have p: "p < length new" by simp
      show "((eligible (snd (?items ! p)) \<and> base_text sources' dir (snd (?items ! p)) = b) \<and>
          (eligible (snd (?items ! p)) \<longrightarrow> \<not> removed_by sha
            (en_fingerprint ` set (bf_entries (Generate sha old sources dir)))
            (item_key sources' dir ?items p))) =
        (same_base sources' dir b (?items ! p) \<and> occurrences_in sources dir old b
          \<le> length (filter (same_base sources' dir b) (take p ?items)))"
        using removed [OF p]
        by (auto simp: same_base_def [of sources' dir b "?items ! p"] item_key_base finding_keys_def)
    qed
    then show ?thesis
      using count_before [of "same_base sources' dir b" ?items "occurrences_in sources dir old b"]
      by (simp add: occurrences_sorted)
  qed
  moreover have "count (mset ?r) d = count (mset new) d" if "\<not> eligible d" for d
  proof -
    have "count (mset xs) d = length (filter (\<lambda>x. x = d) xs)" for xs :: "diagnostic list"
      by (induction xs) auto
    moreover have "length (filter (\<lambda>x. x = d) ?r) = length (filter (\<lambda>p. snd (?items ! p) = d) [0..<length new])"
      unfolding count
      by (rule arg_cong [where f = length], rule filter_cong [OF refl]) (use that in auto)
    moreover have "\<dots> = length (filter (\<lambda>x. x = d) new)"
      using filter_by_position [of "\<lambda>x. snd x = d" ?items] filter_sorted_items [of "\<lambda>x. snd x = d" new]
        filter_enumerate_snd [of "\<lambda>x. x = d" 0 new] by simp
    ultimately show ?thesis by simp
  qed
  ultimately show ?thesis by (simp add: Let_def)
qed

text \<open>A toy hash that keeps the end of the text: no collision where only the occurrence differs.\<close>

definition pad_hash :: "string \<Rightarrow> string" where
  "pad_hash t = take 32 (rev t @ replicate 32 nul)"

theorem Apply_counts_witness:
  "let d = \<lparr>d_ruleID = ''r'', d_code = [], d_severity = SeverityHint, d_category = CategoryStyle,
        d_message = ''m'', d_filename = ''/p/a.pwn'',
        d_range = \<lparr>r_start = zero_position, r_end = zero_position\<rparr>, d_notes = [],
        d_suggestions = [], d_fix = None\<rparr> in
    occurrences_in [] ''/p'' (mr_remaining (Apply pad_hash (Generate pad_hash [d] [] ''/p'') [d, d]
      [] ''/p'')) (base_text [] ''/p'' d) = 1"
proof -
  let ?d = "\<lparr>d_ruleID = ''r'', d_code = [], d_severity = SeverityHint, d_category = CategoryStyle,
        d_message = ''m'', d_filename = ''/p/a.pwn'',
        d_range = \<lparr>r_start = zero_position, r_end = zero_position\<rparr>, d_notes = [],
        d_suggestions = [], d_fix = None\<rparr>"
  let ?b = "base_text [] ''/p'' ?d"
  have d: "eligible ?d" by (simp add: eligible_def)
  have keys: "finding_keys [] ''/p'' [?d] \<union> finding_keys [] ''/p'' [?d, ?d] \<subseteq> {(?b, 0), (?b, 1)}"
    by (auto simp: finding_keys_def occurrences_in_def d less_Suc_eq split: if_splits)
  have "inj_on pad_hash (key_text ` {(?b, 0), (?b, 1)})"
    by (simp add: key_text_def hashed_text_def pad_hash_def itoa.simps)
  then have "collision_free pad_hash (finding_keys [] ''/p'' [?d] \<union> finding_keys [] ''/p'' [?d, ?d])"
    unfolding collision_free_def by (rule inj_on_subset) (use keys in blast)
  moreover have "sized pad_hash" by (auto simp: sized_def pad_hash_def min_def)
  ultimately have "occurrences_in [] ''/p'' (mr_remaining (Apply pad_hash (Generate pad_hash [?d] [] ''/p'')
      [?d, ?d] [] ''/p'')) ?b = occurrences_in [] ''/p'' [?d, ?d] ?b - occurrences_in [] ''/p'' [?d] ?b"
    using Apply_counts [of pad_hash "[]" "''/p''" "[?d]" "[]" "[?d, ?d]"] by (simp add: Let_def)
  then show ?thesis by (simp add: Let_def occurrences_in_def d)
qed

section \<open>Stale entries\<close>

lemma apply_loop_matched:
  assumes "\<forall>(k, e)\<in>set matched. en_fingerprint e = k" and "distinct (map fst matched)"
    and "apply_loop existing entries indexed (remaining, matched) xs = (r, m)"
  shows "(\<forall>(k, e)\<in>set m. en_fingerprint e = k) \<and> distinct (map fst m) \<and>
    fst ` set m = fst ` set matched \<union>
      {y \<in> (\<lambda>x. en_fingerprint (entries ! indexed (fst x))) ` set xs. y \<noteq> [] \<and> y \<in> existing}"
  using assms
proof (induction xs arbitrary: remaining matched)
  case Nil
  then show ?case by simp
next
  case (Cons x xs)
  obtain i d where x: "x = (i, d)" by force
  let ?e = "entries ! indexed i"
  have put: "\<forall>(k, e)\<in>set (alist_set (en_fingerprint ?e) ?e matched). en_fingerprint e = k"
    using Cons.prems(1) set_alist_set [of "en_fingerprint ?e" ?e matched] by auto
  show ?case
  proof (cases "en_fingerprint ?e \<noteq> [] \<and> en_fingerprint ?e \<in> existing")
    case True
    then have "apply_loop existing entries indexed
        (remaining, alist_set (en_fingerprint ?e) ?e matched) xs = (r, m)"
      using Cons.prems(3) by (simp add: x Let_def)
    from Cons.IH [OF put _ this] Cons.prems(2) True show ?thesis by (auto simp: x)
  next
    case False
    then have "apply_loop existing entries indexed (remaining @ [d], matched) xs = (r, m)"
      using Cons.prems(3) by (auto simp: x Let_def split: if_splits)
    from Cons.IH [OF Cons.prems(1,2) this] False show ?thesis by (auto simp: x)
  qed
qed

lemma nonempty_fingerprints:
  assumes "sized sha"
  shows "en_fingerprint (item_entry sha sources dir items p) = [] \<longleftrightarrow> \<not> eligible (snd (items ! p))"
  using hex_sha_nonempty [OF assms] item_entry_ineligible item_entry_fingerprint by metis

lemma fingerprints_by_position:
  assumes "sized sha"
  shows "(\<lambda>p. en_fingerprint (item_entry sha sources dir (sorted_items ds) p)) `
    {p. p < length ds \<and> eligible (snd (sorted_items ds ! p))} = fingerprints_of sha sources dir ds"
  unfolding fingerprints_of_def item_keys [symmetric] by (auto simp: item_entry_fingerprint)

lemma fingerprints_by_index:
  assumes "sized sha"
  shows "{y \<in> (\<lambda>x. en_fingerprint (map (item_entry sha sources dir (sorted_items ds)) [0..<length ds] !
        position_of (sorted_items ds) (fst x))) ` set (enumerate 0 ds). y \<noteq> []} =
      fingerprints_of sha sources dir ds"
    (is "{y \<in> ?fp ` _. _} = _")
proof -
  let ?items = "sorted_items ds"
  let ?h = "\<lambda>p. en_fingerprint (item_entry sha sources dir ?items p)"
  have fp: "?fp (?items ! p) = ?h p" if "p < length ds" for p
    using position_of_nth [OF distinct_sorted_items, of p ds] that by simp
  have "set (enumerate 0 ds) = set ?items" by (metis mset_sorted_items set_mset_mset)
  also have "\<dots> = (!) ?items ` {..<length ds}" by (auto simp: set_conv_nth)
  finally have "?fp ` set (enumerate 0 ds) = ?h ` {..<length ds}"
    using fp by (simp add: image_image)
  then have "{y \<in> ?fp ` set (enumerate 0 ds). y \<noteq> []} =
      ?h ` {p. p < length ds \<and> eligible (snd (?items ! p))}"
    by (auto simp: nonempty_fingerprints [OF assms])
  then show ?thesis unfolding fingerprints_by_position [OF assms] .
qed

text \<open>
  C11: the stale entries are counted exactly. For a baseline without repeated or empty fingerprints,
  Current keeps the entries some current finding still has, each once and in order, and Stale is the
  number of the others.
\<close>

theorem Apply_stale:
  assumes "sized sha" and "distinct (map en_fingerprint (bf_entries f))"
    and "[] \<notin> set (map en_fingerprint (bf_entries f))"
  shows "let m = Apply sha f ds sources dir; listed = set (map en_fingerprint (bf_entries f));
      current = bf_entries (mr_current m) in
    en_fingerprint ` set current = listed \<inter> fingerprints_of sha sources dir ds \<and>
    distinct (map en_fingerprint current) \<and> sorted_wrt (\<lambda>a b. \<not> entry_less b a) current \<and>
    mr_stale m = int (card (listed - fingerprints_of sha sources dir ds))"
proof -
  let ?items = "sorted_items ds"
  let ?entries = "map (item_entry sha sources dir ?items) [0..<length ds]"
  let ?listed = "set (map en_fingerprint (bf_entries f))"
  let ?found = "fingerprints_of sha sources dir ds"
  obtain r m where run: "apply_loop ?listed ?entries (position_of ?items) ([], []) (enumerate 0 ds) = (r, m)"
    by force
  have m: "\<forall>(k, e)\<in>set m. en_fingerprint e = k" "distinct (map fst m)"
    using apply_loop_matched [OF _ _ run] by simp_all
  have found: "{y \<in> A. y \<noteq> [] \<and> y \<in> ?listed} = ?listed \<inter> {y \<in> A. y \<noteq> []}" for A :: "string set"
    by auto
  have matched: "fst ` set m = ?listed \<inter> ?found"
    unfolding fingerprints_by_index [OF assms(1), of sources dir ds, symmetric] found [symmetric]
    using apply_loop_matched [OF _ _ run] by simp
  have keys: "map en_fingerprint (map snd m) = map fst m" using m(1) by auto
  have dist: "distinct (map en_fingerprint (sortEntries (map snd m)))"
    unfolding sortEntries_def
    by (metis keys m(2) mset_eq_imp_distinct_iff mset_map mset_stable_sort)
  have "length m = card (?listed \<inter> ?found)"
    using m(2) matched by (metis distinct_card length_map list.set_map)
  moreover have "length (bf_entries f) = card ?listed"
    using assms(2) by (metis distinct_card length_map)
  moreover have "card ?listed = card (?listed \<inter> ?found) + card (?listed - ?found)"
    by (metis List.finite_set card_Int_Diff)
  moreover have "en_fingerprint ` snd ` set m = fst ` set m"
    using keys by (metis list.set_map)
  ultimately show ?thesis
    using m matched run dist entry_less.sorted_stable_sort [of "map snd m"]
    by (simp add: Apply_def fingerprintDiagnostics_def fingerprint_loop_items Let_def sortEntries_def)
qed

theorem Apply_stale_witness:
  "mr_stale (Apply pad_hash \<lparr>bf_version = 1, bf_entries = [\<lparr>en_fingerprint = ''ab'', en_ruleID = ''r'',
      en_path = ''a.pwn'', en_message = ''m'', en_line = 3\<rparr>]\<rparr> [] [] ''/p'') = 1"
proof -
  let ?f = "\<lparr>bf_version = 1, bf_entries = [\<lparr>en_fingerprint = ''ab'', en_ruleID = ''r'',
      en_path = ''a.pwn'', en_message = ''m'', en_line = 3\<rparr>]\<rparr>"
  have "fingerprints_of pad_hash [] ''/p'' [] = {}"
    by (simp add: fingerprints_of_def finding_keys_def occurrences_in_def)
  moreover have "sized pad_hash" by (auto simp: sized_def pad_hash_def min_def)
  ultimately show ?thesis
    using Apply_stale [of pad_hash ?f "[]" "[]" "''/p''"] by (simp add: Let_def)
qed

section \<open>Generated baselines are valid\<close>

lemma relativePath_relative:
  assumes "IsAbs projectDir"
  shows "\<not> IsAbs (relativePath projectDir p)" and "Clean (relativePath projectDir p) = relativePath projectDir p"
    and "relativePath projectDir p \<noteq> []"
proof -
  have "IsAbs (projectDir @ ''/'' @ p)" if "projectDir \<noteq> []" using assms that
    by (cases projectDir) (auto simp: IsAbs_def has_prefix_def)
  moreover have "projectDir \<noteq> []" using assms by (auto simp: IsAbs_def has_prefix_def)
  ultimately have "IsAbs (path_join projectDir p)"
    using assms by (simp add: path_join_def)
  then obtain r where "Rel projectDir (if \<not> IsAbs p then path_join projectDir p else p) = Some r" "\<not> IsAbs r"
    using Rel_abs [OF assms] by (metis (full_types))
  then show "\<not> IsAbs (relativePath projectDir p)"
    "Clean (relativePath projectDir p) = relativePath projectDir p" "relativePath projectDir p \<noteq> []"
    by (simp_all add: relativePath_def Let_def Clean_idem)
qed

definition well_formed_entry :: "entry \<Rightarrow> bool" where
  "well_formed_entry e = (validFingerprint (en_fingerprint e) \<and> trim_space (en_ruleID e) \<noteq> [] \<and>
    en_path e \<noteq> [] \<and> \<not> IsAbs (en_path e) \<and> Clean (en_path e) = en_path e \<and>
    trim_space (en_message e) \<noteq> [] \<and> en_line e \<ge> 1)"

lemma validate_entries_None:
  "validate_entries k seen es = None \<longleftrightarrow> (\<forall>e\<in>set es. well_formed_entry e) \<and>
    distinct (map en_fingerprint es) \<and> set seen \<inter> en_fingerprint ` set es = {}"
  by (induction es arbitrary: k seen) (auto simp: well_formed_entry_def)

text \<open>
  What Generate writes, Validate accepts: with a hash of 32 bytes without collisions on these
  findings and an absolute project directory, whenever every finding that gets an entry has a rule
  and a message that are not blank.
\<close>

theorem Generate_valid:
  assumes "sized sha" and "collision_free sha (finding_keys sources dir ds)" and "IsAbs dir"
    and "\<forall>d\<in>set ds. eligible d \<longrightarrow> trim_space (d_ruleID d) \<noteq> [] \<and> trim_space (d_message d) \<noteq> []"
  shows "Validate (Generate sha ds sources dir) = None"
proof -
  let ?items = "sorted_items ds"
  let ?entries = "filter (\<lambda>e. en_fingerprint e \<noteq> []) (map (item_entry sha sources dir ?items) [0..<length ds])"
  have gen: "bf_entries (Generate sha ds sources dir) = sortEntries ?entries"
    by (simp add: Generate_def fingerprintDiagnostics_def fingerprint_loop_items Let_def)
  have wf: "well_formed_entry e" if e: "e \<in> set ?entries" for e
  proof -
    from e obtain p where p: "p < length ds" "e = item_entry sha sources dir ?items p"
      "eligible (snd (?items ! p))"
      using item_entry_ineligible by fastforce
    have "?items ! p \<in> set (enumerate 0 ds)"
      using p(1) by (metis length_sorted_items mset_sorted_items nth_mem set_mset_mset)
    then have "fst (?items ! p) < length ds \<and> ds ! fst (?items ! p) = snd (?items ! p)"
      by (simp add: in_set_enumerate_eq)
    then have "snd (?items ! p) \<in> set ds" by (auto dest: nth_mem)
    with assms(4) p(3) have "trim_space (d_ruleID (snd (?items ! p))) \<noteq> []"
      "trim_space (d_message (snd (?items ! p))) \<noteq> []" by auto
    then show ?thesis
      using p(2,3) relativePath_relative [OF assms(3)] assms(1) hex_encode_hex
      by (auto simp: item_entry_def make_entry_def well_formed_entry_def validFingerprint_def
          sized_def split: prod.split)
  qed
  have "distinct (map en_fingerprint ?entries)"
  proof -
    let ?h = "\<lambda>p. en_fingerprint (item_entry sha sources dir ?items p)"
    have "p = q" if pq: "p < length ds" "q < length ds" "eligible (snd (?items ! p))"
      "eligible (snd (?items ! q))" "?h p = ?h q" for p q
    proof -
      from pq have "item_key sources dir ?items p \<in> finding_keys sources dir ds"
        "item_key sources dir ?items q \<in> finding_keys sources dir ds"
        using item_keys [of sources dir ds] by blast+
      moreover have "sha (key_text (item_key sources dir ?items p)) = sha (key_text (item_key sources dir ?items q))"
        using pq by (simp add: item_entry_fingerprint hex_encode_inj)
      ultimately have "key_text (item_key sources dir ?items p) = key_text (item_key sources dir ?items q)"
        using assms(2) unfolding collision_free_def by (auto dest: inj_onD)
      then show "p = q" using item_key_inj pq by (metis key_text_inj length_sorted_items)
    qed
    then have "inj_on ?h {p. p < length ds \<and> eligible (snd (?items ! p))}"
      by (auto intro: inj_onI)
    then show ?thesis
      by (auto simp: filter_map o_def distinct_map nonempty_fingerprints [OF assms(1)] inj_on_def)
  qed
  then have "distinct (map en_fingerprint (sortEntries ?entries))"
    unfolding sortEntries_def by (metis mset_eq_imp_distinct_iff mset_map mset_stable_sort)
  with wf show ?thesis
    by (simp add: Validate_def validate_entries_None gen sortEntries_def)
      (simp add: Generate_def fingerprintDiagnostics_def Let_def)
qed

theorem Generate_valid_witness:
  "Validate (Generate pad_hash [\<lparr>d_ruleID = ''r'', d_code = [], d_severity = SeverityHint,
      d_category = CategoryStyle, d_message = ''m'', d_filename = ''a.pwn'',
      d_range = \<lparr>r_start = zero_position, r_end = zero_position\<rparr>, d_notes = [],
      d_suggestions = [], d_fix = None\<rparr>] [] ''/p'') = None"
proof (rule Generate_valid)
  let ?d = "\<lparr>d_ruleID = ''r'', d_code = [], d_severity = SeverityHint,
      d_category = CategoryStyle, d_message = ''m'', d_filename = ''a.pwn'',
      d_range = \<lparr>r_start = zero_position, r_end = zero_position\<rparr>, d_notes = [],
      d_suggestions = [], d_fix = None\<rparr>"
  have "finding_keys [] ''/p'' [?d] \<subseteq> {(base_text [] ''/p'' ?d, 0)}"
    by (auto simp: finding_keys_def occurrences_in_def split: if_splits)
  then have "inj_on pad_hash (key_text ` finding_keys [] ''/p'' [?d])"
    by (auto simp: inj_on_def)
  then show "collision_free pad_hash (finding_keys [] ''/p'' [?d])" by (simp add: collision_free_def)
  show "sized pad_hash" by (auto simp: sized_def pad_hash_def min_def)
qed (simp_all add: IsAbs_def has_prefix_def trim_space_graphic graphic_def)

end
