(* ===== verification/Syntax_Tree.thy ===== *)
theory Syntax_Tree
  imports Source
begin

text \<open>
  The concrete syntax tree as the analyses see it, and the queries of \<open>internal/source/walk\<close>
  (\<open>walk.go\<close>, \<open>query.go\<close>, \<open>predicates.go\<close>). The tree comes from a parser outside the repository: a
  node carries what the code reads of it, the text of a node is a parameter of the walk model. A Go
  pointer to a node is its number \<open>n_id\<close>; maps keyed by pointers are functions of that number.
\<close>

section \<open>Nodes\<close>

text \<open>The kinds of nodes and tokens the modelled code names; the others are numbered.\<close>

datatype kind =
    KindSourceFile | KindFunctionDefinition | KindFunctionDeclaration | KindParameterList
  | KindParameter | KindVariableDeclaration | KindVariableDeclarator | KindEnumDeclaration
  | KindEnumEntry | KindDimension | KindTaggedType
  | KindBlock | KindIfStatement | KindWhileStatement | KindDoWhileStatement | KindForStatement
  | KindSwitchStatement | KindCaseClause | KindDefaultClause | KindGotoStatement
  | KindLabelStatement | KindReturnStatement | KindBreakStatement | KindContinueStatement
  | KindStateStatement | KindExpressionStatement | KindEmptyStatement
  | KindIdentifier | KindLiteral | KindUnaryExpression | KindBinaryExpression
  | KindTernaryExpression | KindAssignmentExpression | KindUpdateExpression | KindCallExpression
  | KindSubscriptExpression | KindTaggedExpression | KindParenthesizedExpression
  | KindExpressionList | KindSizeofExpression | KindTagofExpression | KindDefinedExpression
  | KindDirectiveDefine | KindDirectiveUndef | KindDirectiveElse | KindDirectiveEndif
  | KindDirectiveEndinput | KindConditionalRegion | KindConditionalBranch | KindSharedConditional
  | KindConditionalFunction | KindConditionalSplice | KindMacroInvocation
  | KindMacroInvocationBlock | KindMacroBody | KindInvalid | KindOther nat

datatype token_kind =
    Plus | Minus | Star | Slash | Percent | Shl | Shr | Ushr | Amp | Pipe | Caret | Tilde | Bang
  | AndAnd | OrOr | Eq | NotEq | Lt | Gt | LtEq | GtEq | Assign | PlusPlus | MinusMinus | Dot
  | LParen | RParen | LBracket | RBracket | LBrace | RBrace | Comma | Hash | EndOfFile
  | KwNull | KwStatic | KwConst | KwPublic | IntLiteral | Identifier | TokenOther nat

datatype node =
  Node (n_id: nat) (n_kind: kind) (n_tok: token_kind) (n_start: int) (n_end: int)
    (n_hasError: bool) (n_fields: "(string \<times> node) list") (n_children: "node list")

definition field :: "node \<Rightarrow> string \<Rightarrow> node option" where
  "field n name = map_of (n_fields n) name"

lemma size_child [termination_simp]: "c \<in> set (n_children n) \<Longrightarrow> size c < size n"
  by (cases n) (simp, metis less_SucI less_add_Suc2 size_list_estimation' order_refl less_Suc_eq_le
      add_Suc_right le_add2 le_trans)

lemma size_field [termination_simp]: "field n name = Some c \<Longrightarrow> size c < size n"
proof (cases n)
  case (Node i k t s e b fs cs)
  assume "field n name = Some c"
  with Node have "(name, c) \<in> set fs" by (auto simp: field_def dest: map_of_SomeD)
  then have "size c \<le> size_list (size_prod (\<lambda>_. 0) size) fs"
    by (induction fs) (auto simp: less_Suc_eq_le)
  with Node show ?thesis by simp
qed

lemma size_children [termination_simp]: "size_list size (n_children n) < size n"
  by (cases n) simp

text \<open>The nodes of a tree in preorder, the order in which the code visits it.\<close>

fun All_nodes :: "node \<Rightarrow> node list" where
  "All_nodes (Node i k t s e b fs cs) = Node i k t s e b fs cs # concat (map All_nodes cs)"

section \<open>The index\<close>

text \<open>
  \<open>Index.add\<close>: the parent of every node, the nodes by kind and the define and undef directives, all
  in preorder. The root has no parent.
\<close>

record index =
  ix_parents :: "(nat \<times> node option) list"
  ix_nodes :: "node list"
  ix_directives :: "node list"

fun index_add :: "node \<Rightarrow> node option \<Rightarrow> index \<Rightarrow> index" where
  "index_add (Node i k t s e b fs cs) parent ix =
    (let n = Node i k t s e b fs cs;
         ix = ix\<lparr>ix_parents := (i, parent) # ix_parents ix, ix_nodes := ix_nodes ix @ [n],
           ix_directives := (if k = KindDirectiveDefine \<or> k = KindDirectiveUndef
             then ix_directives ix @ [n] else ix_directives ix)\<rparr>
     in fold (\<lambda>c ix. index_add c (Some n) ix) cs ix)"

definition NewIndex :: "node \<Rightarrow> index" where
  "NewIndex root = index_add root None \<lparr>ix_parents = [], ix_nodes = [], ix_directives = []\<rparr>"

definition index_parent :: "index \<Rightarrow> node \<Rightarrow> node option" where
  "index_parent ix n = (case map_of (ix_parents ix) (n_id n) of None \<Rightarrow> None | Some p \<Rightarrow> p)"

definition OfKind :: "index \<Rightarrow> kind \<Rightarrow> node list" where
  "OfKind ix k = filter (\<lambda>n. n_kind n = k) (ix_nodes ix)"

section \<open>The walk model\<close>

text \<open>
  What the later stages ask of the walk model: the states of the nodes are computed in
  \<open>Conditional\<close>, the texts come from the parser.
\<close>

record walk_model =
  wm_index :: index
  wm_text :: "node \<Rightarrow> string"
  wm_uncertain :: "nat \<Rightarrow> bool"
  wm_inactive :: "nat \<Rightarrow> bool"

definition Parent :: "walk_model \<Rightarrow> node \<Rightarrow> node option" where
  "Parent m n = index_parent (wm_index m) n"

definition Uncertain :: "walk_model \<Rightarrow> node \<Rightarrow> bool" where
  "Uncertain m n = wm_uncertain m (n_id n)"

definition Inactive :: "walk_model \<Rightarrow> node \<Rightarrow> bool" where
  "Inactive m n = wm_inactive m (n_id n)"

text \<open>
  Walking up: the code follows the parents until there is none. The model takes at most as many
  steps as the index has nodes, which is enough in a tree (\<open>ancestors_enough\<close>).
\<close>

fun ancestors_from :: "index \<Rightarrow> nat \<Rightarrow> node \<Rightarrow> node list" where
  "ancestors_from ix 0 n = []"
| "ancestors_from ix (Suc steps) n =
    (case index_parent ix n of None \<Rightarrow> [] | Some p \<Rightarrow> p # ancestors_from ix steps p)"

definition Ancestors :: "index \<Rightarrow> node \<Rightarrow> node list" where
  "Ancestors ix n = ancestors_from ix (length (ix_nodes ix)) n"

definition EnclosingFunction :: "index \<Rightarrow> node \<Rightarrow> node option" where
  "EnclosingFunction ix n =
    List.find (\<lambda>a. n_kind a = KindFunctionDefinition) (Ancestors ix n)"

fun sibling_after :: "nat \<Rightarrow> node list \<Rightarrow> node option" where
  "sibling_after i (c # d # cs) = (if n_id c = i then Some d else sibling_after i (d # cs))"
| "sibling_after i cs = None"

fun sibling_before :: "nat \<Rightarrow> node list \<Rightarrow> node option" where
  "sibling_before i (c # d # cs) = (if n_id d = i then Some c else sibling_before i (d # cs))"
| "sibling_before i cs = None"

definition NextSibling :: "index \<Rightarrow> node \<Rightarrow> node option" where
  "NextSibling ix n =
    (case index_parent ix n of None \<Rightarrow> None | Some p \<Rightarrow> sibling_after (n_id n) (n_children p))"

definition PrevSibling :: "index \<Rightarrow> node \<Rightarrow> node option" where
  "PrevSibling ix n =
    (case index_parent ix n of None \<Rightarrow> None | Some p \<Rightarrow> sibling_before (n_id n) (n_children p))"

section \<open>Predicates\<close>

definition IsStatement :: "node \<Rightarrow> bool" where
  "IsStatement n = (n_kind n \<in> {KindBlock, KindIfStatement, KindWhileStatement,
    KindDoWhileStatement, KindForStatement, KindSwitchStatement, KindCaseClause,
    KindDefaultClause, KindGotoStatement, KindLabelStatement, KindReturnStatement,
    KindBreakStatement, KindContinueStatement, KindStateStatement, KindExpressionStatement,
    KindEmptyStatement, KindVariableDeclaration, KindMacroInvocationBlock})"

definition HasChildToken :: "node \<Rightarrow> token_kind \<Rightarrow> bool" where
  "HasChildToken n k = (\<exists>c\<in>set (n_children n). n_tok c = k)"

text \<open>A token of the file: kind and offsets.\<close>

record file_token =
  ft_kind :: token_kind
  ft_start :: int
  ft_end :: int

text \<open>\<open>sort.Search\<close> finds the first index where a monotone condition holds; on the tokens of a file,
  which are in order, that is the first token ending after the node's start.\<close>

definition ReferencesByAmpersand :: "file_token list \<Rightarrow> node \<Rightarrow> bool" where
  "ReferencesByAmpersand toks n =
    (let stop = (case field n ''name'' of None \<Rightarrow> n_end n | Some name \<Rightarrow> n_start name);
         rest = dropWhile (\<lambda>t. \<not> ft_end t > n_start n) toks
     in \<exists>t\<in>set (takeWhile (\<lambda>t. \<not> ft_start t \<ge> stop) rest).
          ft_start t \<ge> n_start n \<and> ft_end t \<le> stop \<and> ft_kind t = Amp)"

section \<open>The index is the tree\<close>

definition ids :: "node \<Rightarrow> nat list" where
  "ids n = map n_id (All_nodes n)"

text \<open>A parsed file: every node is one object.\<close>

definition one_object :: "node \<Rightarrow> bool" where
  "one_object root = distinct (ids root)"

lemma root_in_All [simp]: "n \<in> set (All_nodes n)"
  by (cases n) simp

lemma All_nodes_child:
  "c \<in> set (n_children n) \<Longrightarrow> m \<in> set (All_nodes c) \<Longrightarrow> m \<in> set (All_nodes n)"
  by (cases n) auto

lemma All_nodes_trans: "m \<in> set (All_nodes n) \<Longrightarrow> k \<in> set (All_nodes m) \<Longrightarrow> k \<in> set (All_nodes n)"
proof (induction n rule: All_nodes.induct)
  case (1 i kd t s e b fs cs)
  then show ?case by auto
qed

definition directive :: "node \<Rightarrow> bool" where
  "directive n = (n_kind n = KindDirectiveDefine \<or> n_kind n = KindDirectiveUndef)"

text \<open>The edges of the tree, in preorder, the last one first.\<close>

fun parent_list :: "node \<Rightarrow> node option \<Rightarrow> (nat \<times> node option) list" where
  "parent_list (Node i k t s e b fs cs) parent =
    concat (rev (map (\<lambda>c. parent_list c (Some (Node i k t s e b fs cs))) cs)) @ [(i, parent)]"

lemma index_add_spec:
  "index_add n parent ix =
    \<lparr>ix_parents = parent_list n parent @ ix_parents ix, ix_nodes = ix_nodes ix @ All_nodes n,
     ix_directives = ix_directives ix @ filter directive (All_nodes n)\<rparr>"
proof (induction n arbitrary: parent ix rule: All_nodes.induct)
  case (1 i k t s e b fs cs parent ix)
  let ?n = "Node i k t s e b fs cs"
  have children: "fold (\<lambda>c ix. index_add c (Some ?n) ix) ds jx =
      \<lparr>ix_parents = concat (rev (map (\<lambda>c. parent_list c (Some ?n)) ds)) @ ix_parents jx,
       ix_nodes = ix_nodes jx @ concat (map All_nodes ds),
       ix_directives = ix_directives jx @ filter directive (concat (map All_nodes ds))\<rparr>"
    if "set ds \<subseteq> set cs" for ds jx
    using that
  proof (induction ds arbitrary: jx)
    case Nil
    then show ?case by simp
  next
    case (Cons d ds)
    then have "d \<in> set cs" by simp
    from 1 [OF this] Cons show ?case by simp
  qed
  have "directive ?n = (k = KindDirectiveDefine \<or> k = KindDirectiveUndef)"
    by (simp add: directive_def)
  then show ?case by (simp add: children Let_def)
qed

lemma parent_list_keys: "mset (map fst (parent_list n parent)) = mset (ids n)"
proof (induction n arbitrary: parent rule: All_nodes.induct)
  case (1 i k t s e b fs cs)
  let ?n = "Node i k t s e b fs cs"
  have "mset (map fst (concat (rev (map (\<lambda>c. parent_list c (Some ?n)) ds)))) =
      mset (map n_id (concat (map All_nodes ds)))" if "set ds \<subseteq> set cs" for ds
    using that
  proof (induction ds)
    case (Cons d ds)
    then have "d \<in> set cs" by simp
    from 1 [OF this, of "Some ?n"] Cons show ?case by (simp add: ids_def)
  qed simp
  from this [of cs] show ?case by (simp add: ids_def)
qed

lemma parent_list_set:
  "set (parent_list n parent) =
    insert (n_id n, parent) {(n_id c, Some p) | p c. p \<in> set (All_nodes n) \<and> c \<in> set (n_children p)}"
proof (induction n arbitrary: parent rule: All_nodes.induct)
  case (1 i k t s e b fs cs)
  let ?n = "Node i k t s e b fs cs"
  have "set (parent_list ?n parent) =
      insert (i, parent) (\<Union>c\<in>set cs. set (parent_list c (Some ?n)))" by auto
  also have "(\<Union>c\<in>set cs. set (parent_list c (Some ?n))) = (\<Union>c\<in>set cs. insert (n_id c, Some ?n)
      {(n_id d, Some p) | p d. p \<in> set (All_nodes c) \<and> d \<in> set (n_children p)})"
    using 1 by (intro SUP_cong) simp_all
  also have "\<dots> = {(n_id c, Some p) | p c. p \<in> set (All_nodes ?n) \<and> c \<in> set (n_children p)}"
    by auto
  finally show ?case by simp
qed

lemma id_unique:
  assumes "one_object root" and "m \<in> set (All_nodes root)" and "n \<in> set (All_nodes root)"
    and "n_id m = n_id n"
  shows "m = n"
  using assms by (auto simp: one_object_def ids_def distinct_map inj_on_def)

lemma index_parent_lookup:
  assumes "one_object root"
  shows "map_of (ix_parents (NewIndex root)) i = Some q \<longleftrightarrow> (i, q) \<in> set (parent_list root None)"
proof -
  have "mset (map fst (parent_list root None)) = mset (ids root)" by (rule parent_list_keys)
  with assms have "distinct (map fst (parent_list root None))"
    by (metis mset_eq_imp_distinct_iff one_object_def)
  then show ?thesis
    by (simp add: NewIndex_def index_add_spec map_of_eq_Some_iff)
qed

lemma child_not_root:
  assumes "one_object root" and "p \<in> set (All_nodes root)" and "c \<in> set (n_children p)"
  shows "n_id c \<noteq> n_id root"
proof
  assume "n_id c = n_id root"
  have "c \<in> set (All_nodes root)" using assms(2,3) All_nodes_trans All_nodes_child root_in_All by blast
  then have "c = root" using id_unique [OF assms(1)] \<open>n_id c = n_id root\<close> by simp
  have "size m \<le> size n" if "m \<in> set (All_nodes n)" for m n
    using that
  proof (induction n rule: All_nodes.induct)
    case (1 i k t s e b fs cs)
    then show ?case
      using size_child [of _ "Node i k t s e b fs cs"] by fastforce
  qed
  from this [OF assms(2)] size_child [OF assms(3)] \<open>c = root\<close> show False by simp
qed

lemma index_parent_iff:
  assumes "one_object root" and "c \<in> set (All_nodes root)"
  shows "index_parent (NewIndex root) c = Some p \<longleftrightarrow> p \<in> set (All_nodes root) \<and> c \<in> set (n_children p)"
proof
  assume "index_parent (NewIndex root) c = Some p"
  then have "map_of (ix_parents (NewIndex root)) (n_id c) = Some (Some p)"
    by (simp add: index_parent_def split: option.splits)
  then have "(n_id c, Some p) \<in> set (parent_list root None)"
    by (simp add: index_parent_lookup [OF assms(1)])
  then obtain d where d: "p \<in> set (All_nodes root)" "d \<in> set (n_children p)" "n_id c = n_id d"
    by (auto simp: parent_list_set)
  then have "d \<in> set (All_nodes root)" using All_nodes_trans All_nodes_child root_in_All by blast
  with assms d(3) have "c = d" using id_unique by blast
  with d show "p \<in> set (All_nodes root) \<and> c \<in> set (n_children p)" by simp
next
  assume "p \<in> set (All_nodes root) \<and> c \<in> set (n_children p)"
  then have "(n_id c, Some p) \<in> set (parent_list root None)" by (auto simp: parent_list_set)
  then show "index_parent (NewIndex root) c = Some p"
    by (simp add: index_parent_def flip: index_parent_lookup [OF assms(1)])
qed

lemma index_parent_root:
  assumes "one_object root"
  shows "index_parent (NewIndex root) root = None"
proof -
  have "(n_id root, None) \<in> set (parent_list root None)" by (simp add: parent_list_set)
  then show ?thesis
    by (simp add: index_parent_def flip: index_parent_lookup [OF assms])
qed

text \<open>
  C12: the index describes the tree. For a parsed file, where every node is one object, the parent
  of a node is exactly the node that has it as a child, the root has none, the nodes of a kind are
  listed in document order, and the directive list holds the defines and undefs in that order.
\<close>

theorem NewIndex_correct:
  assumes "one_object root"
  shows "(\<forall>c\<in>set (All_nodes root). \<forall>p. (index_parent (NewIndex root) c = Some p) =
      (p \<in> set (All_nodes root) \<and> c \<in> set (n_children p))) \<and>
    index_parent (NewIndex root) root = None \<and>
    OfKind (NewIndex root) k = filter (\<lambda>n. n_kind n = k) (All_nodes root) \<and>
    ix_directives (NewIndex root) = filter directive (All_nodes root)"
  using index_parent_iff [OF assms] index_parent_root [OF assms]
  by (simp add: OfKind_def NewIndex_def index_add_spec)

theorem NewIndex_correct_witness:
  "let leaf = Node 2 KindDirectiveDefine Dot 5 9 False [] [];
       root = Node 1 KindSourceFile Dot 0 9 False [] [leaf] in
    ix_directives (NewIndex root) = [leaf] \<and> index_parent (NewIndex root) leaf = Some root"
proof -
  let ?leaf = "Node 2 KindDirectiveDefine Dot 5 9 False [] []"
  let ?root = "Node 1 KindSourceFile Dot 0 9 False [] [?leaf]"
  have "one_object ?root" by (simp add: one_object_def ids_def)
  from NewIndex_correct [OF this, of KindBlock] show ?thesis by (simp add: Let_def directive_def)
qed

section \<open>Walking up\<close>

lemma ancestors_from_more:
  "length (ancestors_from ix k n) < k \<Longrightarrow> ancestors_from ix (k + j) n = ancestors_from ix k n"
proof (induction ix k n rule: ancestors_from.induct)
  case (2 ix steps n)
  then show ?case by (cases "index_parent ix n") auto
qed simp

lemma ancestors_in_tree:
  assumes "one_object root" and "n \<in> set (All_nodes root)"
  shows "set (ancestors_from (NewIndex root) k n) \<subseteq> set (All_nodes root) \<and>
    sorted_wrt (\<lambda>a b. size a < size b) (n # ancestors_from (NewIndex root) k n)"
  using assms(2)
proof (induction k arbitrary: n)
  case (Suc k)
  show ?case
  proof (cases "index_parent (NewIndex root) n")
    case (Some p)
    with index_parent_iff [OF assms(1) Suc.prems] have "p \<in> set (All_nodes root)" "size n < size p"
      using size_child by blast+
    with Suc.IH [of p] Some show ?thesis by auto
  qed simp
qed simp

lemma sizes_distinct: "sorted_wrt (\<lambda>a b. size a < size b) (ns :: node list) \<Longrightarrow> distinct ns"
  by (induction ns) auto

text \<open>The bound on the number of steps is never reached: more steps give the same ancestors.\<close>

lemma ancestors_enough:
  assumes "one_object root" and "n \<in> set (All_nodes root)"
  shows "ancestors_from (NewIndex root) (length (ix_nodes (NewIndex root)) + j) n = Ancestors (NewIndex root) n"
  unfolding Ancestors_def
proof (rule ancestors_from_more)
  let ?as = "n # ancestors_from (NewIndex root) (length (ix_nodes (NewIndex root))) n"
  note as = ancestors_in_tree [OF assms]
  have "distinct ?as" by (rule sizes_distinct) (use as in blast)
  then have "length ?as = card (set ?as)" by (simp only: distinct_card)
  also have "\<dots> \<le> card (set (All_nodes root))" using as assms(2) by (intro card_mono) auto
  also have "\<dots> \<le> length (All_nodes root)" by (rule card_length)
  finally show "length (ancestors_from (NewIndex root) (length (ix_nodes (NewIndex root))) n) <
      length (ix_nodes (NewIndex root))"
    by (simp add: NewIndex_def index_add_spec)
qed

text \<open>
  EnclosingFunction is the innermost function definition around a node: an ancestor of that
  kind, with none between it and the node; without one the node lies in no function.
\<close>

lemma EnclosingFunction_innermost:
  "(case EnclosingFunction ix n of
      None \<Rightarrow> \<forall>a\<in>set (Ancestors ix n). n_kind a \<noteq> KindFunctionDefinition
    | Some f \<Rightarrow> \<exists>inner outer. Ancestors ix n = inner @ f # outer \<and>
        n_kind f = KindFunctionDefinition \<and> (\<forall>a\<in>set inner. n_kind a \<noteq> KindFunctionDefinition))"
proof (cases "EnclosingFunction ix n")
  case None
  moreover from None have "\<forall>a\<in>set (Ancestors ix n). n_kind a \<noteq> KindFunctionDefinition"
    by (auto simp: EnclosingFunction_def find_None_iff)
  ultimately show ?thesis by simp
next
  case (Some f)
  then obtain i where "i < length (Ancestors ix n)" "Ancestors ix n ! i = f"
    "n_kind f = KindFunctionDefinition"
    "\<forall>j<i. n_kind (Ancestors ix n ! j) \<noteq> KindFunctionDefinition"
    by (auto simp: EnclosingFunction_def find_Some_iff)
  moreover from this have "Ancestors ix n = take i (Ancestors ix n) @ f # drop (Suc i) (Ancestors ix n)"
    using id_take_nth_drop by blast
  moreover have "\<forall>a\<in>set (take i (Ancestors ix n)). n_kind a \<noteq> KindFunctionDefinition"
    using calculation by (auto simp: in_set_conv_nth)
  ultimately show ?thesis unfolding Some option.case by blast
qed

lemma EnclosingFunction_innermost_witness:
  "let leaf = Node 2 KindBlock Dot 5 9 False [] [];
       f = Node 1 KindFunctionDefinition Dot 0 9 False [] [leaf];
       root = Node 0 KindSourceFile Dot 0 9 False [] [f] in
    EnclosingFunction (NewIndex root) leaf = Some f \<and>
    (\<exists>inner outer. Ancestors (NewIndex root) leaf = inner @ f # outer)"
proof -
  let ?leaf = "Node 2 KindBlock Dot 5 9 False [] []"
  let ?f = "Node 1 KindFunctionDefinition Dot 0 9 False [] [?leaf]"
  let ?root = "Node 0 KindSourceFile Dot 0 9 False [] [?f]"
  have "EnclosingFunction (NewIndex ?root) ?leaf = Some ?f" by code_simp
  with EnclosingFunction_innermost [of "NewIndex ?root" ?leaf] show ?thesis
    unfolding Let_def by (simp only: option.case simp_thms) blast
qed

end
