(* ===== verification/Go_Numbers.thy ===== *)
theory Go_Numbers
  imports Go_Strings "HOL-Library.Signed_Division" "HOL-Library.Word"
begin

text \<open>
  Go's fixed-width integers over \<open>int\<close>, the part of \<open>strconv.ParseUint\<close> the code uses, and
  \<open>sort.Search\<close>. An \<open>int64\<close> is an \<open>int\<close> in range; every operation that can leave the range is
  wrapped where the code computes it.
\<close>

section \<open>Wrap-around\<close>

definition wrap64 :: "int \<Rightarrow> int" where
  "wrap64 x = (x + 2 ^ 63) mod 2 ^ 64 - 2 ^ 63"

definition in64 :: "int \<Rightarrow> bool" where
  "in64 x = (- (2 ^ 63) \<le> x \<and> x < 2 ^ 63)"

text \<open>\<open>int64(int32(x))\<close>.\<close>

definition wrap32 :: "int \<Rightarrow> int" where
  "wrap32 x = (x + 2 ^ 31) mod 2 ^ 32 - 2 ^ 31"

definition in32 :: "int \<Rightarrow> bool" where
  "in32 x = (- (2 ^ 31) \<le> x \<and> x < 2 ^ 31)"

lemma wrap64_id: "in64 x \<Longrightarrow> wrap64 x = x"
  by (simp add: in64_def wrap64_def)

lemma in64_wrap64 [simp]: "in64 (wrap64 x)"
proof -
  have "0 \<le> (x + 2 ^ 63) mod 2 ^ 64" "(x + 2 ^ 63) mod 2 ^ 64 < 2 ^ 64" by simp_all
  then show ?thesis unfolding in64_def wrap64_def by simp
qed

lemma wrap32_id: "in32 x \<Longrightarrow> wrap32 x = x"
  by (simp add: in32_def wrap32_def)

lemma in32_wrap32 [simp]: "in32 (wrap32 x)"
proof -
  have "0 \<le> (x + 2 ^ 31) mod 2 ^ 32" "(x + 2 ^ 31) mod 2 ^ 32 < 2 ^ 32" by simp_all
  then show ?thesis unfolding in32_def wrap32_def by simp
qed

lemma in64_in32: "in32 x \<Longrightarrow> in64 x"
  by (simp add: in32_def in64_def)

text \<open>
  Go's division truncates; the shifts take a count that is a \<open>uint64\<close>, so a negative count counts
  as a huge one.
\<close>

definition quot64 :: "int \<Rightarrow> int \<Rightarrow> int" where
  "quot64 a b = wrap64 (a sdiv b)"

definition rem64 :: "int \<Rightarrow> int \<Rightarrow> int" where
  "rem64 a b = wrap64 (a smod b)"

definition shl64 :: "int \<Rightarrow> int \<Rightarrow> int" where
  "shl64 a n = (if n < 0 \<or> 64 \<le> n then 0 else wrap64 (a * 2 ^ nat n))"

definition shr64 :: "int \<Rightarrow> int \<Rightarrow> int" where
  "shr64 a n = (if n < 0 \<or> 64 \<le> n then (if a < 0 then -1 else 0) else a div 2 ^ nat n)"

definition bool_int :: "bool \<Rightarrow> int" where
  "bool_int b = (if b then 1 else 0)"

section \<open>strconv.ParseUint with a limit of 32 bits\<close>

definition digit_value :: "char \<Rightarrow> nat option" where
  "digit_value c =
    (let n = of_char c :: nat in
     if 48 \<le> n \<and> n \<le> 57 then Some (n - 48)
     else if 97 \<le> n \<and> n \<le> 122 then Some (n - 97 + 10)
     else if 65 \<le> n \<and> n \<le> 90 then Some (n - 65 + 10)
     else None)"

fun parse_digits :: "nat \<Rightarrow> nat \<Rightarrow> string \<Rightarrow> nat option" where
  "parse_digits base acc [] = Some acc"
| "parse_digits base acc (c # cs) =
    (case digit_value c of
      None \<Rightarrow> None
    | Some d \<Rightarrow> if d < base then parse_digits base (acc * base + d) cs else None)"

definition parse_uint32 :: "nat \<Rightarrow> string \<Rightarrow> nat option" where
  "parse_uint32 base s =
    (if s = [] then None
     else (case parse_digits base 0 s of
       None \<Rightarrow> None | Some n \<Rightarrow> if n < 2 ^ 32 then Some n else None))"

text \<open>
  The text of a literal once the underscores are removed: base 10, unless a prefix asks for base 16
  or 2. The value is the cell with those bits.
\<close>

definition literal_value :: "string \<Rightarrow> int option" where
  "literal_value raw =
    (let text = replace_char (CHR ''_'') [] raw;
         n = (if has_prefix text ''0x'' \<or> has_prefix text ''0X'' then parse_uint32 16 (drop 2 text)
              else if has_prefix text ''0b'' \<or> has_prefix text ''0B'' then parse_uint32 2 (drop 2 text)
              else parse_uint32 10 text)
     in map_option (\<lambda>n. wrap32 (int n)) n)"

section \<open>sort.Search\<close>

text \<open>The binary search of the package, between \<open>i\<close> and \<open>j\<close>.\<close>

function search_between :: "(nat \<Rightarrow> bool) \<Rightarrow> nat \<Rightarrow> nat \<Rightarrow> nat" where
  "search_between f i j =
    (if i < j then
       (let h = (i + j) div 2 in if f h then search_between f i h else search_between f (h + 1) j)
     else i)"
  by pat_completeness auto
termination by (relation "measure (\<lambda>(f, i, j). j - i)") auto

declare search_between.simps [simp del]

definition sort_search :: "nat \<Rightarrow> (nat \<Rightarrow> bool) \<Rightarrow> nat" where
  "sort_search n f = search_between f 0 n"

lemma search_between_spec:
  assumes mono: "\<And>a b. a \<le> b \<Longrightarrow> b < n \<Longrightarrow> f a \<Longrightarrow> f b"
    and "i \<le> j" "j \<le> n" "\<forall>k<i. \<not> f k" "\<forall>k\<ge>j. k < n \<longrightarrow> f k"
  shows "search_between f i j \<le> n \<and> (\<forall>k < search_between f i j. \<not> f k) \<and>
    (\<forall>k\<ge>search_between f i j. k < n \<longrightarrow> f k)"
  using assms(2-5)
proof (induction "j - i" arbitrary: i j rule: less_induct)
  case less
  show ?case
  proof (cases "i < j")
    case False
    with less.prems(1) have "search_between f i j = j" by (subst search_between.simps) simp
    with less.prems False show ?thesis by auto
  next
    case True
    let ?h = "(i + j) div 2"
    have h: "i \<le> ?h" "?h < j" "?h < n" using True less.prems(2) by auto
    show ?thesis
    proof (cases "f ?h")
      case t: True
      then have "\<forall>k\<ge>?h. k < n \<longrightarrow> f k" using mono by blast
      with less.hyps [of ?h i] less.prems h True t show ?thesis
        by (simp add: search_between.simps [of f i j] Let_def)
    next
      case f: False
      have "\<forall>k < Suc ?h. \<not> f k"
        using mono h f by (metis less_Suc_eq_le)
      with less.hyps [of j "Suc ?h"] less.prems h True f show ?thesis
        by (simp add: search_between.simps [of f i j] Let_def)
    qed
  qed
qed

lemma sort_search_spec:
  assumes "\<And>a b. a \<le> b \<Longrightarrow> b < n \<Longrightarrow> f a \<Longrightarrow> f b"
  shows "sort_search n f \<le> n" and "k < sort_search n f \<Longrightarrow> \<not> f k"
    and "sort_search n f \<le> k \<Longrightarrow> k < n \<Longrightarrow> f k"
  using search_between_spec [of n f 0 n, OF assms] by (simp_all add: sort_search_def)

end
