(* ===== verification/Defines.thy ===== *)
theory Defines
  imports Go_Numbers
begin

text \<open>
  The macro names known at a point of a file (\<open>internal/source/walk/conditional.go\<close>): sorted slices
  searched by bisection, and \<open>defineValues\<close>, a shared sorted base with the names added to and
  removed from it and a cached merge of the three. \<open>NewDefineContext\<close> of \<open>walk.go\<close> builds a base.
\<close>

section \<open>Sorted slices\<close>

definition SearchStrings :: "string list \<Rightarrow> string \<Rightarrow> nat" where
  "SearchStrings vals name = sort_search (length vals) (\<lambda>i. vals ! i \<ge> name)"

definition containsSorted :: "string list \<Rightarrow> string \<Rightarrow> bool" where
  "containsSorted vals name =
    (let i = SearchStrings vals name in i < length vals \<and> vals ! i = name)"

definition insertSorted :: "string list \<Rightarrow> string \<Rightarrow> string list" where
  "insertSorted vals name =
    (let i = SearchStrings vals name in take i vals @ name # drop i vals)"

text \<open>\<open>removeSorted\<close> reports whether the name was there; \<open>None\<close> is the answer no.\<close>

definition removeSorted :: "string list \<Rightarrow> string \<Rightarrow> string list option" where
  "removeSorted vals name =
    (let i = SearchStrings vals name in
     if i \<ge> length vals \<or> vals ! i \<noteq> name then None
     else Some (take i vals @ drop (Suc i) vals))"

abbreviation strictly :: "string list \<Rightarrow> bool" where
  "strictly \<equiv> sorted_wrt (<)"

lemma strictly_sorted: "strictly xs \<Longrightarrow> sorted xs"
  by (simp add: strict_sorted_iff)

lemma SearchStrings_split:
  assumes "sorted vals"
  shows "SearchStrings vals name \<le> length vals"
    and "\<forall>x\<in>set (take (SearchStrings vals name) vals). x < name"
    and "\<forall>x\<in>set (drop (SearchStrings vals name) vals). name \<le> x"
proof -
  let ?f = "\<lambda>i. vals ! i \<ge> name" and ?r = "SearchStrings vals name"
  have mono: "?f a \<Longrightarrow> ?f b" if "a \<le> b" "b < length vals" for a b
    using sorted_nth_mono [OF assms that] by (auto intro: order_trans)
  have r: "?r \<le> length vals" "\<And>k. k < ?r \<Longrightarrow> \<not> ?f k" "\<And>k. ?r \<le> k \<Longrightarrow> k < length vals \<Longrightarrow> ?f k"
    unfolding SearchStrings_def using sort_search_spec [of "length vals" ?f] mono by blast+
  show "?r \<le> length vals" by (rule r)
  show "\<forall>x\<in>set (take ?r vals). x < name"
    using r by (auto simp: in_set_conv_nth not_le)
  show "\<forall>x\<in>set (drop ?r vals). name \<le> x"
    using r by (auto simp: in_set_conv_nth)
qed

text \<open>The place of a name that occurs once splits the slice around it.\<close>

lemma SearchStrings_member:
  assumes "sorted vals" and "name \<in> set vals"
  shows "SearchStrings vals name < length vals" and "vals ! SearchStrings vals name = name"
proof -
  let ?r = "SearchStrings vals name"
  note split = SearchStrings_split [OF assms(1), of name]
  have "name \<notin> set (take ?r vals)" using split(2) by blast
  then have mem: "name \<in> set (drop ?r vals)"
    using assms(2) append_take_drop_id [of ?r vals] by (metis Un_iff set_append)
  then show r: "?r < length vals" by (cases "?r < length vals") auto
  then have d: "drop ?r vals = vals ! ?r # drop (Suc ?r) vals" by (simp add: Cons_nth_drop_Suc)
  have "sorted (drop ?r vals)" using assms(1) by (rule sorted_wrt_drop)
  with d mem have "vals ! ?r \<le> name" by auto
  moreover have "name \<le> vals ! ?r" using split(3) d by simp
  ultimately show "vals ! ?r = name" by simp
qed

lemma containsSorted_iff: "sorted vals \<Longrightarrow> containsSorted vals name \<longleftrightarrow> name \<in> set vals"
  using SearchStrings_member unfolding containsSorted_def Let_def by (metis nth_mem)

lemma insertSorted_ok:
  assumes "strictly vals" and "name \<notin> set vals"
  shows "strictly (insertSorted vals name)" and "set (insertSorted vals name) = insert name (set vals)"
proof -
  let ?r = "SearchStrings vals name"
  note split = SearchStrings_split [OF strictly_sorted [OF assms(1)], of name]
  have parts: "set (take ?r vals) \<union> set (drop ?r vals) = set vals"
    by (metis append_take_drop_id set_append)
  show "set (insertSorted vals name) = insert name (set vals)"
    unfolding insertSorted_def Let_def using parts by auto
  have "\<forall>x\<in>set (drop ?r vals). name < x"
    using split(3) assms(2) parts by (metis Un_iff order_le_less)
  moreover have "strictly (take ?r vals @ drop ?r vals)" using assms(1) by simp
  ultimately show "strictly (insertSorted vals name)"
    unfolding insertSorted_def Let_def sorted_wrt_append using split(2) by auto
qed

lemma removeSorted_ok:
  assumes "strictly vals"
  shows "removeSorted vals name = None \<longleftrightarrow> name \<notin> set vals"
    and "removeSorted vals name = Some out \<Longrightarrow> strictly out \<and> set out = set vals - {name} \<and> name \<in> set vals"
proof -
  let ?r = "SearchStrings vals name"
  note member = SearchStrings_member [OF strictly_sorted [OF assms], of name]
  show "removeSorted vals name = None \<longleftrightarrow> name \<notin> set vals"
    unfolding removeSorted_def Let_def using member by (metis linorder_not_less nth_mem option.distinct(1))
  assume "removeSorted vals name = Some out"
  then have r: "?r < length vals" "vals ! ?r = name" "out = take ?r vals @ drop (Suc ?r) vals"
    by (auto simp: removeSorted_def Let_def split: if_splits)
  have v: "vals = take ?r vals @ name # drop (Suc ?r) vals"
    using id_take_nth_drop [OF r(1)] r(2) by simp
  have "strictly (take ?r vals @ name # drop (Suc ?r) vals)" using assms v by simp
  then have "strictly out" "name \<notin> set out"
    unfolding r(3) by (auto simp: sorted_wrt_append)
  moreover have "set vals = insert name (set out)"
    using arg_cong [OF v, of set] r(3) by auto
  ultimately show "strictly out \<and> set out = set vals - {name} \<and> name \<in> set vals" by auto
qed

section \<open>defineValues\<close>

record define_values =
  dv_base :: "string list"
  dv_added :: "string list"
  dv_removed :: "string list"
  dv_materialized :: "string list option"

definition dv_reset :: "string list \<Rightarrow> define_values \<Rightarrow> define_values" where
  "dv_reset names v = v\<lparr>dv_base := names, dv_added := [], dv_removed := [], dv_materialized := None\<rparr>"

definition dv_contains :: "define_values \<Rightarrow> string \<Rightarrow> bool" where
  "dv_contains v name =
    (if containsSorted (dv_removed v) name then False
     else containsSorted (dv_added v) name \<or> containsSorted (dv_base v) name)"

definition dv_add :: "string \<Rightarrow> define_values \<Rightarrow> define_values" where
  "dv_add name v =
    (if name = [] then v
     else (case removeSorted (dv_removed v) name of
       Some removed \<Rightarrow> v\<lparr>dv_removed := removed, dv_materialized := None\<rparr>
     | None \<Rightarrow>
         if containsSorted (dv_base v) name \<or> containsSorted (dv_added v) name then v
         else v\<lparr>dv_added := insertSorted (dv_added v) name, dv_materialized := None\<rparr>))"

definition dv_remove :: "string \<Rightarrow> define_values \<Rightarrow> define_values" where
  "dv_remove name v =
    (case removeSorted (dv_added v) name of
       Some added \<Rightarrow> v\<lparr>dv_added := added, dv_materialized := None\<rparr>
     | None \<Rightarrow>
         if \<not> containsSorted (dv_base v) name \<or> containsSorted (dv_removed v) name then v
         else v\<lparr>dv_removed := insertSorted (dv_removed v) name, dv_materialized := None\<rparr>)"

text \<open>
  The merge of \<open>view\<close>; an index into a slice is the rest of the slice. First the names of the base
  that were removed are passed over, then the smaller head is taken.
\<close>

fun skip_removed :: "string list \<Rightarrow> string list \<Rightarrow> string list \<times> string list" where
  "skip_removed [] removed = ([], removed)"
| "skip_removed (b # bs) removed =
    (let removed = dropWhile (\<lambda>r. r < b) removed in
     if removed = [] \<or> hd removed \<noteq> b then (b # bs, removed) else skip_removed bs removed)"

lemma skip_removed_shorter [termination_simp]:
  "(base', removed') = skip_removed base removed \<Longrightarrow> length base' \<le> length base"
  by (induction base removed arbitrary: base' removed' rule: skip_removed.induct)
    (auto simp: Let_def le_SucI split: if_splits)

function merge_view :: "string list \<Rightarrow> string list \<Rightarrow> string list \<Rightarrow> string list" where
  "merge_view base added removed =
    (if base = [] \<and> added = [] then []
     else
       (let (base, removed) = skip_removed base removed in
        if base \<noteq> [] \<and> (added = [] \<or> hd base < hd added)
        then hd base # merge_view (tl base) added removed
        else if added \<noteq> [] then hd added # merge_view base (tl added) removed
        else []))"
  by pat_completeness auto
termination
proof (relation "measure (\<lambda>(base, added, removed). length base + length added)", goal_cases)
  case (2 base added removed x base' removed')
  then show ?case
    using skip_removed_shorter [of base' removed' base removed] by (cases base') auto
next
  case (3 base added removed x base' removed')
  then show ?case
    using skip_removed_shorter [of base' removed' base removed] by (cases added) auto
qed simp

declare merge_view.simps [simp del]

text \<open>\<open>view\<close> answers with the slice and keeps the merge it computed.\<close>

definition dv_view :: "define_values \<Rightarrow> string list \<times> define_values" where
  "dv_view v =
    (if dv_added v = [] \<and> dv_removed v = [] then (dv_base v, v)
     else (case dv_materialized v of
       Some known \<Rightarrow> (known, v)
     | None \<Rightarrow>
         (let known = merge_view (dv_base v) (dv_added v) (dv_removed v)
          in (known, v\<lparr>dv_materialized := Some known\<rparr>))))"

section \<open>The names the compiler defines\<close>

definition compilerDefines :: "string list" where
  "compilerDefines = [''true'', ''false'', ''EOS'', ''cellbits'', ''cellbytes'', ''cellmax'', ''cellmin'',
    ''charbits'', ''charmin'', ''charmax'', ''ucharmax'', ''__Pawn'', ''__PawnBuild'', ''__line'',
    ''__compat'', ''debug'']"

definition keep_name :: "string list \<Rightarrow> string \<Rightarrow> string list" where
  "keep_name unique name =
    (if name \<noteq> [] \<and> (unique = [] \<or> last unique \<noteq> name) then unique @ [name] else unique)"

definition NewDefineContext :: "string list \<Rightarrow> string list" where
  "NewDefineContext defines = foldl keep_name [] (sort_strings (compilerDefines @ defines))"

lemma keep_name_fold:
  assumes "sorted (unique @ names)" and "strictly unique" and "[] \<notin> set unique"
  shows "strictly (foldl keep_name unique names) \<and>
    set (foldl keep_name unique names) = set unique \<union> (set names - {[]})"
  using assms
proof (induction names arbitrary: unique)
  case (Cons name names)
  have last: "x \<le> last unique" if "x \<in> set unique" for x
    using that Cons.prems(2) by (cases unique rule: rev_cases) (auto simp: sorted_wrt_append)
  have kept: "strictly (keep_name unique name)" "sorted (keep_name unique name @ names)"
      "[] \<notin> set (keep_name unique name)"
      "set (keep_name unique name) = set unique \<union> ({name} - {[]})"
  proof (goal_cases)
    case 1
    have "x < name" if "x \<in> set unique" "last unique \<noteq> name" for x
    proof -
      have "unique \<noteq> []" using that(1) by auto
      then have "last unique \<in> set unique" by (rule last_in_set)
      then have "last unique \<le> name" using Cons.prems(1) by (simp add: sorted_append)
      with that(2) last [OF that(1)] show ?thesis by simp
    qed
    with Cons.prems(2) show ?case by (auto simp: keep_name_def sorted_wrt_append)
  next
    case 2
    with Cons.prems(1) show ?case by (auto simp: keep_name_def sorted_append)
  next
    case 3
    with Cons.prems(3) show ?case by (auto simp: keep_name_def)
  next
    case 4
    show ?case by (auto simp: keep_name_def intro: last_in_set)
  qed
  from Cons.IH [OF kept(2,1,3)] kept(4) show ?case by auto
qed simp

lemma NewDefineContext_ok:
  "strictly (NewDefineContext defines)"
  "set (NewDefineContext defines) = (set compilerDefines \<union> set defines) - {[]}"
  using keep_name_fold [of "[]" "sort_strings (compilerDefines @ defines)"]
  by (auto simp: NewDefineContext_def sorted_sort_strings)

section \<open>The slices stand for a set\<close>

definition known :: "define_values \<Rightarrow> string set" where
  "known v = (set (dv_base v) \<union> set (dv_added v)) - set (dv_removed v)"

definition dv_ok :: "define_values \<Rightarrow> bool" where
  "dv_ok v = (strictly (dv_base v) \<and> strictly (dv_added v) \<and> strictly (dv_removed v) \<and>
    set (dv_added v) \<inter> set (dv_base v) = {} \<and> set (dv_removed v) \<subseteq> set (dv_base v) \<and>
    (\<forall>xs. dv_materialized v = Some xs \<longrightarrow> strictly xs \<and> set xs = known v))"

lemma dv_reset_ok: "strictly names \<Longrightarrow> dv_ok (dv_reset names v) \<and> known (dv_reset names v) = set names"
  by (simp add: dv_ok_def known_def dv_reset_def)

lemma dv_contains_iff: "dv_ok v \<Longrightarrow> dv_contains v name \<longleftrightarrow> name \<in> known v"
  by (auto simp: dv_ok_def dv_contains_def known_def containsSorted_iff strictly_sorted)

lemma dv_add_ok:
  assumes "dv_ok v"
  shows "dv_ok (dv_add name v) \<and> known (dv_add name v) = (if name = [] then known v else insert name (known v))"
proof (cases "removeSorted (dv_removed v) name")
  case None
  then have "name \<notin> set (dv_removed v)" using assms removeSorted_ok(1) by (auto simp: dv_ok_def)
  moreover have "name \<notin> set (dv_added v) \<Longrightarrow>
      strictly (insertSorted (dv_added v) name) \<and> set (insertSorted (dv_added v) name) = insert name (set (dv_added v))"
    using assms insertSorted_ok by (simp add: dv_ok_def)
  ultimately show ?thesis
    using None assms by (auto simp: dv_ok_def dv_add_def known_def containsSorted_iff strictly_sorted)
next
  case (Some out)
  from removeSorted_ok(2) [OF _ Some] assms
  have "strictly out \<and> set out = set (dv_removed v) - {name} \<and> name \<in> set (dv_removed v)"
    by (simp add: dv_ok_def)
  with Some assms show ?thesis by (auto simp: dv_ok_def dv_add_def known_def)
qed

lemma dv_remove_ok:
  assumes "dv_ok v"
  shows "dv_ok (dv_remove name v) \<and> known (dv_remove name v) = known v - {name}"
proof (cases "removeSorted (dv_added v) name")
  case None
  then have "name \<notin> set (dv_added v)" using assms removeSorted_ok(1) by (auto simp: dv_ok_def)
  moreover have "name \<notin> set (dv_removed v) \<Longrightarrow>
      strictly (insertSorted (dv_removed v) name) \<and> set (insertSorted (dv_removed v) name) = insert name (set (dv_removed v))"
    using assms insertSorted_ok by (simp add: dv_ok_def)
  ultimately show ?thesis
    using None assms by (auto simp: dv_ok_def dv_remove_def known_def containsSorted_iff strictly_sorted)
next
  case (Some out)
  from removeSorted_ok(2) [OF _ Some] assms
  have "strictly out \<and> set out = set (dv_added v) - {name} \<and> name \<in> set (dv_added v)"
    by (simp add: dv_ok_def)
  with Some assms show ?thesis by (auto simp: dv_ok_def dv_remove_def known_def)
qed

lemma skip_removed_spec:
  assumes "skip_removed base removed = (base', removed')" and "strictly base" and "strictly removed"
  shows "strictly base' \<and> strictly removed' \<and> set base' \<subseteq> set base \<and>
    set base' - set removed' = set base - set removed \<and> (base' \<noteq> [] \<longrightarrow> hd base' \<notin> set removed')"
  using assms
proof (induction base removed arbitrary: base' removed' rule: skip_removed.induct)
  case (2 b bs removed)
  let ?r = "dropWhile (\<lambda>r. r < b) removed"
  have r: "strictly ?r" using 2(4) by (rule sorted_wrt_dropWhile)
  have same: "set (b # bs) - set ?r = set (b # bs) - set removed"
  proof -
    have "x \<notin> set (b # bs)" if "x \<in> set (takeWhile (\<lambda>r. r < b) removed)" for x
      using set_takeWhileD [OF that] 2(3) by auto
    moreover have "set removed = set (takeWhile (\<lambda>r. r < b) removed) \<union> set ?r"
      by (metis set_append takeWhile_dropWhile_id)
    ultimately show ?thesis by blast
  qed
  show ?case
  proof (cases "?r = [] \<or> hd ?r \<noteq> b")
    case True
    have "b \<notin> set ?r"
    proof (cases ?r)
      case (Cons y ys)
      then have "\<not> y < b" using hd_dropWhile [of "\<lambda>r. r < b" removed] by simp
      with True Cons r show ?thesis by auto
    next
      case Nil
      then show ?thesis by (simp only: list.set empty_iff not_False_eq_True)
    qed
    moreover have "base' = b # bs" "removed' = ?r" using 2(2) True by (simp_all add: Let_def)
    ultimately show ?thesis using 2(3) same r by simp
  next
    case False
    then have "b \<in> set ?r" by (cases ?r) auto
    moreover have "skip_removed bs ?r = (base', removed')" using 2(2) by (simp only: skip_removed.simps Let_def False if_False)
    then have "strictly base' \<and> strictly removed' \<and> set base' \<subseteq> set bs \<and>
        set base' - set removed' = set bs - set ?r \<and> (base' \<noteq> [] \<longrightarrow> hd base' \<notin> set removed')"
      using 2(1) [OF refl False] 2(3) r by simp
    ultimately show ?thesis using same by auto
  qed
qed auto

lemma merge_view_spec:
  assumes "strictly base" "strictly added" "strictly removed" "set added \<inter> set base = {}"
  shows "strictly (merge_view base added removed) \<and>
    set (merge_view base added removed) = (set base - set removed) \<union> set added"
  using assms
proof (induction base added removed rule: merge_view.induct)
  case (1 base added removed)
  show ?case
  proof (cases "base = [] \<and> added = []")
    case False
    obtain base' removed' where skip: "skip_removed base removed = (base', removed')" by force
    note sk = skip_removed_spec [OF skip 1(3,5)]
    note unfold = merge_view.simps [of base added removed]
    show ?thesis
    proof (cases "base' \<noteq> [] \<and> (added = [] \<or> hd base' < hd added)")
      case True
      then obtain b bs where b: "base' = b # bs" by (cases base') auto
      have "strictly (merge_view bs added removed') \<and>
          set (merge_view bs added removed') = (set bs - set removed') \<union> set added"
        using 1(1) [OF False skip [symmetric] refl True] 1(4,6) sk b by auto
      moreover have "\<forall>x\<in>set added. b < x" using True b 1(4) by (cases added) auto
      ultimately show ?thesis using True False b sk skip by (subst (1 2) unfold) auto
    next
      case take: False
      show ?thesis
      proof (cases added)
        case Nil
        with take False sk skip show ?thesis by (subst (1 2) unfold) auto
      next
        case (Cons a as)
        have "strictly (merge_view base' as removed') \<and>
            set (merge_view base' as removed') = (set base' - set removed') \<union> set as"
          using 1(2) [OF False skip [symmetric] refl take] 1(4,6) sk Cons by auto
        moreover have "\<forall>x\<in>set base'. a < x"
        proof (cases base')
          case (Cons b bs)
          then have "a < b" using take \<open>added = a # as\<close> sk 1(6) by (auto simp: neq_iff)
          with Cons sk show ?thesis by auto
        qed simp
        ultimately show ?thesis using take False Cons sk skip 1(4) by (subst (1 2) unfold) auto
      qed
    qed
  next
    case True
    then have "merge_view base added removed = []" by (subst merge_view.simps) simp
    with True show ?thesis by simp
  qed
qed

lemma dv_view_ok:
  assumes "dv_ok v"
  shows "strictly (fst (dv_view v)) \<and> set (fst (dv_view v)) = known v \<and>
    dv_ok (snd (dv_view v)) \<and> known (snd (dv_view v)) = known v"
proof -
  have "strictly (merge_view (dv_base v) (dv_added v) (dv_removed v)) \<and>
      set (merge_view (dv_base v) (dv_added v) (dv_removed v)) = known v"
    using merge_view_spec [of "dv_base v" "dv_added v" "dv_removed v"] assms
    by (auto simp: dv_ok_def known_def)
  with assms show ?thesis
    by (auto simp: dv_view_def dv_ok_def known_def Let_def split: option.split)
qed

section \<open>Refinement of a set of names\<close>

text \<open>The operations of a cursor on its values, and what they mean on a set.\<close>

datatype define_op = Op_define string | Op_undef string | Op_view | Op_restart "string list"

fun run_op :: "define_op \<Rightarrow> define_values \<Rightarrow> define_values" where
  "run_op (Op_define name) v = dv_add name v"
| "run_op (Op_undef name) v = dv_remove name v"
| "run_op Op_view v = snd (dv_view v)"
| "run_op (Op_restart names) v = dv_reset names v"

fun set_op :: "define_op \<Rightarrow> string set \<Rightarrow> string set" where
  "set_op (Op_define name) K = (if name = [] then K else insert name K)"
| "set_op (Op_undef name) K = K - {name}"
| "set_op Op_view K = K"
| "set_op (Op_restart names) K = set names"

definition op_ok :: "define_op \<Rightarrow> bool" where
  "op_ok op = (\<forall>names. op = Op_restart names \<longrightarrow> strictly names)"

lemma run_op_ok: "dv_ok v \<Longrightarrow> op_ok op \<Longrightarrow> dv_ok (run_op op v) \<and> known (run_op op v) = set_op op (known v)"
  using dv_add_ok dv_remove_ok dv_view_ok dv_reset_ok by (cases op) (auto simp: op_ok_def)

lemma run_ops_ok:
  "dv_ok v \<Longrightarrow> list_all op_ok ops \<Longrightarrow>
    dv_ok (fold run_op ops v) \<and> known (fold run_op ops v) = fold set_op ops (known v)"
  by (induction ops arbitrary: v) (simp_all add: run_op_ok)

text \<open>
  C17: the sorted slices with their cached merge implement a set of names. After any sequence of
  defines, undefines, views and restarts, membership is membership in the set those operations give,
  and a view is that set in strictly ascending order.
\<close>

theorem defineValues_refine_set:
  assumes "strictly names" and "list_all op_ok ops"
  shows "let v = fold run_op ops (dv_reset names v0); K = fold set_op ops (set names) in
    dv_contains v name = (name \<in> K) \<and> fst (dv_view v) = sorted_list_of_set K"
proof -
  have start: "dv_ok (dv_reset names v0)" "known (dv_reset names v0) = set names"
    using dv_reset_ok [OF assms(1)] by auto
  note run = run_ops_ok [OF start(1) assms(2)]
  have "fst (dv_view v) = sorted_list_of_set (known v)" if "dv_ok v" for v
    using dv_view_ok [OF that] strictly_sorted sorted_list_of_set.idem_if_sorted_distinct
    by (metis strict_sorted_iff)
  with run start(2) show ?thesis by (simp add: Let_def dv_contains_iff)
qed

theorem defineValues_refine_set_witness:
  "\<forall>v0. let v = fold run_op [Op_define ''b'', Op_view, Op_undef ''a'', Op_define ''c''] (dv_reset [''a'', ''d''] v0) in
    fst (dv_view v) = [''b'', ''c'', ''d''] \<and> \<not> dv_contains v ''a''"
proof
  fix v0
  let ?ops = "[Op_define ''b'', Op_view, Op_undef ''a'', Op_define ''c'']"
  have "fold set_op ?ops (set [''a'', ''d'']) = {''b'', ''c'', ''d''}" by auto
  moreover have "sorted_list_of_set {''b'', ''c'', ''d''} = [''b'', ''c'', ''d'']" by simp
  ultimately show "let v = fold run_op ?ops (dv_reset [''a'', ''d''] v0) in
    fst (dv_view v) = [''b'', ''c'', ''d''] \<and> \<not> dv_contains v ''a''"
    using defineValues_refine_set [of "[''a'', ''d'']" ?ops v0 "''a''"]
    by (simp add: op_ok_def Let_def)
qed

end
