(* ===== verification/Conditional.thy ===== *)
theory Conditional
  imports Defines Syntax_Tree
begin

text \<open>
  Conditional compilation (\<open>internal/source/walk/conditional.go\<close>, and the constructors of
  \<open>walk.go\<close>): the values of \<open>#if\<close> conditions, the cursor over the defines and undefs of a file, the
  state of every conditional branch, and the uncertain and inactive nodes the later stages ask for.
\<close>

section \<open>The model under construction\<close>

datatype branch_state = BranchActive | BranchInactive | BranchUncertain

text \<open>
  The texts of nodes and tokens come from the parser. A Go map gives the zero value for a missing
  key, so a branch that was not visited counts as active; an \<open>#endinput\<close> offset of zero means none.
\<close>

record cond_model =
  cm_root :: node
  cm_index :: index
  cm_text :: "node \<Rightarrow> string"
  cm_tokText :: "node \<Rightarrow> string"
  cm_tokens :: "(file_token \<times> string) list"
  cm_defines :: "string list"
  cm_snapshots :: "(int \<times> string list) list"
  cm_complete :: bool
  cm_branches :: "nat \<Rightarrow> branch_state"
  cm_endinput :: int

definition opt_text :: "cond_model \<Rightarrow> node option \<Rightarrow> string" where
  "opt_text m n = (case n of None \<Rightarrow> [] | Some x \<Rightarrow> cm_text m x)"

definition set_branch :: "node \<Rightarrow> branch_state \<Rightarrow> cond_model \<Rightarrow> cond_model" where
  "set_branch n s m = m\<lparr>cm_branches := (cm_branches m)(n_id n := s)\<rparr>"

definition compilerConstant :: "string \<Rightarrow> int option" where
  "compilerConstant name =
    (if name = ''true'' then Some 1
     else if name \<in> {''false'', ''EOS'', ''charmin''} then Some 0
     else if name = ''cellbits'' then Some 32
     else if name = ''cellbytes'' then Some 4
     else if name = ''cellmax'' then Some 2147483647
     else if name = ''cellmin'' then Some (-2147483648)
     else if name = ''charbits'' then Some 8
     else if name \<in> {''charmax'', ''ucharmax''} then Some 255
     else None)"

section \<open>Which directives count\<close>

definition shared_kind :: "kind \<Rightarrow> bool" where
  "shared_kind k = (k \<in> {KindSharedConditional, KindConditionalFunction, KindConditionalSplice})"

definition directiveActive :: "cond_model \<Rightarrow> node \<Rightarrow> bool" where
  "directiveActive m n =
    (\<forall>a\<in>set (Ancestors (cm_index m) n).
      (n_kind a = KindConditionalBranch \<longrightarrow> cm_branches m (n_id a) = BranchActive) \<and>
      \<not> shared_kind (n_kind a))"

definition IsInsideConditionalBranch :: "cond_model \<Rightarrow> node \<Rightarrow> bool" where
  "IsInsideConditionalBranch m n =
    (\<exists>a\<in>set (Ancestors (cm_index m) n).
      n_kind a \<in> {KindConditionalRegion, KindConditionalBranch} \<or> shared_kind (n_kind a))"

text \<open>The name of an \<open>#undef\<close> is the identifier after the word \<open>undef\<close> among its tokens.\<close>

fun undef_name :: "node \<Rightarrow> bool \<Rightarrow> (file_token \<times> string) list \<Rightarrow> string" where
  "undef_name n seen [] = []"
| "undef_name n seen ((tok, txt) # toks) =
    (if ft_start tok \<ge> n_end n then []
     else if ft_start tok < n_start n \<or> ft_end tok > n_end n then undef_name n seen toks
     else if ft_kind tok \<noteq> Identifier then undef_name n seen toks
     else if \<not> seen then undef_name n (txt = ''undef'') toks
     else txt)"

definition directiveName :: "cond_model \<Rightarrow> node \<Rightarrow> string" where
  "directiveName m n =
    (if n_kind n = KindDirectiveDefine then opt_text m (field n ''name'')
     else if n_kind n \<noteq> KindDirectiveUndef then []
     else
       (let start = sort_search (length (cm_tokens m))
              (\<lambda>i. ft_end (fst (cm_tokens m ! i)) > n_start n)
        in undef_name n False (drop start (cm_tokens m))))"

section \<open>The cursor\<close>

text \<open>An index into the directives or the snapshots is the rest of the list.\<close>

record cursor =
  cu_offset :: int
  cu_directives :: "node list"
  cu_snapshots :: "(int \<times> string list) list"
  cu_values :: define_values

definition cursor_reset :: "cond_model \<Rightarrow> cursor \<Rightarrow> cursor" where
  "cursor_reset m c =
    \<lparr>cu_offset = -1, cu_directives = ix_directives (cm_index m), cu_snapshots = cm_snapshots m,
     cu_values = dv_reset (cm_defines m) (cu_values c)\<rparr>"

definition NewDefineCursor :: "cond_model \<Rightarrow> cursor" where
  "NewDefineCursor m = cursor_reset m
    \<lparr>cu_offset = 0, cu_directives = [], cu_snapshots = [],
     cu_values = \<lparr>dv_base = [], dv_added = [], dv_removed = [], dv_materialized = None\<rparr>\<rparr>"

definition before :: "cond_model \<Rightarrow> int \<Rightarrow> int \<Rightarrow> bool" where
  "before m offset x = (x < offset \<and> (cm_endinput m = 0 \<or> x < cm_endinput m))"

definition apply_directive :: "cond_model \<Rightarrow> node \<Rightarrow> define_values \<Rightarrow> define_values" where
  "apply_directive m n v =
    (if \<not> directiveActive m n then v
     else
       (let name = directiveName m n in
        if name = [] then v
        else if n_kind n = KindDirectiveUndef then dv_remove name v
        else dv_add name v))"

function advance_loop ::
  "cond_model \<Rightarrow> int \<Rightarrow> node list \<Rightarrow> (int \<times> string list) list \<Rightarrow> define_values \<Rightarrow>
    node list \<times> (int \<times> string list) list \<times> define_values" where
  "advance_loop m offset ds ss v =
    (let directiveReady = (ds \<noteq> [] \<and> before m offset (n_start (hd ds)));
         snapshotReady = (ss \<noteq> [] \<and> before m offset (fst (hd ss)))
     in if \<not> directiveReady \<and> \<not> snapshotReady then (ds, ss, v)
        else if snapshotReady \<and> (\<not> directiveReady \<or> fst (hd ss) \<le> n_start (hd ds))
        then advance_loop m offset ds (tl ss) (dv_reset (snd (hd ss)) v)
        else advance_loop m offset (tl ds) ss (apply_directive m (hd ds) v))"
  by pat_completeness auto
termination
  by (relation "measure (\<lambda>(m, offset, ds, ss, v). length ds + length ss)")
    (auto simp: neq_Nil_conv)

declare advance_loop.simps [simp del]

definition cursor_advance :: "cond_model \<Rightarrow> int \<Rightarrow> cursor \<Rightarrow> cursor" where
  "cursor_advance m offset c =
    (let c = (if offset < cu_offset c then cursor_reset m c else c);
         (ds, ss, v) = advance_loop m offset (cu_directives c) (cu_snapshots c) (cu_values c)
     in \<lparr>cu_offset = offset, cu_directives = ds, cu_snapshots = ss, cu_values = v\<rparr>)"

definition containsAt :: "cond_model \<Rightarrow> int \<Rightarrow> string \<Rightarrow> cursor \<Rightarrow> bool \<times> cursor" where
  "containsAt m offset name c =
    (let c = cursor_advance m offset c in (dv_contains (cu_values c) name, c))"

definition cursor_KnownDefinesAt :: "cond_model \<Rightarrow> int \<Rightarrow> cursor \<Rightarrow> string list \<times> cursor" where
  "cursor_KnownDefinesAt m offset c =
    (let c = cursor_advance m offset c; (names, v) = dv_view (cu_values c)
     in (names, c\<lparr>cu_values := v\<rparr>))"

definition KnownDefinesAt :: "cond_model \<Rightarrow> int \<Rightarrow> string list" where
  "KnownDefinesAt m offset = fst (cursor_KnownDefinesAt m offset (NewDefineCursor m))"

section \<open>The value of a condition\<close>

definition directiveBinaryValue :: "token_kind \<Rightarrow> int \<Rightarrow> int \<Rightarrow> int option" where
  "directiveBinaryValue k left right =
    (case k of
      Plus \<Rightarrow> Some (wrap64 (left + right))
    | Minus \<Rightarrow> Some (wrap64 (left - right))
    | Star \<Rightarrow> Some (wrap64 (left * right))
    | Slash \<Rightarrow> if right = 0 then None else Some (quot64 left right)
    | Percent \<Rightarrow> if right = 0 then None else Some (rem64 left right)
    | Shl \<Rightarrow> Some (shl64 left right)
    | Shr \<Rightarrow> Some (shr64 left right)
    | Ushr \<Rightarrow> Some (shr64 left right)
    | Amp \<Rightarrow> Some (and left right)
    | Pipe \<Rightarrow> Some (or left right)
    | Caret \<Rightarrow> Some (xor left right)
    | Eq \<Rightarrow> Some (bool_int (left = right))
    | NotEq \<Rightarrow> Some (bool_int (left \<noteq> right))
    | Lt \<Rightarrow> Some (bool_int (left < right))
    | LtEq \<Rightarrow> Some (bool_int (left \<le> right))
    | Gt \<Rightarrow> Some (bool_int (left > right))
    | GtEq \<Rightarrow> Some (bool_int (left \<ge> right))
    | AndAnd \<Rightarrow> Some (bool_int (left \<noteq> 0 \<and> right \<noteq> 0))
    | OrOr \<Rightarrow> Some (bool_int (left \<noteq> 0 \<or> right \<noteq> 0))
    | _ \<Rightarrow> None)"

definition directiveUnaryValue :: "token_kind \<Rightarrow> int \<Rightarrow> int option" where
  "directiveUnaryValue k v =
    (case k of Bang \<Rightarrow> Some (bool_int (v = 0)) | Plus \<Rightarrow> Some v | Minus \<Rightarrow> Some (wrap64 (- v)) | _ \<Rightarrow> None)"

text \<open>The cursor moves while a condition is evaluated, so it is passed along.\<close>

fun directiveValue :: "cond_model \<Rightarrow> int \<Rightarrow> node \<Rightarrow> cursor \<Rightarrow> int option \<times> cursor" where
  "directiveValue m offset n c =
    (if n_hasError n then (None, c)
     else if n_kind n = KindIdentifier then (compilerConstant (cm_text m n), c)
     else if n_kind n = KindParenthesizedExpression then
       (case field n ''expression'' of None \<Rightarrow> (None, c) | Some e \<Rightarrow> directiveValue m offset e c)
     else if n_kind n = KindDefinedExpression then
       (case field n ''name'' of
         None \<Rightarrow> (None, c)
       | Some name \<Rightarrow>
           (let (found, c) = containsAt m offset (cm_text m name) c
            in (if found then Some 1 else if cm_complete m then Some 0 else None, c)))
     else if n_kind n = KindLiteral then
       (if n_tok n = KwNull then Some 0
        else if n_tok n \<noteq> IntLiteral then None
        else literal_value (cm_tokText m n), c)
     else if n_kind n = KindUnaryExpression then
       (case field n ''expression'' of
         None \<Rightarrow> (None, c)
       | Some e \<Rightarrow>
           (let (v, c) = directiveValue m offset e c
            in (case v of None \<Rightarrow> None | Some x \<Rightarrow> directiveUnaryValue (n_tok n) x, c)))
     else if n_kind n = KindBinaryExpression then
       (let (l, c) = (case field n ''left'' of None \<Rightarrow> (None, c) | Some e \<Rightarrow> directiveValue m offset e c);
            (r, c) = (case field n ''right'' of None \<Rightarrow> (None, c) | Some e \<Rightarrow> directiveValue m offset e c)
        in (case (l, r) of (Some x, Some y) \<Rightarrow> directiveBinaryValue (n_tok n) x y | _ \<Rightarrow> None, c))
     else (None, c))"

declare directiveValue.simps [simp del]

section \<open>The state of the branches\<close>

fun region_branches :: "node list \<Rightarrow> branch_state \<Rightarrow> cursor \<Rightarrow> cond_model \<Rightarrow> cursor \<times> cond_model" where
  "region_branches [] reached c m = (c, m)"
| "region_branches (branch # bs) reached c m =
    (if n_kind branch \<noteq> KindConditionalBranch then region_branches bs reached c m
     else
       (let m = set_branch branch BranchUncertain m in
        case field branch ''directive'' of
          None \<Rightarrow> region_branches bs reached c m
        | Some dir \<Rightarrow>
            if n_kind dir = KindDirectiveEndif then region_branches bs reached c m
            else if reached = BranchInactive
            then region_branches bs reached c (set_branch branch BranchInactive m)
            else if n_kind dir = KindDirectiveElse
            then region_branches bs BranchInactive c (set_branch branch reached m)
            else
              (let (value, c) = (case field dir ''condition'' of
                   None \<Rightarrow> (None, c)
                 | Some condition \<Rightarrow> directiveValue m (n_start dir) condition c)
               in case value of
                 None \<Rightarrow> region_branches bs BranchUncertain c (set_branch branch BranchUncertain m)
               | Some v \<Rightarrow>
                   if v = 0 then region_branches bs reached c (set_branch branch BranchInactive m)
                   else region_branches bs BranchInactive c (set_branch branch reached m))))"

fun index_regions :: "node list \<Rightarrow> cursor \<Rightarrow> cond_model \<Rightarrow> cond_model" where
  "index_regions [] c m = m"
| "index_regions (region # rs) c m =
    (let (c, m) = region_branches (n_children region) BranchActive c m in index_regions rs c m)"

definition indexConditionalStates :: "cond_model \<Rightarrow> cond_model" where
  "indexConditionalStates m =
    index_regions (OfKind (cm_index m) KindConditionalRegion) (NewDefineCursor m) m"

fun endinput_loop :: "node list \<Rightarrow> cond_model \<Rightarrow> cond_model" where
  "endinput_loop [] m = m"
| "endinput_loop (n # ns) m =
    (if directiveActive m n \<and> (cm_endinput m = 0 \<or> n_end n < cm_endinput m)
     then endinput_loop ns (m\<lparr>cm_endinput := n_end n\<rparr>)
     else endinput_loop ns m)"

definition indexEndinput :: "cond_model \<Rightarrow> cond_model" where
  "indexEndinput m = endinput_loop (OfKind (cm_index m) KindDirectiveEndinput) m"

section \<open>The state of the nodes\<close>

text \<open>The uncertain and the inactive bit of every node; the flags come from the ancestors.\<close>

fun node_states :: "cond_model \<Rightarrow> bool \<Rightarrow> bool \<Rightarrow> bool \<Rightarrow> node \<Rightarrow> (nat \<Rightarrow> bool \<times> bool) \<Rightarrow> nat \<Rightarrow> bool \<times> bool" where
  "node_states m conditionalUncertain inactive ancestorError (Node i k t s e err fs cs) st =
    (let inactive = (inactive \<or> k \<noteq> KindSourceFile \<and> cm_endinput m \<noteq> 0 \<and> s \<ge> cm_endinput m);
         st = st(i := (fst (st i) \<or> err \<or> conditionalUncertain \<or> ancestorError, snd (st i) \<or> inactive));
         childUncertain = (conditionalUncertain \<or>
           k = KindConditionalBranch \<and> cm_branches m i \<noteq> BranchActive \<or> shared_kind k);
         childInactive = (inactive \<or> k = KindConditionalBranch \<and> cm_branches m i = BranchInactive);
         childError = (k \<noteq> KindSourceFile \<and> (ancestorError \<or> err))
     in fold (\<lambda>c st. node_states m childUncertain childInactive childError c st) cs st)"

definition indexNodeStates :: "cond_model \<Rightarrow> nat \<Rightarrow> bool \<times> bool" where
  "indexNodeStates m = node_states m False False False (cm_root m) (\<lambda>_. (False, False))"

section \<open>The constructors\<close>

definition cloneDefineSnapshots :: "(int \<times> string list) list \<Rightarrow> (int \<times> string list) list" where
  "cloneDefineSnapshots ss = stable_sort (\<lambda>a b. fst a < fst b) ss"

text \<open>\<open>newWithContext\<close> for a file with a root; the flag says whether the snapshots are cloned.\<close>

definition newWithContext ::
  "node \<Rightarrow> (node \<Rightarrow> string) \<Rightarrow> (node \<Rightarrow> string) \<Rightarrow> (file_token \<times> string) list \<Rightarrow> string list option \<Rightarrow>
    (int \<times> string list) list \<Rightarrow> bool \<Rightarrow> bool \<Rightarrow> cond_model \<times> walk_model" where
  "newWithContext root txt tokText tokens defines snapshots complete cloneSnapshots =
    (let m = \<lparr>cm_root = root, cm_index = NewIndex root, cm_text = txt, cm_tokText = tokText,
           cm_tokens = tokens,
           cm_defines = (case defines of None \<Rightarrow> NewDefineContext [] | Some names \<Rightarrow> names),
           cm_snapshots = (if cloneSnapshots then cloneDefineSnapshots snapshots else snapshots),
           cm_complete = complete, cm_branches = (\<lambda>_. BranchActive), cm_endinput = 0\<rparr>;
         m = indexEndinput (indexConditionalStates m);
         states = indexNodeStates m
     in (m, \<lparr>wm_index = cm_index m, wm_text = txt, wm_uncertain = (\<lambda>i. fst (states i)),
          wm_inactive = (\<lambda>i. snd (states i))\<rparr>))"

definition NewWithContext ::
  "node \<Rightarrow> (node \<Rightarrow> string) \<Rightarrow> (node \<Rightarrow> string) \<Rightarrow> (file_token \<times> string) list \<Rightarrow> string list option \<Rightarrow>
    (int \<times> string list) list \<Rightarrow> bool \<Rightarrow> cond_model \<times> walk_model" where
  "NewWithContext root txt tokText tokens defines snapshots complete =
    newWithContext root txt tokText tokens defines snapshots complete True"

definition NewWithDefineSnapshots ::
  "node \<Rightarrow> (node \<Rightarrow> string) \<Rightarrow> (node \<Rightarrow> string) \<Rightarrow> (file_token \<times> string) list \<Rightarrow> string list \<Rightarrow>
    (int \<times> string list) list \<Rightarrow> cond_model \<times> walk_model" where
  "NewWithDefineSnapshots root txt tokText tokens defines snapshots =
    NewWithContext root txt tokText tokens (Some (NewDefineContext defines)) snapshots False"

section \<open>The cursor does not depend on its history\<close>

lemma before_mono: "before m o1 x \<Longrightarrow> o1 \<le> o2 \<Longrightarrow> before m o2 x"
  by (auto simp: before_def)

lemma before_down: "before m off y \<Longrightarrow> x \<le> y \<Longrightarrow> before m off x"
  by (auto simp: before_def)

lemma before_gap: "before m o1 x \<Longrightarrow> \<not> before m o1 y \<Longrightarrow> before m o2 y \<Longrightarrow> x \<le> y"
  by (auto simp: before_def)

lemma advance_loop_stop:
  "(ds = [] \<or> \<not> before m off (n_start (hd ds))) \<Longrightarrow> (ss = [] \<or> \<not> before m off (fst (hd ss))) \<Longrightarrow>
    advance_loop m off ds ss v = (ds, ss, v)"
  by (subst advance_loop.simps) (auto simp: Let_def)

lemma advance_loop_snapshot:
  "before m off (fst s) \<Longrightarrow> ds = [] \<or> \<not> before m off (n_start (hd ds)) \<or> fst s \<le> n_start (hd ds) \<Longrightarrow>
    advance_loop m off ds (s # ss) v = advance_loop m off ds ss (dv_reset (snd s) v)"
  by (subst advance_loop.simps) (auto simp: Let_def)

lemma advance_loop_directive:
  "before m off (n_start d) \<Longrightarrow> ss = [] \<or> \<not> before m off (fst (hd ss)) \<or> n_start d < fst (hd ss) \<Longrightarrow>
    advance_loop m off (d # ds) ss v = advance_loop m off ds ss (apply_directive m d v)"
  by (subst advance_loop.simps) (auto simp: Let_def)

text \<open>The three cases of a step, as a case distinction on what is left.\<close>

lemma advance_cases [case_names stop snapshot directive]:
  assumes "(ds = [] \<or> \<not> before m off (n_start (hd ds))) \<Longrightarrow> (ss = [] \<or> \<not> before m off (fst (hd ss))) \<Longrightarrow> P"
    and "\<And>s ss'. ss = s # ss' \<Longrightarrow> before m off (fst s) \<Longrightarrow>
      ds = [] \<or> \<not> before m off (n_start (hd ds)) \<or> fst s \<le> n_start (hd ds) \<Longrightarrow> P"
    and "\<And>d ds'. ds = d # ds' \<Longrightarrow> before m off (n_start d) \<Longrightarrow>
      ss = [] \<or> \<not> before m off (fst (hd ss)) \<or> n_start d < fst (hd ss) \<Longrightarrow> P"
  shows P
  using assms by (cases ds; cases ss) (auto, meson linorder_not_le)

lemma advance_loop_compose:
  assumes "o1 \<le> o2"
  shows "(case advance_loop m o1 ds ss v of (ds', ss', v') \<Rightarrow> advance_loop m o2 ds' ss' v') =
    advance_loop m o2 ds ss v"
proof (induction "length ds + length ss" arbitrary: ds ss v rule: less_induct)
  case less
  show ?case
  proof (cases rule: advance_cases [of ds m o1 ss])
    case stop
    then show ?thesis by (simp add: advance_loop_stop)
  next
    case (snapshot s ss')
    moreover have "before m o2 (fst s)" using snapshot assms before_mono by blast
    moreover have "ds = [] \<or> \<not> before m o2 (n_start (hd ds)) \<or> fst s \<le> n_start (hd ds)"
      using snapshot before_gap by blast
    ultimately show ?thesis using less [of ds ss'] by (simp add: advance_loop_snapshot)
  next
    case (directive d ds')
    moreover have "before m o2 (n_start d)" using directive assms before_mono by blast
    moreover have "ss = [] \<or> \<not> before m o2 (fst (hd ss)) \<or> n_start d < fst (hd ss)"
    proof -
      have "n_start d < fst (hd ss)" if "\<not> before m o1 (fst (hd ss))" "before m o2 (fst (hd ss))"
        using that directive(2) by (auto simp: before_def)
      with directive show ?thesis by blast
    qed
    ultimately show ?thesis using less [of ds' ss] by (simp add: advance_loop_directive)
  qed
qed

lemma dv_reset_any: "dv_reset names v = dv_reset names w"
  by (simp add: dv_reset_def)

lemma cursor_reset_New: "cursor_reset m c = NewDefineCursor m"
  unfolding NewDefineCursor_def cursor_reset_def using dv_reset_any by simp

lemma NewDefineCursor_offset: "cu_offset (NewDefineCursor m) = -1"
  by (simp add: NewDefineCursor_def cursor_reset_def)

lemma cursor_advance_twice:
  "cursor_advance m o2 (cursor_advance m o1 (NewDefineCursor m)) = cursor_advance m o2 (NewDefineCursor m)"
proof (cases "o2 < o1")
  case True
  then have "cursor_advance m o2 c = cursor_advance m o2 (NewDefineCursor m)" if "cu_offset c = o1" for c
    using that by (simp add: cursor_advance_def cursor_reset_New)
  moreover have "cu_offset (cursor_advance m o1 (NewDefineCursor m)) = o1"
    by (simp add: cursor_advance_def Let_def split: prod.split)
  ultimately show ?thesis by blast
next
  case False
  let ?n = "NewDefineCursor m"
  have "(case advance_loop m o1 (cu_directives ?n) (cu_snapshots ?n) (cu_values ?n) of
      (ds', ss', v') \<Rightarrow> advance_loop m o2 ds' ss' v') =
      advance_loop m o2 (cu_directives ?n) (cu_snapshots ?n) (cu_values ?n)"
    using False by (intro advance_loop_compose) simp
  with False show ?thesis
    by (auto simp: cursor_advance_def Let_def cursor_reset_New split: prod.splits)
qed

text \<open>
  The cursor is a cache. Whatever offsets it was moved to before, forwards or backwards, at an
  offset it holds exactly what a new cursor moved there holds.
\<close>

theorem DefineCursor_history:
  "cursor_advance m off (fold (cursor_advance m) history (NewDefineCursor m)) =
    cursor_advance m off (NewDefineCursor m)"
proof -
  have "fold (cursor_advance m) history (NewDefineCursor m) = NewDefineCursor m \<or>
      (\<exists>o1. fold (cursor_advance m) history (NewDefineCursor m) = cursor_advance m o1 (NewDefineCursor m))"
  proof (induction history rule: rev_induct)
    case (snoc o1 history)
    then show ?case using cursor_advance_twice by (auto simp: fold_append)
  qed simp
  then show ?thesis using cursor_advance_twice by auto
qed

section \<open>The names known at an offset\<close>

definition effect :: "cond_model \<Rightarrow> node \<Rightarrow> string set \<Rightarrow> string set" where
  "effect m d K =
    (if \<not> directiveActive m d \<or> directiveName m d = [] then K
     else if n_kind d = KindDirectiveUndef then K - {directiveName m d}
     else insert (directiveName m d) K)"

lemma apply_directive_ok:
  "dv_ok v \<Longrightarrow> dv_ok (apply_directive m d v) \<and> known (apply_directive m d v) = effect m d (known v)"
  using dv_add_ok [of v "directiveName m d"] dv_remove_ok [of v "directiveName m d"]
  by (auto simp: apply_directive_def effect_def Let_def)

definition last_snapshot :: "cond_model \<Rightarrow> int \<Rightarrow> (int \<times> string list) list \<Rightarrow> (int \<times> string list) option" where
  "last_snapshot m off ss =
    (let ready = filter (\<lambda>s. before m off (fst s)) ss in if ready = [] then None else Some (last ready))"

definition replay :: "cond_model \<Rightarrow> int \<Rightarrow> node list \<Rightarrow> (int \<times> string list) list \<Rightarrow> string set \<Rightarrow> string set" where
  "replay m off ds ss K =
    (case last_snapshot m off ss of
      None \<Rightarrow> fold (effect m) (filter (\<lambda>d. before m off (n_start d)) ds) K
    | Some s \<Rightarrow> fold (effect m) (filter (\<lambda>d. before m off (n_start d) \<and> fst s \<le> n_start d) ds) (set (snd s)))"

lemma none_before:
  assumes "xs = [] \<or> \<not> before m off (f (hd xs))" and "sorted (map f xs)"
  shows "filter (\<lambda>x. before m off (f x)) xs = []"
  using assms before_down by (cases xs) (auto simp: filter_empty_conv)

lemma advance_loop_replay:
  assumes "advance_loop m off ds ss v = (ds', ss', v')" and "dv_ok v"
    and "sorted (map n_start ds)" and "sorted (map fst ss)" and "\<forall>s\<in>set ss. strictly (snd s)"
  shows "dv_ok v' \<and> known v' = replay m off ds ss (known v)"
  using assms
proof (induction "length ds + length ss" arbitrary: ds ss v rule: less_induct)
  case less
  show ?case
  proof (cases rule: advance_cases [of ds m off ss])
    case stop
    then have "filter (\<lambda>d. before m off (n_start d)) ds = []" "filter (\<lambda>s. before m off (fst s)) ss = []"
      using none_before [of ds m off n_start] none_before [of ss m off fst] less.prems(3,4) by blast+
    with stop less.prems show ?thesis
      by (simp add: advance_loop_stop replay_def last_snapshot_def)
  next
    case (snapshot s ss1)
    with less.prems(1) have run: "advance_loop m off ds ss1 (dv_reset (snd s) v) = (ds', ss', v')"
      by (simp add: advance_loop_snapshot)
    have ok: "dv_ok (dv_reset (snd s) v)" "known (dv_reset (snd s) v) = set (snd s)"
      using dv_reset_ok less.prems(5) snapshot(1) by auto
    have "dv_ok v' \<and> known v' = replay m off ds ss1 (set (snd s))"
      using less.hyps [OF _ run ok(1)] less.prems(3-5) snapshot(1) ok(2) by auto
    moreover have "replay m off ds ss1 (set (snd s)) = replay m off ds ss K" for K
    proof (cases "filter (\<lambda>s. before m off (fst s)) ss1 = []")
      case True
      have "filter (\<lambda>d. before m off (n_start d)) ds =
          filter (\<lambda>d. before m off (n_start d) \<and> fst s \<le> n_start d) ds"
      proof (cases "ds = [] \<or> \<not> before m off (n_start (hd ds))")
        case True
        from none_before [OF this less.prems(3)] show ?thesis by (auto simp: filter_empty_conv)
      next
        case False
        then have "\<forall>d\<in>set ds. fst s \<le> n_start d"
          using snapshot(3) less.prems(3) by (cases ds) auto
        then show ?thesis by (intro filter_cong) auto
      qed
      with True snapshot(1,2) show ?thesis by (simp add: replay_def last_snapshot_def)
    next
      case False
      with snapshot(1,2) show ?thesis by (simp add: replay_def last_snapshot_def)
    qed
    ultimately show ?thesis by simp
  next
    case (directive d ds1)
    with less.prems(1) have run: "advance_loop m off ds1 ss (apply_directive m d v) = (ds', ss', v')"
      by (simp add: advance_loop_directive)
    note ok = apply_directive_ok [OF less.prems(2), of m d]
    have "dv_ok v' \<and> known v' = replay m off ds1 ss (effect m d (known v))"
      using less.hyps [OF _ run] less.prems(3-5) directive(1) ok by auto
    moreover have "replay m off ds1 ss (effect m d K) = replay m off ds ss K" for K
    proof (cases "filter (\<lambda>s. before m off (fst s)) ss = []")
      case True
      with directive(1,2) show ?thesis by (simp add: replay_def last_snapshot_def)
    next
      case False
      let ?l = "last (filter (\<lambda>s. before m off (fst s)) ss)"
      have "ss \<noteq> []" "before m off (fst (hd ss))"
        using False none_before [of ss m off fst] less.prems(4) by auto
      moreover have "?l \<in> set ss" using False last_in_set by fastforce
      ultimately have "fst (hd ss) \<le> fst ?l" using less.prems(4) by (cases ss) auto
      moreover have "n_start d < fst (hd ss)" using directive(3) \<open>ss \<noteq> []\<close> \<open>before m off (fst (hd ss))\<close> by blast
      ultimately have "\<not> fst ?l \<le> n_start d" by simp
      with False directive(1) show ?thesis by (simp add: replay_def last_snapshot_def Let_def)
    qed
    ultimately show ?thesis by simp
  qed
qed

text \<open>
  C15: the names known at an offset are those of the last snapshot before it, or of the command line
  and the compiler when there is none, changed by the active defines and undefs between that
  snapshot and the offset in order; the answer lists each once in ascending order.
\<close>

theorem KnownDefinesAt_correct:
  assumes "strictly (cm_defines m)" and "\<forall>s\<in>set (cm_snapshots m). strictly (snd s)"
    and "sorted (map n_start (ix_directives (cm_index m)))" and "sorted (map fst (cm_snapshots m))"
  shows "KnownDefinesAt m off =
    sorted_list_of_set (replay m off (ix_directives (cm_index m)) (cm_snapshots m) (set (cm_defines m)))"
proof -
  let ?ds = "ix_directives (cm_index m)" and ?ss = "cm_snapshots m"
  let ?v = "dv_reset (cm_defines m) \<lparr>dv_base = [], dv_added = [], dv_removed = [], dv_materialized = None\<rparr>"
  obtain ds' ss' v' where run: "advance_loop m off ?ds ?ss ?v = (ds', ss', v')" by (metis prod_cases3)
  have ok: "dv_ok ?v" "known ?v = set (cm_defines m)" using dv_reset_ok [OF assms(1)] by auto
  note v' = advance_loop_replay [OF run ok(1) assms(3,4,2)]
  have "KnownDefinesAt m off = fst (dv_view v')"
    using run by (simp add: KnownDefinesAt_def cursor_KnownDefinesAt_def cursor_advance_def
        NewDefineCursor_def cursor_reset_def Let_def dv_reset_def split: prod.splits)
  moreover have "fst (dv_view v') = sorted_list_of_set (known v')"
    using dv_view_ok v' by (metis sorted_list_of_set.idem_if_sorted_distinct strict_sorted_iff)
  ultimately show ?thesis using v' ok(2) by simp
qed

section \<open>What the states of the branches mean\<close>

text \<open>The directive that opens a branch, unless it only closes the region.\<close>

definition branch_directive :: "node \<Rightarrow> node option" where
  "branch_directive b =
    (if n_kind b \<noteq> KindConditionalBranch then None
     else (case field b ''directive'' of
       None \<Rightarrow> None | Some d \<Rightarrow> if n_kind d = KindDirectiveEndif then None else Some d))"

text \<open>
  The preprocessor compiles the first branch of a region whose condition holds, or the else. The
  truth of the conditions is arbitrary where the linter cannot know it.
\<close>

fun taken :: "(node \<Rightarrow> bool) \<Rightarrow> node list \<Rightarrow> bool \<Rightarrow> node list" where
  "taken truth [] done_before = []"
| "taken truth (b # bs) done_before =
    (case branch_directive b of
      None \<Rightarrow> taken truth bs done_before
    | Some d \<Rightarrow>
        if \<not> done_before \<and> (n_kind d = KindDirectiveElse \<or> truth b) then b # taken truth bs True
        else taken truth bs done_before)"

definition condition_value :: "cond_model \<Rightarrow> cursor \<Rightarrow> node \<Rightarrow> int option \<times> cursor" where
  "condition_value m c d =
    (case field d ''condition'' of None \<Rightarrow> (None, c) | Some e \<Rightarrow> directiveValue m (n_start d) e c)"

text \<open>The conditions the loop evaluates, with their values.\<close>

fun evaluated :: "node list \<Rightarrow> branch_state \<Rightarrow> cursor \<Rightarrow> cond_model \<Rightarrow> (node \<times> int) list" where
  "evaluated [] reached c m = []"
| "evaluated (b # bs) reached c m =
    (case branch_directive b of
      None \<Rightarrow> evaluated bs reached c
        (if n_kind b = KindConditionalBranch then set_branch b BranchUncertain m else m)
    | Some d \<Rightarrow>
        let m = set_branch b BranchUncertain m in
        if reached = BranchInactive then evaluated bs reached c (set_branch b BranchInactive m)
        else if n_kind d = KindDirectiveElse then evaluated bs BranchInactive c (set_branch b reached m)
        else (case condition_value m c d of
            (None, c) \<Rightarrow> evaluated bs BranchUncertain c (set_branch b BranchUncertain m)
          | (Some v, c) \<Rightarrow> (b, v) #
              (if v = 0 then evaluated bs reached c (set_branch b BranchInactive m)
               else evaluated bs BranchInactive c (set_branch b reached m))))"

lemma region_branches_step:
  "region_branches (b # bs) reached c m =
    (case branch_directive b of
      None \<Rightarrow> region_branches bs reached c
        (if n_kind b = KindConditionalBranch then set_branch b BranchUncertain m else m)
    | Some d \<Rightarrow>
        let m = set_branch b BranchUncertain m in
        if reached = BranchInactive then region_branches bs reached c (set_branch b BranchInactive m)
        else if n_kind d = KindDirectiveElse then region_branches bs BranchInactive c (set_branch b reached m)
        else (case condition_value m c d of
            (None, c) \<Rightarrow> region_branches bs BranchUncertain c (set_branch b BranchUncertain m)
          | (Some v, c) \<Rightarrow>
              (if v = 0 then region_branches bs reached c (set_branch b BranchInactive m)
               else region_branches bs BranchInactive c (set_branch b reached m))))"
  by (auto simp: branch_directive_def condition_value_def Let_def split: option.split prod.split)

lemma cm_branches_set_branch [simp]:
  "cm_branches (set_branch b st m) i = (if i = n_id b then st else cm_branches m i)"
  by (simp add: set_branch_def)

lemma region_branches_other:
  "i \<notin> n_id ` set bs \<Longrightarrow> cm_branches (snd (region_branches bs reached c m)) i = cm_branches m i"
  by (induction bs arbitrary: reached c m)
    (auto simp: region_branches_step Let_def simp del: region_branches.simps(2)
      split: option.split prod.split)

text \<open>How far a branch was reached says whether an earlier one is taken.\<close>

definition reached_means :: "branch_state \<Rightarrow> bool \<Rightarrow> bool" where
  "reached_means reached done_before =
    ((reached = BranchActive \<longrightarrow> \<not> done_before) \<and> (reached = BranchInactive \<longrightarrow> done_before))"

definition state_means :: "branch_state \<Rightarrow> bool \<Rightarrow> bool" where
  "state_means st is_taken = ((st = BranchActive \<longrightarrow> is_taken) \<and> (st = BranchInactive \<longrightarrow> \<not> is_taken))"

lemma reached_means_simps [simp]:
  "reached_means BranchActive e = (\<not> e)" "reached_means BranchInactive e = e" "reached_means BranchUncertain e"
  by (simp_all add: reached_means_def)

lemma state_means_simps [simp]:
  "state_means BranchActive t = t" "state_means BranchInactive t = (\<not> t)" "state_means BranchUncertain t"
  by (simp_all add: state_means_def)

lemma state_means_reached: "reached_means r e \<Longrightarrow> r \<noteq> BranchInactive \<Longrightarrow> state_means r (\<not> e)"
  by (cases r) auto

lemma taken_done [simp]: "taken truth bs True = []"
  by (induction bs) (auto split: option.split)

lemma taken_subset: "set (taken truth bs done_before) \<subseteq> set bs"
  by (induction bs arbitrary: done_before) (auto split: option.split if_splits)

lemma region_states_sound:
  assumes "distinct (map n_id bs)" and "reached_means reached done_before"
    and "\<forall>(b, v)\<in>set (evaluated bs reached c m). truth b = (v \<noteq> 0)"
    and "b \<in> set bs" and "branch_directive b \<noteq> None"
  shows "state_means (cm_branches (snd (region_branches bs reached c m)) (n_id b))
    (b \<in> set (taken truth bs done_before))"
  using assms
proof (induction bs arbitrary: reached done_before c m)
  case (Cons x xs)
  have fresh: "n_id x \<notin> n_id ` set xs" "x \<notin> set xs" using Cons.prems(1) by auto
  have here: "cm_branches (snd (region_branches xs r c' (set_branch x st m'))) (n_id x) = st" for r c' st m'
    using region_branches_other [OF fresh(1)] by simp
  have not_later: "x \<notin> set (taken truth xs d)" for d using fresh(2) taken_subset by blast
  have later: "state_means (cm_branches (snd (region_branches xs r c' m')) (n_id b)) (b \<in> set (taken truth xs d))"
    if "reached_means r d" "\<forall>(b, v)\<in>set (evaluated xs r c' m'). truth b = (v \<noteq> 0)" "b \<noteq> x" for r d c' m'
    using Cons.IH [OF _ that(1,2)] Cons.prems(1,4,5) that(3) by simp
  show ?case
  proof (cases "branch_directive x")
    case None
    then have "b \<noteq> x" using Cons.prems(5) by auto
    with later Cons.prems(2,3) None show ?thesis
      by (simp add: region_branches_step del: region_branches.simps(2))
  next
    case (Some d)
    let ?m = "set_branch x BranchUncertain m"
    note step = region_branches_step [of x xs reached c m, unfolded Some option.case Let_def]
    note agree = Cons.prems(3) [unfolded evaluated.simps Some option.case Let_def]
    show ?thesis
    proof (cases "reached = BranchInactive")
      case True
      then have "done_before" using Cons.prems(2) by simp
      with True agree step Some later [of BranchInactive True c "set_branch x BranchInactive ?m"] here
      show ?thesis by (cases "b = x") simp_all
    next
      case live: False
      show ?thesis
      proof (cases "n_kind d = KindDirectiveElse")
        case True
        have "b \<in> set (taken truth (x # xs) done_before) \<longleftrightarrow> (if b = x then \<not> done_before else b \<in> set (taken truth xs True))"
          using Some True not_later by (cases done_before) auto
        with True live agree step later [of BranchInactive True c "set_branch x reached ?m"] here
          state_means_reached [OF Cons.prems(2) live]
        show ?thesis by (cases "b = x") simp_all
      next
        case cond: False
        obtain v c' where v: "condition_value ?m c d = (v, c')" by force
        show ?thesis
        proof (cases v)
          case None
          have "b \<noteq> x \<Longrightarrow> b \<in> set (taken truth (x # xs) done_before) \<longleftrightarrow>
              b \<in> set (taken truth xs (done_before \<or> truth x))"
            using Some cond by (cases done_before) auto
          with None v cond live agree step here
            later [of BranchUncertain "done_before \<or> truth x" c' "set_branch x BranchUncertain ?m"]
          show ?thesis by (cases "b = x") simp_all
        next
          case val: (Some n)
          from agree val v cond live have truth: "truth x = (n \<noteq> 0)" by simp
          show ?thesis
          proof (cases "n = 0")
            case True
            have "b \<in> set (taken truth (x # xs) done_before) \<longleftrightarrow> b \<in> set (taken truth xs done_before)"
              using Some cond truth True by auto
            with True val v cond live agree step here not_later Cons.prems(2)
              later [of reached done_before c' "set_branch x BranchInactive ?m"]
            show ?thesis by (cases "b = x") simp_all
          next
            case False
            have "b \<in> set (taken truth (x # xs) done_before) \<longleftrightarrow>
                (if b = x then \<not> done_before else b \<in> set (taken truth xs True))"
              using Some truth False not_later by (cases done_before) auto
            with False val v cond live agree step here
              later [of BranchInactive True c' "set_branch x reached ?m"]
              state_means_reached [OF Cons.prems(2) live]
            show ?thesis by (cases "b = x") simp_all
          qed
        qed
      qed
    qed
  qed
qed simp


section \<open>What the states of the nodes mean\<close>

definition inside :: "node \<Rightarrow> node \<Rightarrow> bool" where
  "inside n a = (\<exists>c\<in>set (n_children a). n \<in> set (All_nodes c))"

text \<open>What an ancestor does to the nodes inside it.\<close>

definition blurs :: "cond_model \<Rightarrow> node \<Rightarrow> bool" where
  "blurs m a = (n_kind a = KindConditionalBranch \<and> cm_branches m (n_id a) \<noteq> BranchActive \<or>
    shared_kind (n_kind a) \<or> n_kind a \<noteq> KindSourceFile \<and> n_hasError a)"

definition after_endinput :: "cond_model \<Rightarrow> node \<Rightarrow> bool" where
  "after_endinput m n = (n_kind n \<noteq> KindSourceFile \<and> cm_endinput m \<noteq> 0 \<and> n_start n \<ge> cm_endinput m)"

definition removes :: "cond_model \<Rightarrow> node \<Rightarrow> bool" where
  "removes m a = (n_kind a = KindConditionalBranch \<and> cm_branches m (n_id a) = BranchInactive \<or> after_endinput m a)"

lemma size_All_nodes: "x \<in> set (All_nodes n) \<Longrightarrow> size x \<le> size n"
proof (induction n rule: All_nodes.induct)
  case (1 i k t s e b fs cs)
  then show ?case using size_child [of _ "Node i k t s e b fs cs"] by fastforce
qed

lemma not_inside_root: "a \<in> set (All_nodes n) \<Longrightarrow> \<not> inside n a"
  unfolding inside_def using size_All_nodes size_child by (meson not_less order_trans)

lemma inside_in: "a \<in> set (All_nodes n) \<Longrightarrow> inside x a \<Longrightarrow> x \<in> set (All_nodes n)"
  unfolding inside_def using All_nodes_child All_nodes_trans by blast

lemma ids_Node: "ids (Node i k t s e b fs cs) = i # concat (map ids cs)"
  by (simp add: ids_def [abs_def] map_concat comp_def)

lemma ids_apart:
  "distinct (concat (map ids cs)) \<Longrightarrow> c \<in> set cs \<Longrightarrow> d \<in> set cs \<Longrightarrow> j \<in> set (ids c) \<Longrightarrow> j \<in> set (ids d) \<Longrightarrow> c = d"
  by (induction cs) auto

lemma inside_split:
  assumes "n = Node i k t s e b fs cs" and "one_object n" and "c \<in> set cs" and "x \<in> set (All_nodes c)"
  shows "(\<exists>a\<in>set (All_nodes n). inside x a \<and> P a) \<longleftrightarrow> P n \<or> (\<exists>a\<in>set (All_nodes c). inside x a \<and> P a)"
proof -
  have "inside x n" using assms(1,3,4) by (auto simp: inside_def)
  moreover have "d = c" if "d \<in> set cs" "a \<in> set (All_nodes d)" "inside x a" for a d
  proof -
    have "x \<in> set (All_nodes d)" using inside_in that by blast
    then have "n_id x \<in> set (ids d)" "n_id x \<in> set (ids c)" using assms(4) by (auto simp: ids_def)
    moreover have "distinct (concat (map ids cs))" using assms(1,2) by (simp add: one_object_def ids_Node)
    ultimately show ?thesis using ids_apart assms(3) that(1) by blast
  qed
  ultimately show ?thesis using assms(1,3) by auto
qed

lemma node_states_other:
  "j \<notin> set (ids n) \<Longrightarrow> node_states m cu ia ae n st j = st j"
proof (induction n arbitrary: cu ia ae st rule: All_nodes.induct)
  case (1 i k t s e b fs cs)
  have "fold (\<lambda>c st. node_states m cu' ia' ae' c st) ds st' j = st' j" if "set ds \<subseteq> set cs" for cu' ia' ae' ds st'
    using that
  proof (induction ds arbitrary: st')
    case (Cons d ds)
    then show ?case using 1 by (auto simp: ids_Node)
  qed simp
  with 1(2) show ?case by (simp add: ids_Node Let_def)
qed

lemma fold_node_states:
  assumes "distinct (concat (map ids cs))" and "c \<in> set cs" and "j \<in> set (ids c)"
  shows "\<exists>st'. st' j = st j \<and>
    fold (\<lambda>c st. node_states m cu ia ae c st) cs st j = node_states m cu ia ae c st' j"
proof -
  from split_list [OF assms(2)] obtain pre post where cs: "cs = pre @ c # post" by blast
  have other: "fold (\<lambda>c st. node_states m cu ia ae c st) ds st0 j = st0 j"
    if "\<forall>d\<in>set ds. j \<notin> set (ids d)" for ds st0
    using that by (induction ds arbitrary: st0) (simp_all add: node_states_other)
  have "\<forall>d\<in>set pre. j \<notin> set (ids d)" "\<forall>d\<in>set post. j \<notin> set (ids d)"
    using assms(1,3) cs by auto
  with other show ?thesis unfolding cs by (auto intro!: exI [of _ "fold (\<lambda>c st. node_states m cu ia ae c st) pre st"])
qed

lemma node_states_meaning:
  assumes "one_object n" and "\<forall>x\<in>set (All_nodes n). n_kind x = KindSourceFile \<longrightarrow> x = n"
    and "n_kind n = KindSourceFile \<longrightarrow> \<not> ae" and "x \<in> set (All_nodes n)" and "st (n_id x) = (False, False)"
  shows "node_states m cu ia ae n st (n_id x) =
    (cu \<or> ae \<or> n_hasError x \<or> (\<exists>a\<in>set (All_nodes n). inside x a \<and> blurs m a),
     ia \<or> after_endinput m x \<or> (\<exists>a\<in>set (All_nodes n). inside x a \<and> removes m a))"
  using assms
proof (induction n arbitrary: cu ia ae st rule: All_nodes.induct)
  case (1 i k t s e err fs cs)
  let ?n = "Node i k t s e err fs cs"
  let ?ia = "ia \<or> after_endinput m ?n"
  let ?st = "st(i := (fst (st i) \<or> err \<or> cu \<or> ae, snd (st i) \<or> ?ia))"
  let ?cu = "cu \<or> k = KindConditionalBranch \<and> cm_branches m i \<noteq> BranchActive \<or> shared_kind k"
  let ?ci = "?ia \<or> k = KindConditionalBranch \<and> cm_branches m i = BranchInactive"
  let ?ce = "k \<noteq> KindSourceFile \<and> (ae \<or> err)"
  have run: "node_states m cu ia ae ?n st = fold (\<lambda>c st. node_states m ?cu ?ci ?ce c st) cs ?st"
    by (simp add: Let_def after_endinput_def)
  have distinct: "distinct (concat (map ids cs))" "i \<notin> set (concat (map ids cs))"
    using 1(2) by (simp_all add: one_object_def ids_Node)
  show ?case
  proof (cases "x = ?n")
    case True
    have "fold (\<lambda>c st. node_states m ?cu ?ci ?ce c st) ds st' i = st' i" if "set ds \<subseteq> set cs" for ds st'
      using that distinct(2) by (induction ds arbitrary: st') (auto simp: node_states_other)
    moreover have "\<not> inside ?n a" if "a \<in> set (All_nodes ?n)" for a using not_inside_root that by blast
    ultimately show ?thesis using True 1(6) unfolding run by auto
  next
    case False
    then obtain c where c: "c \<in> set cs" "x \<in> set (All_nodes c)" using 1(5) by auto
    have j: "n_id x \<in> set (ids c)" using c(2) by (simp add: ids_def)
    then have "n_id x \<noteq> i" using distinct(2) c(1) by auto
    with 1(6) have "?st (n_id x) = (False, False)" by simp
    with fold_node_states [OF distinct(1) c(1) j, of ?st m ?cu ?ci ?ce] obtain st' where
      st': "st' (n_id x) = (False, False)" "node_states m cu ia ae ?n st (n_id x) = node_states m ?cu ?ci ?ce c st' (n_id x)"
      unfolding run by auto
    have "one_object c"
      using distinct(1) c(1) unfolding one_object_def by (metis distinct_concat_iff image_eqI list.set_map)
    moreover have nofile: "n_kind y \<noteq> KindSourceFile" if "y \<in> set (All_nodes c)" for y
    proof
      assume "n_kind y = KindSourceFile"
      then have "y = ?n" using 1(3) that c(1) by auto
      then show False using size_All_nodes [OF that] size_child [of c ?n] c(1) by simp
    qed
    ultimately have "node_states m ?cu ?ci ?ce c st' (n_id x) =
        (?cu \<or> ?ce \<or> n_hasError x \<or> (\<exists>a\<in>set (All_nodes c). inside x a \<and> blurs m a),
         ?ci \<or> after_endinput m x \<or> (\<exists>a\<in>set (All_nodes c). inside x a \<and> removes m a))"
      by (intro 1(1) [OF c(1)]) (use st'(1) c(2) nofile in auto)
    moreover have "(cu \<or> ae \<or> blurs m ?n) = (?cu \<or> ?ce)" "(ia \<or> removes m ?n) = ?ci"
      using 1(4) by (auto simp: blurs_def removes_def)
    ultimately show ?thesis
      unfolding st'(2) inside_split [OF refl 1(2) c] by auto
  qed
qed

text \<open>
  C16: the two bits of a node. In a parsed file a node is uncertain exactly when it has a syntax error
  or lies inside a branch not known to be compiled, a shared conditional or a node with an error other
  than the file itself; it is inactive exactly when it starts after an active end of input or lies
  inside something that does, or inside a branch known not to be compiled.
\<close>

theorem indexNodeStates_correct:
  assumes "one_object (cm_root m)"
    and "\<forall>x\<in>set (All_nodes (cm_root m)). n_kind x = KindSourceFile \<longrightarrow> x = cm_root m"
    and "x \<in> set (All_nodes (cm_root m))"
  shows "indexNodeStates m (n_id x) =
    (n_hasError x \<or> (\<exists>a\<in>set (All_nodes (cm_root m)). inside x a \<and> blurs m a),
     after_endinput m x \<or> (\<exists>a\<in>set (All_nodes (cm_root m)). inside x a \<and> removes m a))"
  using node_states_meaning [OF assms(1,2) _ assms(3), of False "\<lambda>_. (False, False)" m False False]
  by (simp add: indexNodeStates_def)

section \<open>An example file\<close>

text \<open>
  \<open>#define A\<close>, then a region \<open>#if defined A\<close> with a block, and an \<open>#else\<close> with a block. The text of
  a node depends on its number only.
\<close>

definition example_branch :: "nat \<Rightarrow> kind \<Rightarrow> int \<Rightarrow> node" where
  "example_branch i k at =
    Node i KindConditionalBranch Dot at (at + 9) False
      [(''directive'', Node (i + 1) k Dot at (at + 2) False
        [(''condition'', Node (i + 2) KindDefinedExpression Dot (at + 1) (at + 2) False
          [(''name'', Node 2 KindIdentifier Identifier (at + 1) (at + 2) False [] [])] [])] [])]
      [Node (i + 3) KindBlock Dot (at + 3) (at + 8) False [] []]"

definition example_define :: node where
  "example_define = Node 1 KindDirectiveDefine Dot 0 9 False
    [(''name'', Node 2 KindIdentifier Identifier 8 9 False [] [])] []"

definition example_region :: node where
  "example_region = Node 3 KindConditionalRegion Dot 10 30 False []
    [example_branch 10 (KindOther 0) 10, example_branch 20 KindDirectiveElse 20]"

definition example_root :: node where
  "example_root = Node 0 KindSourceFile Dot 0 30 False [] [example_define, example_region]"

definition example_text :: "node \<Rightarrow> string" where
  "example_text n = (if n_id n = 2 then ''A'' else [])"

definition example_model :: cond_model where
  "example_model = fst (newWithContext example_root example_text (\<lambda>_. []) [] (Some [''Z'']) [] True False)"

lemmas example_simps = example_branch_def example_define_def example_region_def example_root_def

lemma example_model_fields:
  "cm_root example_model = example_root" "cm_index example_model = NewIndex example_root"
  "cm_defines example_model = [''Z'']" "cm_snapshots example_model = []"
  by code_simp+

theorem KnownDefinesAt_correct_witness:
  "KnownDefinesAt example_model 20 = sorted_list_of_set {''A'', ''Z''}"
proof -
  have ds: "ix_directives (NewIndex example_root) = [example_define]" by code_simp
  have "replay example_model 20 [example_define] [] {''Z''} = {''A'', ''Z''}" by code_simp
  with KnownDefinesAt_correct [of example_model 20] show ?thesis
    unfolding example_model_fields ds by simp
qed


theorem indexNodeStates_correct_witness:
  "snd (indexNodeStates example_model 23) \<and> \<not> snd (indexNodeStates example_model 13)"
proof -
  let ?x = "Node 23 KindBlock Dot 23 28 False [] []" and ?y = "Node 13 KindBlock Dot 13 18 False [] []"
  let ?b = "example_branch 20 KindDirectiveElse 20"
  have "one_object example_root" "?x \<in> set (All_nodes example_root)" "?b \<in> set (All_nodes example_root)"
      "?y \<in> set (All_nodes example_root)"
      "\<forall>x\<in>set (All_nodes example_root). n_kind x = KindSourceFile \<longrightarrow> x = example_root"
    by (simp_all add: one_object_def ids_def example_simps)
  moreover have "inside ?x ?b" by (simp add: inside_def example_simps)
  moreover have "removes example_model ?b" by code_simp
  moreover have "\<not> after_endinput example_model ?y"
      "\<forall>a\<in>set (All_nodes example_root). inside ?y a \<longrightarrow> \<not> removes example_model a" by code_simp+
  ultimately show ?thesis
    using indexNodeStates_correct [of example_model ?x] indexNodeStates_correct [of example_model ?y]
    unfolding example_model_fields by auto
qed

end
