(* ===== verification/Control_Flow.thy ===== *)
theory Control_Flow
  imports Syntax_Tree
begin

text \<open>
  The control-flow graph of a function (\<open>internal/controlflow/model.go\<close>). A block is its number in
  the list of blocks, so that the shared pointers of the Go graph become indices; block 0 is the
  entry and block 1 the exit. The constant evaluator of the conditions is a parameter \<open>fe_eval\<close>.
\<close>

section \<open>The graph and the builder\<close>

datatype edge_kind = EdgeNormal | EdgeBranch | EdgeJump | EdgeReturn | EdgeFallthrough

record block =
  bk_node :: "node option"
  bk_succs :: "(nat \<times> edge_kind) list"
  bk_preds :: "nat list"

record builder =
  bd_blocks :: "block list"
  bd_uncertain :: bool
  bd_nodes :: "nat \<rightharpoonup> nat"
  bd_overrides :: "nat \<rightharpoonup> nat"
  bd_labels :: "string \<rightharpoonup> nat"
  bd_gotos :: "(nat \<times> string) list"

record targets =
  tg_break :: "nat option"
  tg_continue :: "nat option"

record flow_env =
  fe_walk :: walk_model
  fe_eval :: "node \<Rightarrow> int option"

definition no_targets :: targets where
  "no_targets = \<lparr>tg_break = None, tg_continue = None\<rparr>"

definition set_uncertain :: "builder \<Rightarrow> builder" where
  "set_uncertain b = b\<lparr>bd_uncertain := True\<rparr>"

definition new_block :: "node option \<Rightarrow> builder \<Rightarrow> nat \<times> builder" where
  "new_block n b =
    (let i = length (bd_blocks b) in
      (i, b\<lparr>bd_blocks := bd_blocks b @ [\<lparr>bk_node = n, bk_succs = [], bk_preds = []\<rparr>],
            bd_nodes := (case n of None \<Rightarrow> bd_nodes b | Some m \<Rightarrow> (bd_nodes b)(n_id m \<mapsto> i))\<rparr>))"

definition update_block :: "nat \<Rightarrow> (block \<Rightarrow> block) \<Rightarrow> builder \<Rightarrow> builder" where
  "update_block i f b = b\<lparr>bd_blocks := (bd_blocks b)[i := f (bd_blocks b ! i)]\<rparr>"

definition connect :: "nat \<Rightarrow> nat \<Rightarrow> edge_kind \<Rightarrow> builder \<Rightarrow> builder" where
  "connect i j k b =
    (if (j, k) \<in> set (bk_succs (bd_blocks b ! i)) then b
     else update_block j (\<lambda>x. x\<lparr>bk_preds := bk_preds x @ [i]\<rparr>)
       (update_block i (\<lambda>x. x\<lparr>bk_succs := bk_succs x @ [(j, k)]\<rparr>) b))"

definition connectAll :: "nat list \<Rightarrow> nat \<Rightarrow> edge_kind \<Rightarrow> builder \<Rightarrow> builder" where
  "connectAll is j k b = foldl (\<lambda>b i. connect i j k b) b is"

text \<open>A condition is known when the evaluator knows its value; a missing \<open>for\<close> condition is true.\<close>

definition condition :: "flow_env \<Rightarrow> node option \<Rightarrow> bool option" where
  "condition env n =
    (case n of None \<Rightarrow> None | Some c \<Rightarrow> map_option (\<lambda>v. v \<noteq> 0) (fe_eval env c))"

definition loopCondition :: "flow_env \<Rightarrow> node \<Rightarrow> bool option" where
  "loopCondition env n =
    (let c = field n ''condition'' in
      if n_kind n = KindForStatement \<and> c = None then Some True else condition env c)"

definition is_clause :: "node \<Rightarrow> bool" where
  "is_clause n = (n_kind n = KindCaseClause \<or> n_kind n = KindDefaultClause)"

definition covered :: "node \<Rightarrow> bool" where
  "covered n = (list_ex is_clause (n_children n) \<and>
    list_ex (\<lambda>c. n_kind c = KindDefaultClause) (n_children n))"

section \<open>Building\<close>

text \<open>What every case of \<open>buildNode\<close> starts with: a node the parser or the preprocessor is not sure of
  makes the function uncertain, and a statement gets a block that follows the incoming ones.\<close>

definition checked :: "flow_env \<Rightarrow> node \<Rightarrow> builder \<Rightarrow> builder" where
  "checked env n b = (if n_hasError n \<or> Uncertain (fe_walk env) n then set_uncertain b else b)"

definition enter :: "node \<Rightarrow> nat list \<Rightarrow> builder \<Rightarrow> nat \<times> builder" where
  "enter n incoming b =
    (let (blk, b) = new_block (Some n) b in (blk, connectAll incoming blk EdgeNormal b))"

text \<open>The edge from the condition of a \<open>do\<close> loop back to its body.\<close>

definition do_back_edge :: "flow_env \<Rightarrow> node \<Rightarrow> nat \<Rightarrow> builder \<Rightarrow> builder" where
  "do_back_edge env n conditionBlock b =
    (let b = (case field n ''condition'' of
           None \<Rightarrow> b
         | Some c \<Rightarrow> b\<lparr>bd_overrides := (bd_overrides b)(n_id c \<mapsto> conditionBlock)\<rparr>) in
      if condition env (field n ''condition'') = Some False then b
      else (case field n ''body'' of
        None \<Rightarrow> b
      | Some body \<Rightarrow>
          (case bd_nodes b (n_id body) of
            None \<Rightarrow> b
          | Some bodyBlock \<Rightarrow> connect conditionBlock bodyBlock EdgeBranch b)))"

function build_node :: "flow_env \<Rightarrow> node \<Rightarrow> nat list \<Rightarrow> targets \<Rightarrow> builder \<Rightarrow> nat list \<times> builder"
and build_seq :: "flow_env \<Rightarrow> node list \<Rightarrow> nat list \<Rightarrow> targets \<Rightarrow> builder \<Rightarrow> nat list \<times> builder"
and build_clauses :: "flow_env \<Rightarrow> node list \<Rightarrow> nat \<Rightarrow> nat \<Rightarrow> targets \<Rightarrow> builder \<Rightarrow> builder" where
  "build_node env n incoming tgt b =
    (if Inactive (fe_walk env) n then (incoming, b)
     else
       (let b = checked env n b in
        if n_kind n = KindConditionalRegion \<or> n_kind n = KindConditionalBranch
        then build_seq env (n_children n) incoming tgt b
        else if n_kind n = KindSharedConditional \<or> n_kind n = KindConditionalFunction \<or>
          n_kind n = KindConditionalSplice \<or> n_kind n = KindMacroInvocationBlock
        then (incoming, set_uncertain b)
        else if \<not> IsStatement n then (incoming, b)
        else
          (let (blk, b) = enter n incoming b in
           if n_kind n = KindBlock then build_seq env (n_children n) [blk] tgt b
           else if n_kind n = KindIfStatement then
             (let (consequence, b) = (case field n ''consequence'' of
                  None \<Rightarrow> ([blk], b) | Some c \<Rightarrow> build_node env c [blk] tgt b) in
              case field n ''alternative'' of
                None \<Rightarrow> (consequence @ [blk], b)
              | Some a \<Rightarrow>
                  (let (alternative, b) = build_node env a [blk] tgt b in
                    (consequence @ alternative, b)))
           else if n_kind n = KindWhileStatement \<or> n_kind n = KindForStatement then
             (let (after, b) = new_block None b;
                  cond = loopCondition env n;
                  bodyIncoming = (if cond = Some False then [] else [blk]);
                  (bodyExits, b) = (case field n ''body'' of
                    None \<Rightarrow> (bodyIncoming, b)
                  | Some body \<Rightarrow> build_node env body bodyIncoming
                      \<lparr>tg_break = Some after, tg_continue = Some blk\<rparr> b);
                  b = connectAll bodyExits blk EdgeJump b;
                  b = (if cond = Some True then b else connect blk after EdgeBranch b)
              in ([after], b))
           else if n_kind n = KindDoWhileStatement then
             (let (after, b) = new_block None b;
                  (conditionBlock, b) = new_block None b;
                  (bodyExits, b) = (case field n ''body'' of
                    None \<Rightarrow> ([blk], b)
                  | Some body \<Rightarrow> build_node env body [blk]
                      \<lparr>tg_break = Some after, tg_continue = Some conditionBlock\<rparr> b);
                  b = connectAll bodyExits conditionBlock EdgeJump b;
                  b = do_back_edge env n conditionBlock b;
                  cond = condition env (field n ''condition'');
                  b = (if cond = Some True then b else connect conditionBlock after EdgeBranch b)
              in ([after], b))
           else if n_kind n = KindSwitchStatement then
             (let (after, b) = new_block None b;
                  b = build_clauses env (n_children n) blk after tgt b;
                  b = (if covered n then b else connect blk after EdgeBranch b)
              in ([after], b))
           else if n_kind n = KindCaseClause \<or> n_kind n = KindDefaultClause then
             (case field n ''body'' of
               None \<Rightarrow> ([blk], b) | Some body \<Rightarrow> build_node env body [blk] tgt b)
           else if n_kind n = KindReturnStatement then ([], connect blk 1 EdgeReturn b)
           else if n_kind n = KindGotoStatement then
             (case field n ''label'' of
               None \<Rightarrow> ([blk], set_uncertain b)
             | Some l \<Rightarrow> ([], b\<lparr>bd_gotos := bd_gotos b @ [(blk, wm_text (fe_walk env) l)]\<rparr>))
           else if n_kind n = KindLabelStatement then
             (let name = (case field n ''label'' of None \<Rightarrow> [] | Some l \<Rightarrow> wm_text (fe_walk env) l) in
               ([blk], if name = [] \<or> bd_labels b name \<noteq> None then set_uncertain b
                  else b\<lparr>bd_labels := (bd_labels b)(name \<mapsto> blk)\<rparr>))
           else if n_kind n = KindBreakStatement then
             (case tg_break tgt of
               None \<Rightarrow> ([blk], set_uncertain b) | Some t \<Rightarrow> ([], connect blk t EdgeJump b))
           else if n_kind n = KindContinueStatement then
             (case tg_continue tgt of
               None \<Rightarrow> ([blk], set_uncertain b) | Some t \<Rightarrow> ([], connect blk t EdgeJump b))
           else ([blk], b))))"
| "build_seq env [] incoming tgt b = (incoming, b)"
| "build_seq env (n # ns) incoming tgt b =
    (let (exits, b) = build_node env n incoming tgt b in build_seq env ns exits tgt b)"
| "build_clauses env [] blk after outer b = b"
| "build_clauses env (c # cs) blk after outer b =
    (if \<not> is_clause c then build_clauses env cs blk after outer b
     else
       (let (exits, b) = build_node env c [blk]
              \<lparr>tg_break = Some after, tg_continue = tg_continue outer\<rparr> b;
            b = connectAll exits after EdgeBranch b
        in build_clauses env cs blk after outer b))"
  by pat_completeness auto
termination
  by (relation "measure (\<lambda>x. case x of
      Inl (env, n, _) \<Rightarrow> size n
    | Inr (Inl (env, ns, _)) \<Rightarrow> size_list size ns
    | Inr (Inr (env, ns, _)) \<Rightarrow> size_list size ns)") (auto simp: size_field size_children)

declare build_node.simps [simp del]

definition new_builder :: builder where
  "new_builder = snd (new_block None (snd (new_block None
    \<lparr>bd_blocks = [], bd_uncertain = False, bd_nodes = Map.empty, bd_overrides = Map.empty,
     bd_labels = Map.empty, bd_gotos = []\<rparr>)))"

text \<open>The jumps are connected once every label is known.\<close>

fun connect_gotos :: "(nat \<times> string) list \<Rightarrow> builder \<Rightarrow> builder" where
  "connect_gotos [] b = b"
| "connect_gotos ((from, name) # gs) b =
    (case bd_labels b name of
      None \<Rightarrow> connect_gotos gs (set_uncertain b)
    | Some t \<Rightarrow> connect_gotos gs (connect from t EdgeJump b))"

text \<open>\<open>markReachable\<close>: breadth-first search from the entry.\<close>

definition succs_of :: "block list \<Rightarrow> nat \<Rightarrow> (nat \<times> edge_kind) list" where
  "succs_of blocks i = (if i < length blocks then bk_succs (blocks ! i) else [])"

fun mark_edges :: "(nat \<times> edge_kind) list \<Rightarrow> nat list \<Rightarrow> nat list \<Rightarrow> nat list \<times> nat list" where
  "mark_edges [] reachable queue = (reachable, queue)"
| "mark_edges ((t, k) # es) reachable queue =
    (if t \<in> set reachable then mark_edges es reachable queue
     else mark_edges es (t # reachable) (queue @ [t]))"

lemma mark_edges_spec:
  "mark_edges es r q = (r', q') \<Longrightarrow>
    set r' = set r \<union> fst ` set es \<and> (\<exists>new. q' = q @ new \<and> set r' = set r \<union> set new \<and>
      (distinct r \<longrightarrow> distinct r' \<and> distinct new \<and> set new \<inter> set r = {}))"
proof (induction es r q arbitrary: r' q' rule: mark_edges.induct)
  case (2 t k es r q)
  show ?case
  proof (cases "t \<in> set r")
    case True
    with 2 show ?thesis by auto
  next
    case False
    with 2(2) [OF False, of r' q'] 2(3) obtain new where
      "set r' = set (t # r) \<union> fst ` set es" "q' = (q @ [t]) @ new" "set r' = set (t # r) \<union> set new"
      "distinct (t # r) \<longrightarrow> distinct r' \<and> distinct new \<and> set new \<inter> set (t # r) = {}" by auto
    with False show ?thesis by (intro conjI exI [of _ "t # new"]) auto
  qed
qed simp

definition all_targets :: "block list \<Rightarrow> nat set" where
  "all_targets blocks = (\<Union>x\<in>set blocks. fst ` set (bk_succs x))"

lemma finite_all_targets [simp]: "finite (all_targets blocks)"
  by (simp add: all_targets_def)

lemma succs_of_targets: "fst ` set (succs_of blocks i) \<subseteq> all_targets blocks"
proof (cases "i < length blocks")
  case True
  then have "blocks ! i \<in> set blocks" by simp
  then have "set (bk_succs (blocks ! i)) \<subseteq> (\<Union>x\<in>set blocks. set (bk_succs x))" by blast
  with True show ?thesis unfolding succs_of_def all_targets_def by auto
qed (simp add: succs_of_def)

function mark_loop :: "block list \<Rightarrow> nat list \<Rightarrow> nat list \<Rightarrow> nat list" where
  "mark_loop blocks reachable [] = reachable"
| "mark_loop blocks reachable (i # queue) =
    (let (reachable, queue) = mark_edges (succs_of blocks i) reachable queue in
      mark_loop blocks reachable queue)"
  by pat_completeness auto
termination
proof (relation "measures [\<lambda>(blocks, r, q). card (all_targets blocks - set r), \<lambda>(blocks, r, q). length q]",
    goal_cases)
  case (2 blocks r i q x r' q')
  then have eq: "mark_edges (succs_of blocks i) r q = (r', q')" by simp
  from mark_edges_spec [OF this] obtain new where
    r': "set r' = set r \<union> fst ` set (succs_of blocks i)" and q': "q' = q @ new" "set r' = set r \<union> set new"
    by blast
  show ?case
  proof (cases "set r' = set r")
    case True
    have "new = []"
    proof (rule ccontr)
      assume "new \<noteq> []"
      have "length q' \<le> length q" if "set es \<subseteq> set es" "fst ` set es \<subseteq> set r" "mark_edges es r q = (r', q')"
        for es :: "(nat \<times> edge_kind) list" and r' q'
        using that(2,3) by (induction es r q arbitrary: r' q' rule: mark_edges.induct) auto
      from this [OF subset_refl _ eq] r' True q'(1) \<open>new \<noteq> []\<close> show False by auto
    qed
    with True q' show ?thesis by simp
  next
    case False
    with r' succs_of_targets [of blocks i] have "all_targets blocks - set r' \<subset> all_targets blocks - set r"
      by blast
    then have "card (all_targets blocks - set r') < card (all_targets blocks - set r)"
      by (rule psubset_card_mono [rotated]) simp
    then show ?thesis by simp
  qed
qed simp

record cfg =
  cf_builder :: builder
  cf_reachable :: "nat list"
  cf_fallthrough :: "nat list"

definition build_cfg :: "flow_env \<Rightarrow> node \<Rightarrow> cfg" where
  "build_cfg env f =
    (let b = new_builder in
      case field f ''body'' of
        None \<Rightarrow> \<lparr>cf_builder = set_uncertain b, cf_reachable = [], cf_fallthrough = []\<rparr>
      | Some body \<Rightarrow>
          if n_hasError f \<or> Uncertain (fe_walk env) f
          then \<lparr>cf_builder = set_uncertain b, cf_reachable = [], cf_fallthrough = []\<rparr>
          else
            (let (exits, b) = build_node env body [0] no_targets b;
                 b = connectAll exits 1 EdgeFallthrough b;
                 b = connect_gotos (bd_gotos b) b
             in \<lparr>cf_builder = b, cf_reachable = mark_loop (bd_blocks b) [0] [0],
                 cf_fallthrough = exits\<rparr>))"

definition Reachable :: "cfg \<Rightarrow> node \<Rightarrow> bool" where
  "Reachable f n =
    (if bd_uncertain (cf_builder f) then True
     else (case bd_nodes (cf_builder f) (n_id n) of None \<Rightarrow> True | Some i \<Rightarrow> i \<in> set (cf_reachable f)))"

definition ReachableBlock :: "cfg \<Rightarrow> nat option \<Rightarrow> bool" where
  "ReachableBlock f blk =
    (if bd_uncertain (cf_builder f) then True
     else (case blk of None \<Rightarrow> False | Some i \<Rightarrow> i \<in> set (cf_reachable f)))"

definition CanFallThrough :: "cfg \<Rightarrow> bool" where
  "CanFallThrough f =
    (if bd_uncertain (cf_builder f) then True
     else (\<exists>i\<in>set (cf_fallthrough f). i \<in> set (cf_reachable f)))"

text \<open>\<open>Function.Block\<close>: the block of the innermost enclosing node that has one.\<close>

fun block_of_chain :: "cfg \<Rightarrow> node list \<Rightarrow> nat option" where
  "block_of_chain f [] = None"
| "block_of_chain f (n # ns) =
    (case bd_overrides (cf_builder f) (n_id n) of
      Some i \<Rightarrow> Some i
    | None \<Rightarrow>
        (case bd_nodes (cf_builder f) (n_id n) of
          Some i \<Rightarrow> Some i
        | None \<Rightarrow> block_of_chain f ns))"

definition Block :: "index \<Rightarrow> cfg \<Rightarrow> node \<Rightarrow> nat option" where
  "Block ix f n = block_of_chain f (n # Ancestors ix n)"

section \<open>Breadth-first search finds what is reachable\<close>

definition edges :: "block list \<Rightarrow> (nat \<times> nat) set" where
  "edges blocks = {(i, j). j \<in> fst ` set (succs_of blocks i)}"

lemma mark_loop_invariant:
  assumes "\<forall>i\<in>set r. i \<in> set q \<or> (\<forall>j. (i, j) \<in> edges blocks \<longrightarrow> j \<in> set r)"
    and "set q \<subseteq> set r" and "set r \<subseteq> {i. (s, i) \<in> (edges blocks)\<^sup>*}"
  shows "set r \<subseteq> set (mark_loop blocks r q) \<and>
    set (mark_loop blocks r q) \<subseteq> {i. (s, i) \<in> (edges blocks)\<^sup>*} \<and>
    (\<forall>i\<in>set (mark_loop blocks r q). \<forall>j. (i, j) \<in> edges blocks \<longrightarrow> j \<in> set (mark_loop blocks r q))"
  using assms
proof (induction blocks r q rule: mark_loop.induct)
  case (1 blocks r)
  then show ?case by auto
next
  case (2 blocks r i q)
  obtain r' q' where step: "mark_edges (succs_of blocks i) r q = (r', q')" by force
  from mark_edges_spec [OF this] obtain new where
    r': "set r' = set r \<union> fst ` set (succs_of blocks i)" and q': "q' = q @ new" "set r' = set r \<union> set new"
    by blast
  have "i \<in> set r" using 2(3) by simp
  have r'_edges: "set r' = set r \<union> {j. (i, j) \<in> edges blocks}" using r' by (simp add: edges_def)
  have "set r' \<subseteq> {i. (s, i) \<in> (edges blocks)\<^sup>*}"
    using 2(4) \<open>i \<in> set r\<close> r'_edges by (auto intro: rtrancl.rtrancl_into_rtrancl)
  moreover have "\<forall>i\<in>set r'. i \<in> set q' \<or> (\<forall>j. (i, j) \<in> edges blocks \<longrightarrow> j \<in> set r')"
    using 2(2) q' r'_edges by auto
  moreover have "set q' \<subseteq> set r'" using 2(3) q' by auto
  ultimately show ?case using 2(1) [OF step [symmetric] refl] step r' by auto
qed

lemma mark_loop_reachable: "set (mark_loop blocks [s] [s]) = {i. (s, i) \<in> (edges blocks)\<^sup>*}"
proof
  have inv: "set [s] \<subseteq> set (mark_loop blocks [s] [s]) \<and>
      set (mark_loop blocks [s] [s]) \<subseteq> {i. (s, i) \<in> (edges blocks)\<^sup>*} \<and>
      (\<forall>i\<in>set (mark_loop blocks [s] [s]). \<forall>j. (i, j) \<in> edges blocks \<longrightarrow> j \<in> set (mark_loop blocks [s] [s]))"
    by (rule mark_loop_invariant) auto
  then show "set (mark_loop blocks [s] [s]) \<subseteq> {i. (s, i) \<in> (edges blocks)\<^sup>*}" by blast
  have "i \<in> set (mark_loop blocks [s] [s])" if "(s, i) \<in> (edges blocks)\<^sup>*" for i
    using that by (induction rule: rtrancl_induct) (use inv in auto)
  then show "{i. (s, i) \<in> (edges blocks)\<^sup>*} \<subseteq> set (mark_loop blocks [s] [s])" by blast
qed

text \<open>
  C7: markReachable terminates with exactly the blocks that a path of edges joins to the entry.
\<close>

theorem markReachable_correct:
  "set (mark_loop blocks [0] [0]) = {i. (0, i) \<in> (edges blocks)\<^sup>*}"
  by (rule mark_loop_reachable)

end
