(* ===== verification/Flow_Graph.thy ===== *)
theory Flow_Graph
  imports Control_Flow
begin

text \<open>
  What the builder keeps true while it builds a control-flow graph. The contract of the elementary
  steps is the locale \<open>builder_invariant\<close>; the theorem about the recursive builder is proved once
  in it and interpreted for the invariants of the graph.
\<close>

section \<open>The builder, one kind of node at a time\<close>

definition opaque :: "node \<Rightarrow> bool" where
  "opaque n = (n_kind n \<in> {KindSharedConditional, KindConditionalFunction, KindConditionalSplice,
    KindMacroInvocationBlock})"

definition region :: "node \<Rightarrow> bool" where
  "region n = (n_kind n \<in> {KindConditionalRegion, KindConditionalBranch})"

definition build_opt :: "flow_env \<Rightarrow> node option \<Rightarrow> nat list \<Rightarrow> targets \<Rightarrow> builder \<Rightarrow> nat list \<times> builder" where
  "build_opt env n incoming tgt b =
    (case n of None \<Rightarrow> (incoming, b) | Some m \<Rightarrow> build_node env m incoming tgt b)"

text \<open>The kinds of statement, with one constructor for each case of the builder.\<close>

datatype shape =
    Shape_inactive | Shape_region | Shape_opaque | Shape_other | Shape_block | Shape_if
  | Shape_loop | Shape_do | Shape_switch | Shape_clause | Shape_return | Shape_goto | Shape_label
  | Shape_break | Shape_continue | Shape_simple

definition shape_of :: "flow_env \<Rightarrow> node \<Rightarrow> shape" where
  "shape_of env n =
    (if Inactive (fe_walk env) n then Shape_inactive
     else if region n then Shape_region
     else if opaque n then Shape_opaque
     else if \<not> IsStatement n then Shape_other
     else if n_kind n = KindBlock then Shape_block
     else if n_kind n = KindIfStatement then Shape_if
     else if n_kind n = KindWhileStatement \<or> n_kind n = KindForStatement then Shape_loop
     else if n_kind n = KindDoWhileStatement then Shape_do
     else if n_kind n = KindSwitchStatement then Shape_switch
     else if n_kind n = KindCaseClause \<or> n_kind n = KindDefaultClause then Shape_clause
     else if n_kind n = KindReturnStatement then Shape_return
     else if n_kind n = KindGotoStatement then Shape_goto
     else if n_kind n = KindLabelStatement then Shape_label
     else if n_kind n = KindBreakStatement then Shape_break
     else if n_kind n = KindContinueStatement then Shape_continue
     else Shape_simple)"

lemmas shape_simps = shape_of_def region_def opaque_def

lemma statement_shape:
  "shape_of env n \<notin> {Shape_inactive, Shape_region, Shape_opaque, Shape_other} \<Longrightarrow> IsStatement n"
  by (simp add: shape_simps split: if_splits)

lemma shape_kind:
  "shape_of env n = Shape_block \<Longrightarrow> \<not> Inactive (fe_walk env) n \<and> n_kind n = KindBlock"
  "shape_of env n = Shape_if \<Longrightarrow> \<not> Inactive (fe_walk env) n \<and> n_kind n = KindIfStatement"
  "shape_of env n = Shape_loop \<Longrightarrow>
    \<not> Inactive (fe_walk env) n \<and> (n_kind n = KindWhileStatement \<or> n_kind n = KindForStatement)"
  "shape_of env n = Shape_do \<Longrightarrow> \<not> Inactive (fe_walk env) n \<and> n_kind n = KindDoWhileStatement"
  "shape_of env n = Shape_switch \<Longrightarrow> \<not> Inactive (fe_walk env) n \<and> n_kind n = KindSwitchStatement"
  "shape_of env n = Shape_clause \<Longrightarrow>
    \<not> Inactive (fe_walk env) n \<and> (n_kind n = KindCaseClause \<or> n_kind n = KindDefaultClause)"
  "shape_of env n = Shape_return \<Longrightarrow> \<not> Inactive (fe_walk env) n \<and> n_kind n = KindReturnStatement"
  "shape_of env n = Shape_goto \<Longrightarrow> \<not> Inactive (fe_walk env) n \<and> n_kind n = KindGotoStatement"
  "shape_of env n = Shape_label \<Longrightarrow> \<not> Inactive (fe_walk env) n \<and> n_kind n = KindLabelStatement"
  "shape_of env n = Shape_break \<Longrightarrow> \<not> Inactive (fe_walk env) n \<and> n_kind n = KindBreakStatement"
  "shape_of env n = Shape_continue \<Longrightarrow> \<not> Inactive (fe_walk env) n \<and> n_kind n = KindContinueStatement"
  by (auto simp: shape_simps split: if_splits)

lemma build_inactive: "shape_of env n = Shape_inactive \<Longrightarrow> build_node env n inc tgt b = (inc, b)"
  by (subst build_node.simps) (simp add: shape_simps split: if_splits)

lemma build_region:
  "shape_of env n = Shape_region \<Longrightarrow>
    build_node env n inc tgt b = build_seq env (n_children n) inc tgt (checked env n b)"
  by (subst build_node.simps) (auto simp: shape_simps split: if_splits)

lemma build_opaque:
  "shape_of env n = Shape_opaque \<Longrightarrow>
    build_node env n inc tgt b = (inc, set_uncertain (checked env n b))"
  by (subst build_node.simps) (auto simp: shape_simps split: if_splits)

lemma build_other: "shape_of env n = Shape_other \<Longrightarrow> build_node env n inc tgt b = (inc, checked env n b)"
  by (subst build_node.simps) (simp add: shape_simps split: if_splits)

lemma build_block:
  "shape_of env n = Shape_block \<Longrightarrow> build_node env n inc tgt b =
    (let (blk, b) = enter n inc (checked env n b) in build_seq env (n_children n) [blk] tgt b)"
  by (drule shape_kind(1), subst build_node.simps) (auto simp: IsStatement_def Let_def)

lemma build_if:
  "shape_of env n = Shape_if \<Longrightarrow> build_node env n inc tgt b =
    (let (blk, b) = enter n inc (checked env n b);
         (consequence, b) = build_opt env (field n ''consequence'') [blk] tgt b in
      case field n ''alternative'' of
        None \<Rightarrow> (consequence @ [blk], b)
      | Some a \<Rightarrow> (let (alternative, b) = build_node env a [blk] tgt b in
          (consequence @ alternative, b)))"
  by (drule shape_kind(2), subst build_node.simps) (auto simp: IsStatement_def build_opt_def Let_def)

lemma build_loop:
  "shape_of env n = Shape_loop \<Longrightarrow> build_node env n inc tgt b =
    (let (blk, b) = enter n inc (checked env n b);
         (after, b) = new_block None b;
         (bodyExits, b) = build_opt env (field n ''body'')
           (if loopCondition env n = Some False then [] else [blk])
           \<lparr>tg_break = Some after, tg_continue = Some blk\<rparr> b;
         b = connectAll bodyExits blk EdgeJump b
     in ([after], if loopCondition env n = Some True then b else connect blk after EdgeBranch b))"
  by (drule shape_kind(3), subst build_node.simps) (auto simp: IsStatement_def build_opt_def Let_def)

lemma build_do:
  "shape_of env n = Shape_do \<Longrightarrow> build_node env n inc tgt b =
    (let (blk, b) = enter n inc (checked env n b);
         (after, b) = new_block None b;
         (conditionBlock, b) = new_block None b;
         (bodyExits, b) = build_opt env (field n ''body'') [blk]
           \<lparr>tg_break = Some after, tg_continue = Some conditionBlock\<rparr> b;
         b = connectAll bodyExits conditionBlock EdgeJump b;
         b = do_back_edge env n conditionBlock b
     in ([after], if condition env (field n ''condition'') = Some True then b
        else connect conditionBlock after EdgeBranch b))"
  by (drule shape_kind(4), subst build_node.simps) (auto simp: IsStatement_def build_opt_def Let_def)

lemma build_switch:
  "shape_of env n = Shape_switch \<Longrightarrow> build_node env n inc tgt b =
    (let (blk, b) = enter n inc (checked env n b);
         (after, b) = new_block None b;
         b = build_clauses env (n_children n) blk after tgt b
     in ([after], if covered n then b else connect blk after EdgeBranch b))"
  by (drule shape_kind(5), subst build_node.simps) (auto simp: IsStatement_def Let_def)

lemma build_clause:
  "shape_of env n = Shape_clause \<Longrightarrow> build_node env n inc tgt b =
    (let (blk, b) = enter n inc (checked env n b) in build_opt env (field n ''body'') [blk] tgt b)"
  unfolding build_opt_def
  by (drule shape_kind(6), subst build_node.simps) (auto simp: IsStatement_def Let_def)

lemma build_return:
  "shape_of env n = Shape_return \<Longrightarrow> build_node env n inc tgt b =
    (let (blk, b) = enter n inc (checked env n b) in ([], connect blk 1 EdgeReturn b))"
  by (drule shape_kind(7), subst build_node.simps) (auto simp: IsStatement_def Let_def)

definition node_label :: "flow_env \<Rightarrow> node \<Rightarrow> string" where
  "node_label env n = (case field n ''label'' of None \<Rightarrow> [] | Some l \<Rightarrow> wm_text (fe_walk env) l)"

lemma build_goto:
  "shape_of env n = Shape_goto \<Longrightarrow> build_node env n inc tgt b =
    (let (blk, b) = enter n inc (checked env n b) in
      case field n ''label'' of
        None \<Rightarrow> ([blk], set_uncertain b)
      | Some l \<Rightarrow> ([], b\<lparr>bd_gotos := bd_gotos b @ [(blk, node_label env n)]\<rparr>))"
  unfolding node_label_def
  by (drule shape_kind(8), subst build_node.simps) (auto simp: IsStatement_def split: option.split)

lemma build_label:
  "shape_of env n = Shape_label \<Longrightarrow> build_node env n inc tgt b =
    (let (blk, b) = enter n inc (checked env n b) in
      ([blk], if node_label env n = [] \<or> bd_labels b (node_label env n) \<noteq> None then set_uncertain b
        else b\<lparr>bd_labels := (bd_labels b)(node_label env n \<mapsto> blk)\<rparr>))"
  unfolding node_label_def
  by (drule shape_kind(9), subst build_node.simps) (auto simp: IsStatement_def Let_def)

lemma build_break:
  "shape_of env n = Shape_break \<Longrightarrow> build_node env n inc tgt b =
    (let (blk, b) = enter n inc (checked env n b) in
      case tg_break tgt of
        None \<Rightarrow> ([blk], set_uncertain b) | Some t \<Rightarrow> ([], connect blk t EdgeJump b))"
  by (drule shape_kind(10), subst build_node.simps) (auto simp: IsStatement_def Let_def)

lemma build_continue:
  "shape_of env n = Shape_continue \<Longrightarrow> build_node env n inc tgt b =
    (let (blk, b) = enter n inc (checked env n b) in
      case tg_continue tgt of
        None \<Rightarrow> ([blk], set_uncertain b) | Some t \<Rightarrow> ([], connect blk t EdgeJump b))"
  by (drule shape_kind(11), subst build_node.simps) (auto simp: IsStatement_def Let_def)

lemma build_simple:
  "shape_of env n = Shape_simple \<Longrightarrow> build_node env n inc tgt b =
    (let (blk, b) = enter n inc (checked env n b) in ([blk], b))"
  by (subst build_node.simps) (simp add: shape_simps split: if_splits)

lemmas build_shapes = build_inactive build_region build_opaque build_other build_block build_if
  build_loop build_do build_switch build_clause build_return build_goto build_label build_break
  build_continue build_simple

section \<open>The contract of the elementary steps\<close>

abbreviation size_of :: "builder \<Rightarrow> nat" where
  "size_of b \<equiv> length (bd_blocks b)"

text \<open>The entry and the exit exist, and the map from nodes to blocks names blocks.\<close>

definition base :: "builder \<Rightarrow> bool" where
  "base b = (2 \<le> size_of b \<and> (\<forall>x i. bd_nodes b x = Some i \<longrightarrow> 0 < i \<and> i < size_of b))"

definition targets_ok :: "builder \<Rightarrow> targets \<Rightarrow> bool" where
  "targets_ok b tgt = (\<forall>t. tg_break tgt = Some t \<or> tg_continue tgt = Some t \<longrightarrow> 0 < t \<and> t < size_of b)"

definition blocks_ok :: "builder \<Rightarrow> nat list \<Rightarrow> bool" where
  "blocks_ok b is = (\<forall>i\<in>set is. i < size_of b)"

lemma size_new_block [simp]: "size_of (snd (new_block n b)) = Suc (size_of b)"
  by (simp add: new_block_def Let_def)

lemma fst_new_block [simp]: "fst (new_block n b) = size_of b"
  by (simp add: new_block_def Let_def)

lemma size_update_block [simp]: "size_of (update_block i f b) = size_of b"
  by (simp add: update_block_def)

lemma size_connect [simp]: "size_of (connect i j k b) = size_of b"
  by (simp add: connect_def)

lemma size_connectAll [simp]: "size_of (connectAll is j k b) = size_of b"
  unfolding connectAll_def by (induction "is" arbitrary: b) auto

lemma size_set_uncertain [simp]: "size_of (set_uncertain b) = size_of b"
  by (simp add: set_uncertain_def)

lemma nodes_connect [simp]: "bd_nodes (connect i j k b) = bd_nodes b"
  by (simp add: connect_def update_block_def)

lemma nodes_connectAll [simp]: "bd_nodes (connectAll is j k b) = bd_nodes b"
  unfolding connectAll_def by (induction "is" arbitrary: b) auto

lemma nodes_set_uncertain [simp]: "bd_nodes (set_uncertain b) = bd_nodes b"
  by (simp add: set_uncertain_def)

lemma base_simps [simp]:
  "base (connect i j k b) = base b" "base (connectAll is j k b) = base b"
  "base (set_uncertain b) = base b" "base (b\<lparr>bd_overrides := o'\<rparr>) = base b"
  "base (b\<lparr>bd_gotos := gs\<rparr>) = base b" "base (b\<lparr>bd_labels := ls\<rparr>) = base b"
  by (simp_all add: base_def)

lemma connect_other [simp]:
  "bd_labels (connect i j k b) = bd_labels b" "bd_gotos (connect i j k b) = bd_gotos b"
  "bd_uncertain (connect i j k b) = bd_uncertain b"
  by (simp_all add: connect_def update_block_def)

lemma new_block_other [simp]:
  "bd_labels (snd (new_block n b)) = bd_labels b" "bd_gotos (snd (new_block n b)) = bd_gotos b"
  "bd_uncertain (snd (new_block n b)) = bd_uncertain b"
  by (simp_all add: new_block_def Let_def)

lemma set_uncertain_other [simp]:
  "bd_blocks (set_uncertain b) = bd_blocks b" "bd_labels (set_uncertain b) = bd_labels b"
  "bd_gotos (set_uncertain b) = bd_gotos b" "bd_uncertain (set_uncertain b)"
  by (simp_all add: set_uncertain_def)

lemma connectAll_other [simp]:
  "bd_labels (connectAll is j k b) = bd_labels b" "bd_gotos (connectAll is j k b) = bd_gotos b"
  "bd_uncertain (connectAll is j k b) = bd_uncertain b"
  unfolding connectAll_def by (induction "is" arbitrary: b) auto

lemma base_new_block: "base b \<Longrightarrow> base (snd (new_block n b))"
  by (auto simp: base_def new_block_def Let_def less_Suc_eq split: option.splits if_splits)

lemma blocks_ok_mono: "blocks_ok b is \<Longrightarrow> size_of b \<le> size_of c \<Longrightarrow> blocks_ok c is"
  by (auto simp: blocks_ok_def)

lemma targets_ok_mono: "targets_ok b t \<Longrightarrow> size_of b \<le> size_of c \<Longrightarrow> targets_ok c t"
  by (fastforce simp: targets_ok_def)

text \<open>What a call of the builder gives back, and that the builder of a node gives it back.\<close>

definition grown :: "(builder \<Rightarrow> bool) \<Rightarrow> builder \<Rightarrow> builder \<Rightarrow> nat list \<Rightarrow> bool" where
  "grown I b b' ex = (base b' \<and> I b' \<and> size_of b \<le> size_of b' \<and> blocks_ok b' ex)"

definition keeps :: "(builder \<Rightarrow> bool) \<Rightarrow> flow_env \<Rightarrow> node \<Rightarrow> bool" where
  "keeps I env n = (\<forall>inc tgt b ex b'. base b \<longrightarrow> I b \<longrightarrow> blocks_ok b inc \<longrightarrow> targets_ok b tgt \<longrightarrow>
    build_node env n inc tgt b = (ex, b') \<longrightarrow> grown I b b' ex)"

lemma keepsD:
  "keeps I env n \<Longrightarrow> base b \<Longrightarrow> I b \<Longrightarrow> blocks_ok b inc \<Longrightarrow> targets_ok b tgt \<Longrightarrow>
    build_node env n inc tgt b = (ex, b') \<Longrightarrow> grown I b b' ex"
  by (simp add: keeps_def)

lemma grownD:
  "grown I b b' ex \<Longrightarrow> base b'" "grown I b b' ex \<Longrightarrow> I b'"
  "grown I b b' ex \<Longrightarrow> size_of b \<le> size_of b'" "grown I b b' ex \<Longrightarrow> blocks_ok b' ex"
  by (simp_all add: grown_def)

lemma grown_trans: "grown I b c ex \<Longrightarrow> grown I c d ex' \<Longrightarrow> grown I b d ex'"
  by (simp add: grown_def)

locale builder_invariant =
  fixes I :: "builder \<Rightarrow> bool"
  assumes I_new: "base b \<Longrightarrow> I b \<Longrightarrow> I (snd (new_block n b))"
    and I_connect: "base b \<Longrightarrow> I b \<Longrightarrow> i < size_of b \<Longrightarrow> 0 < j \<Longrightarrow> j < size_of b \<Longrightarrow>
      I (connect i j k b)"
    and I_uncertain: "base b \<Longrightarrow> I b \<Longrightarrow> I (set_uncertain b)"
    and I_override: "base b \<Longrightarrow> I b \<Longrightarrow> i < size_of b \<Longrightarrow>
      I (b\<lparr>bd_overrides := (bd_overrides b)(x \<mapsto> i)\<rparr>)"
    and I_goto: "base b \<Longrightarrow> I b \<Longrightarrow> i < size_of b \<Longrightarrow> I (b\<lparr>bd_gotos := bd_gotos b @ [(i, l)]\<rparr>)"
    and I_label: "base b \<Longrightarrow> I b \<Longrightarrow> 0 < i \<Longrightarrow> i < size_of b \<Longrightarrow> bd_labels b l = None \<Longrightarrow>
      I (b\<lparr>bd_labels := (bd_labels b)(l \<mapsto> i)\<rparr>)"
begin

lemma I_connectAll:
  "base b \<Longrightarrow> I b \<Longrightarrow> blocks_ok b is \<Longrightarrow> 0 < j \<Longrightarrow> j < size_of b \<Longrightarrow> I (connectAll is j k b)"
  unfolding connectAll_def
  by (induction "is" arbitrary: b) (auto simp: blocks_ok_def I_connect)

lemma I_checked: "base b \<Longrightarrow> I b \<Longrightarrow> base (checked env n b) \<and> I (checked env n b) \<and>
    size_of (checked env n b) = size_of b"
  by (simp add: checked_def I_uncertain)

lemma I_enter:
  assumes "base b" "I b" "blocks_ok b inc" "enter n inc (checked env n b) = (blk, b')"
  shows "base b' \<and> I b' \<and> 0 < blk \<and> blk < size_of b' \<and> size_of b \<le> size_of b'"
proof -
  let ?c = "checked env n b"
  note c = I_checked [OF assms(1,2), of env n]
  have blk: "blk = size_of b" "b' = connectAll inc blk EdgeNormal (snd (new_block (Some n) ?c))"
    using assms(4) c by (auto simp: enter_def split: prod.splits dest: arg_cong [where f = fst]
        arg_cong [where f = snd])
  have "blocks_ok (snd (new_block (Some n) ?c)) inc"
    using assms(3) c by (auto simp: blocks_ok_def less_Suc_eq)
  moreover have "0 < size_of b" using assms(1) by (auto simp: base_def)
  ultimately show ?thesis
    using c unfolding blk by (auto intro!: I_connectAll I_new base_new_block)
qed

lemma I_do_back_edge:
  "base b \<Longrightarrow> I b \<Longrightarrow> i < size_of b \<Longrightarrow>
    base (do_back_edge env n i b) \<and> I (do_back_edge env n i b) \<and>
    size_of (do_back_edge env n i b) = size_of b"
  by (auto simp: do_back_edge_def Let_def I_override split: option.split intro!: I_connect)
    (auto simp: base_def)

lemma I_new_block:
  "base b \<Longrightarrow> I b \<Longrightarrow> new_block n b = (i, b') \<Longrightarrow>
    base b' \<and> I b' \<and> 0 < i \<and> i < size_of b' \<and> size_of b' = Suc (size_of b)"
  using I_new [of b n] base_new_block [of b n] fst_new_block [of n b] size_new_block [of n b]
  by (auto simp: base_def simp del: fst_new_block size_new_block)

lemma build_seq_step:
  assumes "\<forall>n\<in>set ns. keeps I env n" and "base b" "I b" "blocks_ok b inc" "targets_ok b tgt"
    and "build_seq env ns inc tgt b = (ex, b')"
  shows "grown I b b' ex"
  using assms
proof (induction ns arbitrary: inc b)
  case Nil
  then show ?case by (simp add: grown_def)
next
  case (Cons n ns)
  obtain ex1 b1 where step: "build_node env n inc tgt b = (ex1, b1)" by force
  have g: "grown I b b1 ex1"
    by (rule keepsD [where I = I, OF _ Cons.prems(2-5) step]) (use Cons.prems(1) in simp)
  have "grown I b1 b' ex"
  proof (rule Cons.IH)
    show "\<forall>n\<in>set ns. keeps I env n" using Cons.prems(1) by simp
    show "targets_ok b1 tgt" using Cons.prems(5) grownD(3) [OF g] by (rule targets_ok_mono)
    show "build_seq env ns ex1 tgt b1 = (ex, b')" using Cons.prems(6) step by simp
  qed (rule grownD [OF g])+
  with g show ?case by (rule grown_trans)
qed

lemma build_clauses_step:
  assumes "\<forall>n\<in>set ns. keeps I env n" and "base b" "I b" "blk < size_of b" "0 < after" "after < size_of b"
    and "targets_ok b tgt"
  shows "grown I b (build_clauses env ns blk after tgt b) []"
  using assms
proof (induction ns arbitrary: b)
  case Nil
  then show ?case by (simp add: grown_def blocks_ok_def)
next
  case (Cons n ns)
  show ?case
  proof (cases "is_clause n")
    case False
    with Cons show ?thesis by simp
  next
    case True
    let ?t = "\<lparr>tg_break = Some after, tg_continue = tg_continue tgt\<rparr>"
    obtain ex1 b1 where step: "build_node env n [blk] ?t b = (ex1, b1)" by force
    let ?c = "connectAll ex1 after EdgeBranch b1"
    have g: "grown I b b1 ex1"
      by (rule keepsD [where I = I, OF _ Cons.prems(2,3) _ _ step])
        (use Cons.prems in \<open>auto simp: targets_ok_def blocks_ok_def\<close>)
    have c: "grown I b ?c []"
      using g Cons.prems(5,6) I_connectAll [of b1 ex1 after EdgeBranch] by (simp add: grown_def blocks_ok_def)
    have "grown I ?c (build_clauses env ns blk after tgt ?c) []"
    proof (rule Cons.IH)
      show "\<forall>n\<in>set ns. keeps I env n" using Cons.prems(1) by simp
      show "blk < size_of ?c" "after < size_of ?c" "0 < after" using Cons.prems(4-6) grownD(3) [OF c] by simp_all
      show "targets_ok ?c tgt" using Cons.prems(7) grownD(3) [OF c] by (rule targets_ok_mono)
    qed (rule grownD [OF c])+
    with c have "grown I b (build_clauses env ns blk after tgt ?c) []" by (rule grown_trans)
    with True step show ?thesis by simp
  qed
qed

lemma build_opt_step:
  assumes "\<And>m. o' = Some m \<Longrightarrow> keeps I env m"
    and "base b" "I b" "blocks_ok b inc" "targets_ok b tgt" "build_opt env o' inc tgt b = (ex, b')"
  shows "grown I b b' ex"
  using assms by (cases o') (auto simp: build_opt_def grown_def dest: keepsD)

text \<open>Every case of the builder keeps the invariant.\<close>

lemma keeps_all: "keeps I env n"
proof (induction "size n" arbitrary: n rule: less_induct)
  case less
  have child: "\<forall>c\<in>set (n_children n). keeps I env c" using less size_child by blast
  have fld: "keeps I env c" if "field n name = Some c" for name c using less size_field that by blast
  show ?case
    unfolding keeps_def
  proof (intro allI impI)
    fix inc tgt b ex b'
    assume b: "base b" "I b" "blocks_ok b inc" "targets_ok b tgt"
      and run: "build_node env n inc tgt b = (ex, b')"
    note c = I_checked [OF b(1,2), of env n]
    obtain blk b1 where en: "enter n inc (checked env n b) = (blk, b1)" by force
    note e = I_enter [OF b(1-3) en]
    have e': "blocks_ok b1 [blk]" "targets_ok b1 tgt" "1 < size_of b1"
      using e targets_ok_mono [OF b(4)] by (auto simp: blocks_ok_def base_def)
    have done1: "grown I b b1 [blk]" using e e' by (simp add: grown_def)
    show "grown I b b' ex"
    proof (cases "shape_of env n")
      case Shape_inactive
      with run b show ?thesis by (simp add: build_inactive grown_def)
    next
      case Shape_region
      with run have "build_seq env (n_children n) inc tgt (checked env n b) = (ex, b')"
        by (simp add: build_region)
      moreover have "blocks_ok (checked env n b) inc" "targets_ok (checked env n b) tgt"
        using b(3,4) c by (auto simp: blocks_ok_def targets_ok_def)
      ultimately have "grown I (checked env n b) b' ex"
        using build_seq_step [OF child] c by blast
      with c show ?thesis by (simp add: grown_def)
    next
      case Shape_opaque
      with run b c show ?thesis by (auto simp: build_opaque grown_def blocks_ok_def I_uncertain)
    next
      case Shape_other
      with run b c show ?thesis by (auto simp: build_other grown_def blocks_ok_def)
    next
      case Shape_block
      with run en have "build_seq env (n_children n) [blk] tgt b1 = (ex, b')" by (simp add: build_block)
      from build_seq_step [OF child _ _ _ _ this] e e' have "grown I b1 b' ex" by blast
      with done1 show ?thesis by (rule grown_trans)
    next
      case Shape_clause
      with run en have "build_opt env (field n ''body'') [blk] tgt b1 = (ex, b')" by (simp add: build_clause)
      then have "grown I b1 b' ex"
        by (rule build_opt_step [rotated 5]) (use fld e e' in auto)
      with done1 show ?thesis by (rule grown_trans)
    next
      case Shape_return
      with run en e e' show ?thesis
        by (auto simp: build_return grown_def blocks_ok_def intro!: I_connect)
    next
      case Shape_goto
      with run en e e' show ?thesis
        by (auto simp: build_goto grown_def blocks_ok_def I_goto I_uncertain split: option.splits)
    next
      case Shape_label
      with run en e e' show ?thesis
        by (auto simp: build_label grown_def blocks_ok_def I_label I_uncertain split: if_splits)
    next
      case Shape_break
      with run en e e' show ?thesis
        by (auto simp: build_break grown_def blocks_ok_def targets_ok_def I_uncertain
            split: option.splits intro!: I_connect)
    next
      case Shape_continue
      with run en e e' show ?thesis
        by (auto simp: build_continue grown_def blocks_ok_def targets_ok_def I_uncertain
            split: option.splits intro!: I_connect)
    next
      case Shape_simple
      with run en done1 show ?thesis by (simp add: build_simple)
    next
      case Shape_if
      obtain ex2 b2 where opt: "build_opt env (field n ''consequence'') [blk] tgt b1 = (ex2, b2)" by force
      have g: "grown I b1 b2 ex2"
        by (rule build_opt_step [OF _ _ _ _ _ opt]) (use fld e e' in auto)
      with done1 have g2: "grown I b b2 ex2" by (rule grown_trans)
      have t2: "blocks_ok b2 [blk]" "targets_ok b2 tgt"
        using blocks_ok_mono [OF e'(1)] targets_ok_mono [OF e'(2)] grownD(3) [OF g] by blast+
      show ?thesis
      proof (cases "field n ''alternative''")
        case None
        with run en opt Shape_if g2 t2 show ?thesis
          by (auto simp: build_if grown_def blocks_ok_def)
      next
        case (Some a)
        obtain ex3 b3 where alt: "build_node env a [blk] tgt b2 = (ex3, b3)" by force
        from keepsD [where I = I, OF fld [OF Some] grownD(1,2) [OF g2] t2 alt] have "grown I b2 b3 ex3" .
        with g2 run en opt alt Some Shape_if show ?thesis
          by (auto simp: build_if grown_def blocks_ok_def intro: order.strict_trans2)
      qed
    next
      case Shape_loop
      obtain after b2 where nb: "new_block None b1 = (after, b2)" by force
      note n2 = I_new_block [OF _ _ nb]
      let ?inc = "if loopCondition env n = Some False then [] else [blk]"
      let ?t = "\<lparr>tg_break = Some after, tg_continue = Some blk\<rparr>"
      obtain ex3 b3 where opt: "build_opt env (field n ''body'') ?inc ?t b2 = (ex3, b3)" by force
      have "blocks_ok b2 ?inc" "targets_ok b2 ?t"
        using n2 e by (auto simp: blocks_ok_def targets_ok_def)
      then have g: "grown I b2 b3 ex3"
        by (intro build_opt_step [OF _ _ _ _ _ opt]) (use fld n2 e in auto)
      have "b' = (if loopCondition env n = Some True then connectAll ex3 blk EdgeJump b3
          else connect blk after EdgeBranch (connectAll ex3 blk EdgeJump b3))" "ex = [after]"
        using run en nb opt Shape_loop by (auto simp: build_loop Let_def)
      moreover have "I (connectAll ex3 blk EdgeJump b3)"
        by (rule I_connectAll) (use g n2 e in \<open>auto simp: grown_def\<close>)
      ultimately show ?thesis
        using g n2 e by (auto simp: grown_def blocks_ok_def intro!: I_connect)
    next
      case Shape_switch
      obtain after b2 where nb: "new_block None b1 = (after, b2)" by force
      note n2 = I_new_block [OF _ _ nb]
      let ?b3 = "build_clauses env (n_children n) blk after tgt b2"
      have "targets_ok b2 tgt" using e'(2) by (rule targets_ok_mono) (use n2 e in simp)
      with build_clauses_step [OF child, of b2 blk after tgt] n2 e have g: "grown I b2 ?b3 []" by simp
      have "b' = (if covered n then ?b3 else connect blk after EdgeBranch ?b3)" "ex = [after]"
        using run en nb Shape_switch by (auto simp: build_switch Let_def)
      with g n2 e show ?thesis by (auto simp: grown_def blocks_ok_def intro!: I_connect)
    next
      case Shape_do
      obtain after b2 where nb: "new_block None b1 = (after, b2)" by force
      note n2 = I_new_block [OF _ _ nb]
      obtain cb b3 where nc: "new_block None b2 = (cb, b3)" by force
      note n3 = I_new_block [OF _ _ nc]
      let ?t = "\<lparr>tg_break = Some after, tg_continue = Some cb\<rparr>"
      obtain ex4 b4 where opt: "build_opt env (field n ''body'') [blk] ?t b3 = (ex4, b4)" by force
      have "blocks_ok b3 [blk]" "targets_ok b3 ?t"
        using n2 n3 e by (auto simp: blocks_ok_def targets_ok_def)
      then have g: "grown I b3 b4 ex4"
        by (intro build_opt_step [OF _ _ _ _ _ opt]) (use fld n2 n3 e in auto)
      let ?b5 = "connectAll ex4 cb EdgeJump b4"
      have b5: "base ?b5" "I ?b5" "cb < size_of ?b5"
        using g n2 n3 e by (auto simp: grown_def intro!: I_connectAll)
      have "b' = (if condition env (field n ''condition'') = Some True then do_back_edge env n cb ?b5
          else connect cb after EdgeBranch (do_back_edge env n cb ?b5))" "ex = [after]"
        using run en nb nc opt Shape_do by (auto simp: build_do Let_def)
      with I_do_back_edge [OF b5, of env n] b5 g n2 n3 e show ?thesis
        by (auto simp: grown_def blocks_ok_def intro!: I_connect)
    qed
  qed
qed

text \<open>The jumps connected at the end keep it too.\<close>

lemma I_connect_gotos:
  "base b \<Longrightarrow> I b \<Longrightarrow> \<forall>g\<in>set gs. fst g < size_of b \<Longrightarrow>
    \<forall>l t. bd_labels b l = Some t \<longrightarrow> 0 < t \<and> t < size_of b \<Longrightarrow>
    base (connect_gotos gs b) \<and> I (connect_gotos gs b)"
proof (induction gs b rule: connect_gotos.induct)
  case (2 "from" name gs b)
  show ?case
  proof (cases "bd_labels b name")
    case None
    with 2 show ?thesis by (simp add: I_uncertain)
  next
    case (Some t)
    with 2 have "I (connect from t EdgeJump b)" by (intro I_connect) auto
    with 2 Some show ?thesis by simp
  qed
qed simp

end

section \<open>The graph is well formed\<close>

abbreviation succs :: "builder \<Rightarrow> nat \<Rightarrow> (nat \<times> edge_kind) list" where
  "succs b i \<equiv> bk_succs (bd_blocks b ! i)"

abbreviation preds :: "builder \<Rightarrow> nat \<Rightarrow> nat list" where
  "preds b i \<equiv> bk_preds (bd_blocks b ! i)"

definition graph_ok :: "builder \<Rightarrow> bool" where
  "graph_ok b =
    ((\<forall>i<size_of b. distinct (succs b i) \<and> (\<forall>e\<in>set (succs b i). fst e < size_of b)) \<and>
     (\<forall>i<size_of b. \<forall>j<size_of b.
       count_list (preds b j) i = length (filter (\<lambda>e. fst e = j) (succs b i))) \<and>
     (\<forall>j<size_of b. \<forall>i\<in>set (preds b j). i < size_of b) \<and>
     (\<forall>x i. bd_nodes b x = Some i \<longrightarrow>
       i < size_of b \<and> (\<exists>n. bk_node (bd_blocks b ! i) = Some n \<and> n_id n = x)))"

lemma nth_new_block [simp]:
  "i < size_of b \<Longrightarrow> bd_blocks (snd (new_block n b)) ! i = bd_blocks b ! i"
  "bd_blocks (snd (new_block n b)) ! size_of b = \<lparr>bk_node = n, bk_succs = [], bk_preds = []\<rparr>"
  by (simp_all add: new_block_def Let_def nth_append)

lemma nodes_new_block:
  "bd_nodes (snd (new_block n b)) =
    (case n of None \<Rightarrow> bd_nodes b | Some m \<Rightarrow> (bd_nodes b)(n_id m \<mapsto> size_of b))"
  by (simp add: new_block_def Let_def)

lemma nth_update_block:
  "j < size_of b \<Longrightarrow>
    bd_blocks (update_block i f b) ! j = (if i = j then f (bd_blocks b ! j) else bd_blocks b ! j)"
  by (simp add: update_block_def)

lemma nth_connect:
  assumes "i < size_of b" "j < size_of b" "m < size_of b"
  shows "bk_node (bd_blocks (connect i j k b) ! m) = bk_node (bd_blocks b ! m)"
    and "succs (connect i j k b) m =
      (if m = i \<and> (j, k) \<notin> set (succs b i) then succs b i @ [(j, k)] else succs b m)"
    and "preds (connect i j k b) m =
      (if m = j \<and> (j, k) \<notin> set (succs b i) then preds b j @ [i] else preds b m)"
  using assms by (auto simp: connect_def nth_update_block)

lemma graph_ok_new:
  assumes "graph_ok b"
  shows "graph_ok (snd (new_block n b))"
proof -
  have none: "count_list (preds b j) (size_of b) = 0" if "j < size_of b" for j
    using assms that unfolding graph_ok_def by (auto simp: count_list_0_iff)
  have out: "filter (\<lambda>e. fst e = size_of b) (succs b i) = []" if "i < size_of b" for i
  proof -
    have "\<forall>e\<in>set (succs b i). fst e < size_of b" using assms that unfolding graph_ok_def by blast
    then show ?thesis by (auto simp: filter_empty_conv)
  qed
  let ?c = "snd (new_block n b)"
  have "distinct (succs ?c i) \<and> (\<forall>e\<in>set (succs ?c i). fst e < size_of ?c)" if "i < size_of ?c" for i
    using assms that unfolding graph_ok_def
    by (cases "i = size_of b") (auto simp: less_Suc_eq)
  moreover have "count_list (preds ?c j) i = length (filter (\<lambda>e. fst e = j) (succs ?c i))"
    if "i < size_of ?c" "j < size_of ?c" for i j
    using assms that none out unfolding graph_ok_def
    by (cases "i = size_of b"; cases "j = size_of b") (auto simp: less_Suc_eq)
  moreover have "\<forall>i\<in>set (preds ?c j). i < size_of ?c" if "j < size_of ?c" for j
    using assms that unfolding graph_ok_def
    by (cases "j = size_of b") (auto simp: less_Suc_eq)
  moreover have "i < size_of ?c \<and> (\<exists>m. bk_node (bd_blocks ?c ! i) = Some m \<and> n_id m = x)"
    if "bd_nodes ?c x = Some i" for x i
  proof (cases "bd_nodes b x = Some i")
    case True
    then have "i < size_of b" "\<exists>m. bk_node (bd_blocks b ! i) = Some m \<and> n_id m = x"
      using assms unfolding graph_ok_def by blast+
    then show ?thesis by simp
  next
    case False
    with that show ?thesis by (cases n) (auto simp: nodes_new_block split: if_splits)
  qed
  ultimately show ?thesis unfolding graph_ok_def by blast
qed

lemma graph_ok_connect:
  assumes "graph_ok b" "i < size_of b" "j < size_of b"
  shows "graph_ok (connect i j k b)"
  using assms unfolding graph_ok_def by (auto simp: nth_connect)

interpretation graph: builder_invariant graph_ok
proof unfold_locales
  show "graph_ok (snd (new_block n b))" if "graph_ok b" for n b using that by (rule graph_ok_new)
  show "graph_ok (connect i j k b)" if "graph_ok b" "i < size_of b" "j < size_of b" for i j k b
    using that by (rule graph_ok_connect)
qed (simp_all add: graph_ok_def)

text \<open>The builder only ever adds: blocks, edges, labels and pending jumps stay.\<close>

definition extends :: "builder \<Rightarrow> builder \<Rightarrow> bool" where
  "extends b c =
    (size_of b \<le> size_of c \<and>
     (\<forall>i<size_of b. set (succs b i) \<subseteq> set (succs c i) \<and>
       bk_node (bd_blocks c ! i) = bk_node (bd_blocks b ! i)) \<and>
     (bd_uncertain b \<longrightarrow> bd_uncertain c) \<and> set (bd_gotos b) \<subseteq> set (bd_gotos c) \<and>
     bd_labels b \<subseteq>\<^sub>m bd_labels c)"

lemma extends_refl [simp]: "extends b b"
  by (simp add: extends_def)

lemma extends_trans: "extends a b \<Longrightarrow> extends b c \<Longrightarrow> extends a c"
  unfolding extends_def by (auto intro: map_le_trans) (meson less_le_trans subsetD)+

lemma extends_new: "extends b (snd (new_block n b))"
  by (simp add: extends_def)

lemma extends_connect: "i < size_of b \<Longrightarrow> j < size_of b \<Longrightarrow> extends b (connect i j k b)"
  unfolding extends_def by (auto simp: nth_connect)

lemma extends_set_uncertain: "extends b (set_uncertain b)"
  by (simp add: extends_def)

interpretation extension: builder_invariant "extends b0" for b0
proof unfold_locales
  show "extends b0 (snd (new_block n b))" if "extends b0 b" for n b
    using extends_trans [OF that extends_new] .
  show "extends b0 (connect i j k b)" if "extends b0 b" "i < size_of b" "j < size_of b" for i j k b
    using extends_trans [OF that(1) extends_connect [OF that(2,3)]] .
  show "extends b0 (set_uncertain b)" if "extends b0 b" for b
    using extends_trans [OF that extends_set_uncertain] .
  show "extends b0 (b\<lparr>bd_labels := (bd_labels b)(l \<mapsto> i)\<rparr>)"
    if "extends b0 b" "bd_labels b l = None" for b i l
  proof -
    have "bd_labels b \<subseteq>\<^sub>m (bd_labels b)(l \<mapsto> i)" using that(2) by (auto simp: map_le_def)
    with that(1) show ?thesis unfolding extends_def by (auto intro: map_le_trans)
  qed
qed (auto simp: extends_def)

text \<open>The pending jumps come from blocks of the graph, and the labels name blocks of it.\<close>

definition jumps_ok :: "builder \<Rightarrow> bool" where
  "jumps_ok b = ((\<forall>g\<in>set (bd_gotos b). fst g < size_of b) \<and>
    (\<forall>l t. bd_labels b l = Some t \<longrightarrow> 0 < t \<and> t < size_of b))"

interpretation jumps: builder_invariant jumps_ok
proof unfold_locales
  show "jumps_ok (snd (new_block n b))" if "jumps_ok b" for n b
    using that unfolding jumps_ok_def by (auto simp: less_Suc_eq)
qed (auto simp: jumps_ok_def)

text \<open>No edge leads back to the entry.\<close>

definition entry_free :: "builder \<Rightarrow> bool" where
  "entry_free b = (preds b 0 = [])"

lemma connect_pred_other: "j \<noteq> 0 \<Longrightarrow> 0 < size_of b \<Longrightarrow> preds (connect i j k b) 0 = preds b 0"
  by (cases "i = 0") (auto simp: connect_def update_block_def)

interpretation entry: builder_invariant entry_free
proof unfold_locales
  show "entry_free (snd (new_block n b))" if "base b" "entry_free b" for n b
  proof -
    have "0 < size_of b" using that(1) unfolding base_def by linarith
    from nth_new_block(1) [OF this, of n] that(2) show ?thesis by (simp add: entry_free_def)
  qed
  show "entry_free (connect i j k b)" if "base b" "entry_free b" "0 < j" for i j k b
  proof -
    have "0 < size_of b" using that(1) unfolding base_def by linarith
    with that connect_pred_other [of j b i k] show ?thesis by (simp add: entry_free_def)
  qed
qed (auto simp: entry_free_def)

section \<open>The finished graph\<close>

lemma base_new_builder: "base new_builder" "size_of new_builder = 2" "bd_gotos new_builder = []"
    "bd_labels new_builder = Map.empty" "bd_nodes new_builder = Map.empty"
  by (auto simp: base_def new_builder_def new_block_def Let_def)

lemma graph_ok_new_builder: "graph_ok new_builder"
  unfolding new_builder_def
  by (intro graph_ok_new) (simp add: graph_ok_def)

lemma jumps_ok_new_builder: "jumps_ok new_builder"
  by (simp add: jumps_ok_def base_new_builder)

text \<open>
  What \<open>build\<close> does once the function has a body and is certain: the body, the edges to the exit
  and the jumps, each of which keeps an invariant of the builder.
\<close>

lemma finish_keeps:
  assumes "builder_invariant I" and "I new_builder"
    and "build_node env body [0] no_targets new_builder = (ex, b)"
  shows "I b" and "base b" and "jumps_ok b" and "blocks_ok b ex"
    and "I (connect_gotos (bd_gotos b) (connectAll ex 1 EdgeFallthrough b))"
proof -
  have ok: "blocks_ok new_builder [0]" "targets_ok new_builder no_targets"
    by (simp_all add: blocks_ok_def targets_ok_def no_targets_def base_new_builder)
  note run = base_new_builder(1) _ ok assms(3)
  have g: "grown I new_builder b ex"
    by (rule keepsD [where I = I, OF builder_invariant.keeps_all [OF assms(1)] run]) fact
  have j: "grown jumps_ok new_builder b ex"
    by (rule keepsD [where I = jumps_ok, OF jumps.keeps_all run]) (rule jumps_ok_new_builder)
  show b: "I b" "base b" "jumps_ok b" "blocks_ok b ex" using g j by (simp_all add: grown_def)
  then have "I (connectAll ex 1 EdgeFallthrough b)"
    by (intro builder_invariant.I_connectAll [OF assms(1)]) (simp_all add: base_def)
  then show "I (connect_gotos (bd_gotos b) (connectAll ex 1 EdgeFallthrough b))"
    using builder_invariant.I_connect_gotos [OF assms(1)] b by (simp add: jumps_ok_def)
qed

text \<open>An invariant of the builder that its start has holds of the finished graph.\<close>

lemma build_cfg_invariant:
  assumes "builder_invariant I" and "I new_builder"
  shows "I (cf_builder (build_cfg env f))"
proof (cases "field f ''body'' = None \<or> n_hasError f \<or> Uncertain (fe_walk env) f")
  case True
  then show ?thesis
    using builder_invariant.I_uncertain [OF assms(1) base_new_builder(1) assms(2)]
    by (auto simp: build_cfg_def split: option.split)
next
  case False
  then obtain body where body: "field f ''body'' = Some body" by auto
  obtain ex b where run: "build_node env body [0] no_targets new_builder = (ex, b)" by force
  from finish_keeps(5) [OF assms run] body run False show ?thesis
    by (simp add: build_cfg_def Let_def del: mark_loop.simps One_nat_def)
qed

lemma build_cfg_graph_ok: "graph_ok (cf_builder (build_cfg env f))"
  by (rule build_cfg_invariant [OF graph.builder_invariant_axioms graph_ok_new_builder])

lemma build_cfg_entry_free: "entry_free (cf_builder (build_cfg env f))"
  by (rule build_cfg_invariant [OF entry.builder_invariant_axioms])
    (simp add: entry_free_def new_builder_def new_block_def Let_def)

lemma build_cfg_reachable:
  "bd_uncertain (cf_builder (build_cfg env f)) \<or>
    set (cf_reachable (build_cfg env f)) = {i. (0, i) \<in> (edges (bd_blocks (cf_builder (build_cfg env f))))\<^sup>*}"
  by (cases "field f ''body''")
    (simp_all add: build_cfg_def Let_def mark_loop_reachable set_uncertain_def del: mark_loop.simps split: prod.split)

text \<open>
  C8: the graph of every function is well formed. Edges lead to blocks of the graph and no edge
  occurs twice; the predecessors of a block list exactly the blocks with an edge to it, once for
  each such edge; the map from statements to blocks gives a block of that statement. Unless the
  graph is uncertain, the blocks marked are those a path of edges joins to the entry.
\<close>

theorem build_cfg_well_formed:
  "graph_ok (cf_builder (build_cfg env f)) \<and> entry_free (cf_builder (build_cfg env f)) \<and>
    (bd_uncertain (cf_builder (build_cfg env f)) \<or>
      set (cf_reachable (build_cfg env f)) = {i. (0, i) \<in> (edges (bd_blocks (cf_builder (build_cfg env f))))\<^sup>*})"
  by (intro conjI build_cfg_graph_ok build_cfg_entry_free build_cfg_reachable)

end
