(* ===== verification/Symbols.thy ===== *)
theory Symbols
  imports Syntax_Tree
begin

text \<open>
  The symbols, scopes and references of a file (\<open>internal/semantic/model.go\<close>, \<open>declare.go\<close>,
  \<open>references.go\<close>). A symbol is its place in \<open>Model.Symbols\<close>, a scope its place in the list of scopes
  in the order they are opened; the root scope is the first.
\<close>

section \<open>Symbols and scopes\<close>

datatype symbol_kind =
  SymbolFunction | SymbolGlobal | SymbolLocal | SymbolParameter | SymbolEnumRoot | SymbolEnumEntry | SymbolLabel

record symbol =
  sy_name :: string
  sy_kind :: symbol_kind
  sy_decl :: node
  sy_nameNode :: node
  sy_scope :: nat
  sy_ambiguous :: bool
  sy_function :: "node option"
  sy_tag :: string
  sy_tags :: "string list"
  sy_states :: "string list"
  sy_stateRaw :: bool
  sy_constant :: bool
  sy_value :: "node option"

datatype reference_kind = ReferenceRead | ReferenceWrite | ReferenceReadWrite | ReferenceCall

datatype reference_target = ReferenceValue | ReferenceFunction

record scope =
  sc_parent :: "nat option"
  sc_node :: node
  sc_symbols :: "string \<Rightarrow> nat list"

record semantic =
  sm_walk :: walk_model
  sm_tokText :: "node \<Rightarrow> string"
  sm_tokens :: "(file_token \<times> string) list"
  sm_symbols :: "symbol list"
  sm_scopes :: "scope list"
  sm_resolved :: "nat \<Rightarrow> nat option"
  sm_references :: "nat \<Rightarrow> (node \<times> reference_kind) list"
  sm_unresolved :: "(node \<times> reference_kind \<times> reference_target) list"
  sm_nodeScopes :: "nat \<Rightarrow> nat option"
  sm_declSymbols :: "nat \<Rightarrow> nat option"
  sm_constantValues :: "nat \<Rightarrow> int option"
  sm_parameters :: "nat \<Rightarrow> nat list"

abbreviation text_of :: "semantic \<Rightarrow> node \<Rightarrow> string" where
  "text_of m n \<equiv> wm_text (sm_walk m) n"

definition is_field :: "node \<Rightarrow> string \<Rightarrow> node \<Rightarrow> bool" where
  "is_field parent name n = (case field parent name of None \<Rightarrow> False | Some f \<Rightarrow> n_id f = n_id n)"

definition IsTestFunction :: "symbol \<Rightarrow> bool" where
  "IsTestFunction s = (sy_kind s = SymbolFunction \<and> sy_tags s = [''Test''])"

text \<open>\<open>newScope\<close> opens a scope and names it.\<close>

definition newScope :: "nat option \<Rightarrow> node \<Rightarrow> semantic \<Rightarrow> nat \<times> semantic" where
  "newScope parent n m =
    (length (sm_scopes m),
     m\<lparr>sm_scopes := sm_scopes m @ [\<lparr>sc_parent = parent, sc_node = n, sc_symbols = (\<lambda>_. [])\<rparr>]\<rparr>)"

section \<open>Tags and states of a declaration\<close>

fun identifier_texts :: "semantic \<Rightarrow> node list \<Rightarrow> string list option" where
  "identifier_texts m [] = Some []"
| "identifier_texts m (c # cs) =
    (if n_kind c \<noteq> KindIdentifier then None
     else map_option (\<lambda>ts. text_of m c # ts) (identifier_texts m cs))"

definition tagNames :: "semantic \<Rightarrow> node option \<Rightarrow> string list" where
  "tagNames m n =
    (case n of
      None \<Rightarrow> []
    | Some t \<Rightarrow>
        if n_kind t \<noteq> KindTaggedType then []
        else (case identifier_texts m (n_children t) of
          None \<Rightarrow> []
        | Some tags \<Rightarrow> if tags = [] \<and> n_tok t = Identifier then [sm_tokText m t] else tags))"

text \<open>The second component says that the selector is there but not understood.\<close>

definition symbolStates :: "semantic \<Rightarrow> node \<Rightarrow> symbol_kind \<Rightarrow> string list \<times> bool" where
  "symbolStates m decl k =
    (if k \<noteq> SymbolFunction then ([], False)
     else (case field decl ''state'' of
       None \<Rightarrow> ([], False)
     | Some selector \<Rightarrow>
         if n_kind selector \<noteq> KindTaggedType then ([], True)
         else (case identifier_texts m (n_children selector) of
           None \<Rightarrow> ([], True)
         | Some states \<Rightarrow> if states = [] then ([], True) else (states, False))))"

text \<open>Walking up from an enum entry through conditional regions; the chain is the node's ancestors.\<close>

fun enclosing_enum_in :: "node list \<Rightarrow> node option" where
  "enclosing_enum_in [] = None"
| "enclosing_enum_in (p # ps) =
    (if n_kind p = KindConditionalRegion \<or> n_kind p = KindConditionalBranch then enclosing_enum_in ps
     else if n_kind p = KindBlock then
       (case ps of [] \<Rightarrow> None | e # _ \<Rightarrow> if n_kind e = KindEnumDeclaration then Some e else None)
     else None)"

definition enclosingEnum :: "semantic \<Rightarrow> node \<Rightarrow> node option" where
  "enclosingEnum m entry = enclosing_enum_in (Ancestors (wm_index (sm_walk m)) entry)"

definition symbolTags :: "semantic \<Rightarrow> node \<Rightarrow> symbol_kind \<Rightarrow> string \<Rightarrow> string list" where
  "symbolTags m decl k name =
    (if k = SymbolEnumEntry then
       (case enclosingEnum m decl of
         None \<Rightarrow> []
       | Some enum \<Rightarrow>
           (let tags = tagNames m (field enum ''tag'') in
            if tags \<noteq> [] then tags
            else (case field enum ''name'' of None \<Rightarrow> [] | Some n \<Rightarrow> [text_of m n])))
     else if k = SymbolEnumRoot then
       (let tags = tagNames m (field decl ''tag'') in if tags \<noteq> [] then tags else [name])
     else tagNames m (field decl ''tag''))"

definition stateVariantsCoexist :: "symbol \<Rightarrow> symbol \<Rightarrow> bool" where
  "stateVariantsCoexist l r =
    (if sy_kind l \<noteq> SymbolFunction \<or> sy_kind r \<noteq> SymbolFunction then False
     else if n_kind (sy_decl l) \<noteq> n_kind (sy_decl r) then True
     else
       (let leftState = field (sy_decl l) ''state'' \<noteq> None; rightState = field (sy_decl r) ''state'' \<noteq> None in
        if \<not> leftState \<and> \<not> rightState then False
        else if leftState \<noteq> rightState then True
        else if sy_stateRaw l \<or> sy_stateRaw r then False
        else \<not> (\<exists>a\<in>set (sy_states l). \<exists>b\<in>set (sy_states r). a = b)))"

section \<open>Declaring\<close>

definition hasQualifier :: "node option \<Rightarrow> token_kind \<Rightarrow> bool" where
  "hasQualifier n k = (case n of None \<Rightarrow> False | Some d \<Rightarrow> HasChildToken d k)"

definition make_symbol :: "semantic \<Rightarrow> node \<Rightarrow> node \<Rightarrow> symbol_kind \<Rightarrow> nat \<Rightarrow> node option \<Rightarrow> symbol" where
  "make_symbol m decl nameNode k sc fn =
    (let name = text_of m nameNode;
         tags = symbolTags m decl k name;
         (states, stateRaw) = symbolStates m decl k;
         enum = (k = SymbolEnumRoot \<or> k = SymbolEnumEntry);
         const = ((k = SymbolGlobal \<or> k = SymbolLocal) \<and>
           hasQualifier (Parent (sm_walk m) decl) KwConst)
     in \<lparr>sy_name = name, sy_kind = k, sy_decl = decl, sy_nameNode = nameNode, sy_scope = sc,
         sy_ambiguous = False, sy_function = fn,
         sy_tag = (if length tags = 1 then hd tags else []), sy_tags = tags, sy_states = states,
         sy_stateRaw = stateRaw, sy_constant = (enum \<or> const),
         sy_value = (if enum then field decl ''value'' else if const then field decl ''initializer'' else None)\<rparr>)"

definition add_parameter :: "symbol_kind \<Rightarrow> node option \<Rightarrow> nat \<Rightarrow> semantic \<Rightarrow> semantic" where
  "add_parameter k fn i m =
    (case fn of
      None \<Rightarrow> m
    | Some f \<Rightarrow>
        if k = SymbolParameter
        then m\<lparr>sm_parameters := (sm_parameters m)(n_id f := sm_parameters m (n_id f) @ [i])\<rparr>
        else m)"

definition set_ambiguous :: "nat \<Rightarrow> semantic \<Rightarrow> semantic" where
  "set_ambiguous i m =
    m\<lparr>sm_symbols := (sm_symbols m)[i := (sm_symbols m ! i)\<lparr>sy_ambiguous := True\<rparr>]\<rparr>"

text \<open>The loop over the symbols of the same name: both sides of a clash become ambiguous.\<close>

fun mark_clashes :: "symbol \<Rightarrow> nat list \<Rightarrow> semantic \<Rightarrow> bool \<times> semantic" where
  "mark_clashes s [] m = (False, m)"
| "mark_clashes s (e # es) m =
    (if stateVariantsCoexist (sm_symbols m ! e) s then mark_clashes s es m
     else (let (_, m) = mark_clashes s es (set_ambiguous e m) in (True, m)))"

text \<open>The symbol is marked where it clashes, listed, and entered in its scope.\<close>

definition enter_symbol :: "symbol \<Rightarrow> semantic \<Rightarrow> semantic" where
  "enter_symbol s m =
    (let i = length (sm_symbols m); sc = sy_scope s; k = sy_kind s;
         (clash, m) = mark_clashes s (sc_symbols (sm_scopes m ! sc) (sy_name s)) m;
         m = m\<lparr>sm_symbols := sm_symbols m @ [s\<lparr>sy_ambiguous := clash\<rparr>]\<rparr>;
         m = add_parameter k (sy_function s) i m;
         m = (if k = SymbolEnumRoot \<or> k = SymbolEnumEntry
           then m\<lparr>sm_declSymbols := (sm_declSymbols m)(n_id (sy_decl s) \<mapsto> i)\<rparr> else m);
         scope = sm_scopes m ! sc
     in m\<lparr>sm_scopes := (sm_scopes m)[sc := scope\<lparr>sc_symbols :=
          (sc_symbols scope)(sy_name s := sc_symbols scope (sy_name s) @ [i])\<rparr>]\<rparr>)"

definition declare_symbol :: "node \<Rightarrow> node option \<Rightarrow> symbol_kind \<Rightarrow> nat \<Rightarrow> node option \<Rightarrow> semantic \<Rightarrow> semantic" where
  "declare_symbol decl nameNode k sc fn m =
    (case nameNode of
      None \<Rightarrow> m
    | Some nn \<Rightarrow>
        if n_hasError nn \<or> Uncertain (sm_walk m) decl \<or> text_of m nn = [] then m
        else
          (let s = make_symbol m decl nn k sc fn in
           if k = SymbolFunction \<and> sy_tags s = [''Test'']
           then add_parameter k fn (length (sm_symbols m)) (m\<lparr>sm_symbols := sm_symbols m @ [s]\<rparr>)
           else enter_symbol s m))"

section \<open>What an identifier refers to\<close>

definition declarationName :: "walk_model \<Rightarrow> node \<Rightarrow> bool" where
  "declarationName w n =
    (case Parent w n of
      None \<Rightarrow> False
    | Some p \<Rightarrow>
        if n_kind p \<in> {KindFunctionDefinition, KindFunctionDeclaration, KindParameter,
          KindVariableDeclarator, KindEnumDeclaration, KindEnumEntry, KindLabelStatement}
        then is_field p (if n_kind p = KindLabelStatement then ''label'' else ''name'') n
        else False)"

text \<open>The kinds of symbol an identifier may stand for, or \<open>None\<close> where it is not a reference.\<close>

definition referenceFilter :: "walk_model \<Rightarrow> node \<Rightarrow> (symbol_kind \<Rightarrow> bool) option" where
  "referenceFilter w n =
    (case Parent w n of
      None \<Rightarrow> None
    | Some p \<Rightarrow>
        (let k = n_kind p; plain = Some (\<lambda>s. s \<noteq> SymbolLabel \<and> s \<noteq> SymbolFunction) in
         if k \<in> {KindTaggedType, KindStateStatement, KindDirectiveDefine, KindDirectiveUndef,
           KindDefinedExpression, KindVariableDeclaration, KindEnumDeclaration, KindParameterList,
           KindFunctionDefinition, KindFunctionDeclaration, KindParameter} then None
         else if k = KindDimension then (if is_field p ''packed'' n then None else plain)
         else if k = KindTaggedExpression then (if is_field p ''tag'' n then None else plain)
         else if k = KindBinaryExpression
         then (if n_tok p = Dot \<and> is_field p ''right'' n then None else plain)
         else if k = KindGotoStatement then Some (\<lambda>s. s = SymbolLabel)
         else if k = KindCallExpression \<and> (is_field p ''function'' n \<or> is_field p ''callee'' n)
         then Some (\<lambda>s. s = SymbolFunction)
         else plain))"

definition referenceTarget :: "walk_model \<Rightarrow> node \<Rightarrow> reference_target option" where
  "referenceTarget w n =
    map_option (\<lambda>allowed. if allowed SymbolFunction \<and> \<not> allowed SymbolGlobal then ReferenceFunction
      else ReferenceValue) (referenceFilter w n)"

definition referenceKind :: "walk_model \<Rightarrow> node \<Rightarrow> reference_kind" where
  "referenceKind w n =
    (case Parent w n of
      None \<Rightarrow> ReferenceRead
    | Some p \<Rightarrow>
        if n_kind p = KindAssignmentExpression \<and> is_field p ''left'' n
        then (if n_tok p = Assign then ReferenceWrite else ReferenceReadWrite)
        else if n_kind p = KindUpdateExpression then ReferenceReadWrite
        else if n_kind p = KindUnaryExpression \<and> (n_tok p = PlusPlus \<or> n_tok p = MinusMinus)
        then ReferenceReadWrite
        else if n_kind p = KindCallExpression \<and> (is_field p ''function'' n \<or> is_field p ''callee'' n)
        then ReferenceCall
        else ReferenceRead)"

text \<open>Of several candidates only functions with exactly one definition among them count.\<close>

fun unique_definition :: "symbol list \<Rightarrow> nat list \<Rightarrow> nat option \<Rightarrow> nat option" where
  "unique_definition ss [] found = found"
| "unique_definition ss (c # cs) found =
    (if sy_kind (ss ! c) \<noteq> SymbolFunction then None
     else if n_kind (sy_decl (ss ! c)) \<noteq> KindFunctionDefinition then unique_definition ss cs found
     else if found \<noteq> None then None
     else unique_definition ss cs (Some c))"

text \<open>
  The scopes are walked outwards; a scope's parent was opened before it, so its number is smaller and
  the walk ends.
\<close>

function resolve_from :: "semantic \<Rightarrow> node \<Rightarrow> (symbol_kind \<Rightarrow> bool) \<Rightarrow> string \<Rightarrow> nat \<Rightarrow> nat option" where
  "resolve_from m n allowed name sc =
    (let candidates = filter (\<lambda>i. allowed (sy_kind (sm_symbols m ! i))) (sc_symbols (sm_scopes m ! sc) name) in
     case candidates of
       [] \<Rightarrow> (case sc_parent (sm_scopes m ! sc) of
         None \<Rightarrow> None
       | Some p \<Rightarrow> if p < sc then resolve_from m n allowed name p else None)
     | [i] \<Rightarrow>
         if sy_kind (sm_symbols m ! i) = SymbolLocal \<and> n_start (sy_nameNode (sm_symbols m ! i)) > n_start n
         then None else Some i
     | _ \<Rightarrow> unique_definition (sm_symbols m) candidates None)"
  by pat_completeness auto
termination by (relation "measure (\<lambda>(m, n, allowed, name, sc). sc)") auto

declare resolve_from.simps [simp del]

definition resolveInScope :: "semantic \<Rightarrow> node \<Rightarrow> (symbol_kind \<Rightarrow> bool) \<Rightarrow> nat option" where
  "resolveInScope m n allowed =
    (case sm_nodeScopes m (n_id n) of None \<Rightarrow> None | Some sc \<Rightarrow> resolve_from m n allowed (text_of m n) sc)"

definition resolve :: "semantic \<Rightarrow> node \<Rightarrow> nat option" where
  "resolve m n = (case referenceFilter (sm_walk m) n of None \<Rightarrow> None | Some allowed \<Rightarrow> resolveInScope m n allowed)"

definition ResolveAsCallTarget :: "semantic \<Rightarrow> node \<Rightarrow> nat option" where
  "ResolveAsCallTarget m n = resolveInScope m n (\<lambda>k. k \<noteq> SymbolLabel)"

text \<open>\<open>Resolve\<close> reads the answer stored by \<open>Build\<close>.\<close>

definition Resolve :: "semantic \<Rightarrow> node \<Rightarrow> nat option" where
  "Resolve m n = sm_resolved m (n_id n)"

function shadowed_from :: "semantic \<Rightarrow> symbol \<Rightarrow> nat \<Rightarrow> nat option" where
  "shadowed_from m s sc =
    (case sc_symbols (sm_scopes m ! sc) (sy_name s) of
      [] \<Rightarrow> (case sc_parent (sm_scopes m ! sc) of
         None \<Rightarrow> None | Some p \<Rightarrow> if p < sc then shadowed_from m s p else None)
    | [i] \<Rightarrow>
        (let outer = sm_symbols m ! i in
         if sy_ambiguous outer \<or>
           sy_kind outer = SymbolLocal \<and> n_start (sy_nameNode outer) > n_start (sy_nameNode s)
         then None else Some i)
    | _ \<Rightarrow> None)"
  by pat_completeness auto
termination by (relation "measure (\<lambda>(m, s, sc). sc)") auto

declare shadowed_from.simps [simp del]

definition Shadowed :: "semantic \<Rightarrow> nat \<Rightarrow> nat option" where
  "Shadowed m i =
    (let s = sm_symbols m ! i in
     if sy_ambiguous s then None
     else (case sc_parent (sm_scopes m ! sy_scope s) of None \<Rightarrow> None | Some p \<Rightarrow> shadowed_from m s p))"

section \<open>Collecting the declarations\<close>

text \<open>What a node opens or declares: the scope, function and function scope of its children.\<close>

definition visit_node ::
  "node \<Rightarrow> nat \<Rightarrow> node option \<Rightarrow> nat option \<Rightarrow> semantic \<Rightarrow> nat \<times> node option \<times> nat option \<times> semantic" where
  "visit_node n sc fn fsc m =
    (let k = n_kind n in
     if k = KindFunctionDefinition \<or> k = KindFunctionDeclaration then
       (let m = declare_symbol n (field n ''name'') SymbolFunction sc (Some n) m;
            (sc, m) = newScope (Some sc) n m
        in (sc, Some n, Some sc, m))
     else if k = KindParameter then
       (sc, fn, fsc, declare_symbol n (field n ''name'') SymbolParameter sc fn m)
     else if k = KindVariableDeclarator then
       (sc, fn, fsc, declare_symbol n (field n ''name'')
         (if fn \<noteq> None then SymbolLocal else SymbolGlobal) sc fn m)
     else if k = KindEnumDeclaration then
       (sc, fn, fsc, declare_symbol n (field n ''name'') SymbolEnumRoot sc fn m)
     else if k = KindEnumEntry then
       (sc, fn, fsc, declare_symbol n (field n ''name'') SymbolEnumEntry sc fn m)
     else if k = KindLabelStatement then
       (sc, fn, fsc, case fsc of None \<Rightarrow> m
         | Some f \<Rightarrow> declare_symbol n (field n ''label'') SymbolLabel f fn m)
     else if k = KindBlock then
       (if (case Parent (sm_walk m) n of None \<Rightarrow> True | Some p \<Rightarrow> n_kind p \<noteq> KindEnumDeclaration)
        then (let (sc, m) = newScope (Some sc) n m in (sc, fn, fsc, m))
        else (sc, fn, fsc, m))
     else if k \<in> {KindForStatement, KindCaseClause, KindDefaultClause} then
       (let (sc, m) = newScope (Some sc) n m in (sc, fn, fsc, m))
     else (sc, fn, fsc, m))"

definition note_scope :: "node \<Rightarrow> nat \<Rightarrow> semantic \<Rightarrow> semantic" where
  "note_scope n sc m =
    (if n_kind n = KindIdentifier \<and> \<not> declarationName (sm_walk m) n \<and> referenceFilter (sm_walk m) n \<noteq> None
     then m\<lparr>sm_nodeScopes := (sm_nodeScopes m)(n_id n \<mapsto> sc)\<rparr> else m)"

fun collect :: "node \<Rightarrow> nat \<Rightarrow> node option \<Rightarrow> nat option \<Rightarrow> semantic \<Rightarrow> semantic" where
  "collect (Node i k t s e b fs cs) sc fn fsc m =
    (let n = Node i k t s e b fs cs;
         (sc, fn, fsc, m) = visit_node n sc fn fsc (note_scope n sc m)
     in fold (\<lambda>c m. collect c sc fn fsc m) cs m)"

section \<open>Binding the identifiers\<close>

definition bind_identifier :: "node \<Rightarrow> semantic \<Rightarrow> semantic" where
  "bind_identifier n m =
    (if Inactive (sm_walk m) n \<or> declarationName (sm_walk m) n then m
     else (case resolve m n of
       None \<Rightarrow>
         (case referenceTarget (sm_walk m) n of
           None \<Rightarrow> m
         | Some target \<Rightarrow>
             m\<lparr>sm_unresolved := sm_unresolved m @ [(n, referenceKind (sm_walk m) n, target)]\<rparr>)
     | Some i \<Rightarrow>
         m\<lparr>sm_resolved := (sm_resolved m)(n_id n \<mapsto> i),
           sm_references := (sm_references m)(i := sm_references m i @ [(n, referenceKind (sm_walk m) n)])\<rparr>))"

definition bind_identifiers :: "semantic \<Rightarrow> semantic" where
  "bind_identifiers m = fold bind_identifier (OfKind (wm_index (sm_walk m)) KindIdentifier) m"

text \<open>\<open>Build\<close> up to the enum constants, which \<open>Constants\<close> adds.\<close>

definition empty_semantic :: "walk_model \<Rightarrow> (node \<Rightarrow> string) \<Rightarrow> (file_token \<times> string) list \<Rightarrow> semantic" where
  "empty_semantic w tokText tokens =
    \<lparr>sm_walk = w, sm_tokText = tokText, sm_tokens = tokens, sm_symbols = [], sm_scopes = [],
     sm_resolved = Map.empty, sm_references = (\<lambda>_. []), sm_unresolved = [], sm_nodeScopes = Map.empty,
     sm_declSymbols = Map.empty, sm_constantValues = Map.empty, sm_parameters = (\<lambda>_. [])\<rparr>"

definition build_symbols ::
  "node \<Rightarrow> walk_model \<Rightarrow> (node \<Rightarrow> string) \<Rightarrow> (file_token \<times> string) list \<Rightarrow> semantic" where
  "build_symbols root w tokText tokens =
    (let (sc, m) = newScope None root (empty_semantic w tokText tokens)
     in bind_identifiers (collect root sc None None m))"

section \<open>Well-formed tables\<close>

definition declared_in :: "semantic \<Rightarrow> nat \<Rightarrow> string \<Rightarrow> nat list" where
  "declared_in m sc name = sc_symbols (sm_scopes m ! sc) name"

text \<open>Another symbol of the same scope and name that may not stand beside it.\<close>

definition clashes :: "semantic \<Rightarrow> nat \<Rightarrow> string \<Rightarrow> nat \<Rightarrow> bool" where
  "clashes m sc name i =
    (\<exists>j\<in>set (declared_in m sc name). j \<noteq> i \<and> \<not> stateVariantsCoexist (sm_symbols m ! i) (sm_symbols m ! j))"

definition parents_ok :: "semantic \<Rightarrow> bool" where
  "parents_ok m = (\<forall>sc<length (sm_scopes m). \<forall>p. sc_parent (sm_scopes m ! sc) = Some p \<longrightarrow> p < sc)"

definition lists_ok :: "semantic \<Rightarrow> bool" where
  "lists_ok m = (\<forall>sc<length (sm_scopes m). \<forall>name. distinct (declared_in m sc name) \<and>
    (\<forall>i\<in>set (declared_in m sc name). i < length (sm_symbols m) \<and>
      sy_name (sm_symbols m ! i) = name \<and> sy_scope (sm_symbols m ! i) = sc \<and>
      sy_ambiguous (sm_symbols m ! i) = clashes m sc name i))"

definition ids_ok :: "semantic \<Rightarrow> bool" where
  "ids_ok m =
    ((\<forall>x sc. sm_nodeScopes m x = Some sc \<longrightarrow> sc < length (sm_scopes m)) \<and>
     (\<forall>x i. sm_declSymbols m x = Some i \<longrightarrow> i < length (sm_symbols m)) \<and>
     (\<forall>x i. sm_resolved m x = Some i \<longrightarrow> i < length (sm_symbols m)) \<and>
     (\<forall>x. \<forall>i\<in>set (sm_parameters m x). i < length (sm_symbols m) \<and>
       sy_kind (sm_symbols m ! i) = SymbolParameter))"

definition tables_ok :: "semantic \<Rightarrow> bool" where
  "tables_ok m = (parents_ok m \<and> lists_ok m \<and> ids_ok m)"

lemma coexist_iff:
  "stateVariantsCoexist l r \<longleftrightarrow> sy_kind l = SymbolFunction \<and> sy_kind r = SymbolFunction \<and>
    (n_kind (sy_decl l) \<noteq> n_kind (sy_decl r) \<or>
     (field (sy_decl l) ''state'' = None) \<noteq> (field (sy_decl r) ''state'' = None) \<or>
     field (sy_decl l) ''state'' \<noteq> None \<and> field (sy_decl r) ''state'' \<noteq> None \<and>
       \<not> sy_stateRaw l \<and> \<not> sy_stateRaw r \<and> set (sy_states l) \<inter> set (sy_states r) = {})"
  unfolding stateVariantsCoexist_def Let_def by (simp only: split: if_split) blast

lemma coexist_sym: "stateVariantsCoexist l r = stateVariantsCoexist r l"
  unfolding coexist_iff by (metis Int_commute)

lemma coexist_ambiguous [simp]:
  "stateVariantsCoexist (l\<lparr>sy_ambiguous := a\<rparr>) r = stateVariantsCoexist l r"
  "stateVariantsCoexist l (r\<lparr>sy_ambiguous := a\<rparr>) = stateVariantsCoexist l r"
  by (simp_all add: coexist_iff)

text \<open>Marking clashes only raises flags: of the listed symbols that do not stand beside the new one.\<close>

definition marked :: "symbol \<Rightarrow> nat list \<Rightarrow> symbol list \<Rightarrow> symbol list" where
  "marked s es xs = map (\<lambda>i. if i \<in> set es \<and> \<not> stateVariantsCoexist (xs ! i) s
    then (xs ! i)\<lparr>sy_ambiguous := True\<rparr> else xs ! i) [0..<length xs]"

lemma length_marked [simp]: "length (marked s es xs) = length xs"
  by (simp add: marked_def)

lemma nth_marked:
  "i < length xs \<Longrightarrow> marked s es xs ! i = (if i \<in> set es \<and> \<not> stateVariantsCoexist (xs ! i) s
    then (xs ! i)\<lparr>sy_ambiguous := True\<rparr> else xs ! i)"
  by (simp add: marked_def)

lemma marked_Nil: "marked s [] xs = xs"
  by (simp add: marked_def map_nth)

lemma marked_skip: "stateVariantsCoexist (xs ! e) s \<Longrightarrow> marked s (e # es) xs = marked s es xs"
  by (intro nth_equalityI) (auto simp: nth_marked)

lemma marked_Cons:
  "\<not> stateVariantsCoexist (xs ! e) s \<Longrightarrow> e < length xs \<Longrightarrow>
    marked s es (xs[e := (xs ! e)\<lparr>sy_ambiguous := True\<rparr>]) = marked s (e # es) xs"
  by (intro nth_equalityI) (auto simp: nth_marked nth_list_update)

lemma mark_clashes_spec:
  assumes "mark_clashes s es m = (clash, m')" and "\<forall>e\<in>set es. e < length (sm_symbols m)"
  shows "m' = m\<lparr>sm_symbols := marked s es (sm_symbols m)\<rparr> \<and>
    clash = (\<exists>e\<in>set es. \<not> stateVariantsCoexist (sm_symbols m ! e) s)"
  using assms
proof (induction es arbitrary: m m' clash)
  case Nil
  then show ?case by (simp add: marked_Nil)
next
  case (Cons e es)
  show ?case
  proof (cases "stateVariantsCoexist (sm_symbols m ! e) s")
    case True
    with Cons show ?thesis by (simp add: marked_skip)
  next
    case False
    obtain c1 where run: "mark_clashes s es (set_ambiguous e m) = (c1, m')" "clash"
      using Cons.prems(1) False by (auto split: prod.splits)
    from Cons.IH [OF run(1)] Cons.prems(2) run(2) False show ?thesis
      by (simp add: set_ambiguous_def marked_Cons)
  qed
qed

lemma make_symbol_fields [simp]:
  "sy_name (make_symbol m decl nn k sc fn) = text_of m nn"
  "sy_kind (make_symbol m decl nn k sc fn) = k"
  "sy_scope (make_symbol m decl nn k sc fn) = sc"
  by (simp_all add: make_symbol_def Let_def split: prod.split)

lemma add_parameter_other [simp]:
  "sm_symbols (add_parameter k fn i m) = sm_symbols m" "sm_scopes (add_parameter k fn i m) = sm_scopes m"
  "sm_nodeScopes (add_parameter k fn i m) = sm_nodeScopes m" "sm_walk (add_parameter k fn i m) = sm_walk m"
  "sm_declSymbols (add_parameter k fn i m) = sm_declSymbols m" "sm_resolved (add_parameter k fn i m) = sm_resolved m"
  by (simp_all add: add_parameter_def split: option.split)

lemma set_add_parameter:
  "set (sm_parameters (add_parameter k fn i m) x) \<subseteq>
    set (sm_parameters m x) \<union> (if k = SymbolParameter then {i} else {})"
  by (auto simp: add_parameter_def split: option.split)

text \<open>What \<open>declare_symbol\<close> does when it does anything: the tables after the new symbol is entered.\<close>

definition entered :: "symbol \<Rightarrow> nat \<Rightarrow> semantic \<Rightarrow> semantic \<Rightarrow> bool" where
  "entered s sc m m' =
    (sy_scope s = sc \<and>
     sm_symbols m' = marked s (declared_in m sc (sy_name s)) (sm_symbols m) @
       [s\<lparr>sy_ambiguous := (\<exists>e\<in>set (declared_in m sc (sy_name s)). \<not> stateVariantsCoexist (sm_symbols m ! e) s)\<rparr>] \<and>
     sm_scopes m' = (sm_scopes m)[sc := (sm_scopes m ! sc)\<lparr>sc_symbols :=
       (sc_symbols (sm_scopes m ! sc))(sy_name s := declared_in m sc (sy_name s) @ [length (sm_symbols m)])\<rparr>] \<and>
     sm_nodeScopes m' = sm_nodeScopes m \<and> sm_resolved m' = sm_resolved m \<and> sm_walk m' = sm_walk m \<and>
     (\<forall>x i. sm_declSymbols m' x = Some i \<longrightarrow> sm_declSymbols m x = Some i \<or> i = length (sm_symbols m)) \<and>
     (\<forall>x. \<forall>i\<in>set (sm_parameters m' x). i \<in> set (sm_parameters m x) \<or>
       i = length (sm_symbols m) \<and> sy_kind s = SymbolParameter))"

lemma enter_symbol_entered:
  assumes "lists_ok m" and "sy_scope s < length (sm_scopes m)"
  shows "entered s (sy_scope s) m (enter_symbol s m)"
proof -
  let ?es = "sc_symbols (sm_scopes m ! sy_scope s) (sy_name s)"
  obtain clash m1 where run: "mark_clashes s ?es m = (clash, m1)" by force
  have "\<forall>e\<in>set ?es. e < length (sm_symbols m)"
    using assms unfolding lists_ok_def declared_in_def by blast
  from mark_clashes_spec [OF run this] have m1: "m1 = m\<lparr>sm_symbols := marked s ?es (sm_symbols m)\<rparr>"
    "clash = (\<exists>e\<in>set ?es. \<not> stateVariantsCoexist (sm_symbols m ! e) s)" by auto
  define m2 where "m2 = add_parameter (sy_kind s) (sy_function s) (length (sm_symbols m))
    (m1\<lparr>sm_symbols := sm_symbols m1 @ [s\<lparr>sy_ambiguous := clash\<rparr>]\<rparr>)"
  have m2: "sm_symbols m2 = marked s ?es (sm_symbols m) @ [s\<lparr>sy_ambiguous := clash\<rparr>]"
    "sm_scopes m2 = sm_scopes m" "sm_nodeScopes m2 = sm_nodeScopes m" "sm_walk m2 = sm_walk m"
    "sm_declSymbols m2 = sm_declSymbols m" "sm_resolved m2 = sm_resolved m"
    by (simp_all add: m2_def m1)
  have params: "\<forall>x. \<forall>i\<in>set (sm_parameters m2 x). i \<in> set (sm_parameters m x) \<or>
      i = length (sm_symbols m) \<and> sy_kind s = SymbolParameter"
    using set_add_parameter [of "sy_kind s" "sy_function s" "length (sm_symbols m)"]
    unfolding m2_def m1 by (fastforce split: if_splits)
  have "enter_symbol s m = (let m2 = (if sy_kind s = SymbolEnumRoot \<or> sy_kind s = SymbolEnumEntry
        then m2\<lparr>sm_declSymbols := (sm_declSymbols m2)(n_id (sy_decl s) \<mapsto> length (sm_symbols m))\<rparr> else m2);
      scope = sm_scopes m2 ! sy_scope s
    in m2\<lparr>sm_scopes := (sm_scopes m2)[sy_scope s := scope\<lparr>sc_symbols :=
      (sc_symbols scope)(sy_name s := sc_symbols scope (sy_name s) @ [length (sm_symbols m)])\<rparr>]\<rparr>)"
    unfolding enter_symbol_def m2_def Let_def run prod.case by (rule refl)
  with m2 params show ?thesis
    unfolding entered_def declared_in_def m1(2) by (auto simp: Let_def split: if_splits)
qed

lemma declare_symbol_cases:
  assumes "lists_ok m" and "sc < length (sm_scopes m)"
  shows "declare_symbol decl nn k sc fn m = m \<or>
    (\<exists>s. declare_symbol decl nn k sc fn m = m\<lparr>sm_symbols := sm_symbols m @ [s]\<rparr>) \<or>
    (\<exists>s. entered s sc m (declare_symbol decl nn k sc fn m))"
proof (cases nn)
  case None
  then show ?thesis by (simp add: declare_symbol_def)
next
  case (Some n)
  let ?s = "make_symbol m decl n k sc fn"
  have "entered ?s sc m (enter_symbol ?s m)" using enter_symbol_entered [OF assms(1), of ?s] assms(2) by simp
  moreover have "add_parameter SymbolFunction fn i m' = m'" for i m'
    by (simp add: add_parameter_def split: option.split)
  ultimately show ?thesis using Some by (auto simp: declare_symbol_def Let_def)
qed

text \<open>A step keeps the tables and only adds symbols and scopes.\<close>

definition step_ok :: "semantic \<Rightarrow> semantic \<Rightarrow> bool" where
  "step_ok m m' = (tables_ok m' \<and> sm_walk m' = sm_walk m \<and>
    length (sm_scopes m) \<le> length (sm_scopes m') \<and> length (sm_symbols m) \<le> length (sm_symbols m'))"

lemma step_ok_refl: "tables_ok m \<Longrightarrow> step_ok m m"
  by (simp add: step_ok_def)

lemma step_ok_trans: "step_ok a b \<Longrightarrow> step_ok b c \<Longrightarrow> step_ok a c"
  by (simp add: step_ok_def)

lemma step_ok_tables: "step_ok a b \<Longrightarrow> tables_ok b"
  by (simp add: step_ok_def)

lemma append_symbol_ok:
  assumes "tables_ok m"
  shows "step_ok m (m\<lparr>sm_symbols := sm_symbols m @ [s]\<rparr>)"
proof -
  let ?m = "m\<lparr>sm_symbols := sm_symbols m @ [s]\<rparr>"
  have same: "declared_in ?m = declared_in m" by (simp add: declared_in_def fun_eq_iff)
  have old: "sm_symbols ?m ! i = sm_symbols m ! i" if "i < length (sm_symbols m)" for i
    using that by (simp add: nth_append)
  have lists: "\<forall>i\<in>set (declared_in m sc name). i < length (sm_symbols m)" if "sc < length (sm_scopes m)" for sc name
    using assms that unfolding tables_ok_def lists_ok_def by blast
  have "clashes ?m sc name i = clashes m sc name i" if "sc < length (sm_scopes m)" "i < length (sm_symbols m)" for sc name i
    unfolding clashes_def same using lists [OF that(1), of name] old that(2) by auto
  moreover have "lists_ok m" using assms by (simp add: tables_ok_def)
  ultimately have "distinct (declared_in m sc name) \<and> (\<forall>i\<in>set (declared_in m sc name).
      i < length (sm_symbols ?m) \<and> sy_name (sm_symbols ?m ! i) = name \<and> sy_scope (sm_symbols ?m ! i) = sc \<and>
      sy_ambiguous (sm_symbols ?m ! i) = clashes ?m sc name i)" if "sc < length (sm_scopes m)" for sc name
    using lists [OF that, of name] that unfolding lists_ok_def by (auto simp: nth_append less_SucI)
  then have "lists_ok ?m" unfolding lists_ok_def same by simp
  moreover have "parents_ok ?m" using assms by (simp add: tables_ok_def parents_ok_def)
  moreover have "ids_ok ?m" using assms by (fastforce simp: tables_ok_def ids_ok_def nth_append less_Suc_eq)
  ultimately show ?thesis by (simp add: step_ok_def tables_ok_def)
qed

lemma entered_ok:
  assumes "tables_ok m" and "sc < length (sm_scopes m)" and "entered s sc m m'"
  shows "step_ok m m'"
proof -
  let ?n = "length (sm_symbols m)" and ?es = "declared_in m sc (sy_name s)"
  have lists: "distinct (declared_in m c name)" "i \<in> set (declared_in m c name) \<Longrightarrow> i < ?n \<and>
      sy_name (sm_symbols m ! i) = name \<and> sy_scope (sm_symbols m ! i) = c \<and>
      sy_ambiguous (sm_symbols m ! i) = clashes m c name i" if "c < length (sm_scopes m)" for c name i
    using assms(1) that unfolding tables_ok_def lists_ok_def by blast+
  have sym: "sm_symbols m' = marked s ?es (sm_symbols m) @
      [s\<lparr>sy_ambiguous := (\<exists>e\<in>set ?es. \<not> stateVariantsCoexist (sm_symbols m ! e) s)\<rparr>]" "sy_scope s = sc"
    using assms(3) by (simp_all add: entered_def)
  have len: "length (sm_symbols m') = Suc ?n" by (simp add: sym)
  have scopes: "length (sm_scopes m') = length (sm_scopes m)"
    "c < length (sm_scopes m) \<Longrightarrow> sc_parent (sm_scopes m' ! c) = sc_parent (sm_scopes m ! c)"
    "c < length (sm_scopes m) \<Longrightarrow> declared_in m' c name =
      (if c = sc \<and> name = sy_name s then ?es @ [?n] else declared_in m c name)" for c name
    using assms(2,3) by (auto simp: entered_def declared_in_def nth_list_update)
  have old: "sm_symbols m' ! i = (if i \<in> set ?es \<and> \<not> stateVariantsCoexist (sm_symbols m ! i) s
      then (sm_symbols m ! i)\<lparr>sy_ambiguous := True\<rparr> else sm_symbols m ! i)" if "i < ?n" for i
    using that by (simp add: sym nth_append nth_marked)
  have new: "sm_symbols m' ! ?n = s\<lparr>sy_ambiguous := (\<exists>e\<in>set ?es. \<not> stateVariantsCoexist (sm_symbols m ! e) s)\<rparr>"
    by (simp add: sym nth_append)
  have coexist: "stateVariantsCoexist (sm_symbols m' ! i) (sm_symbols m' ! j) =
      stateVariantsCoexist (sm_symbols m ! i) (sm_symbols m ! j)" if "i < ?n" "j < ?n" for i j
    using that by (simp add: old)
  have coexist_new: "stateVariantsCoexist (sm_symbols m' ! i) (sm_symbols m' ! ?n) =
      stateVariantsCoexist (sm_symbols m ! i) s" if "i < ?n" for i
    using that by (simp add: old new)
  have here: "i \<in> set ?es \<Longrightarrow> i < ?n" for i using lists(2) [OF assms(2)] by blast
  have "lists_ok m'"
    unfolding lists_ok_def
  proof (intro allI impI conjI ballI)
    fix c name
    assume c: "c < length (sm_scopes m')"
    then have c': "c < length (sm_scopes m)" by (simp add: scopes)
    show "distinct (declared_in m' c name)"
      using lists(1) [OF c'] here by (auto simp: scopes(3) [OF c'])
    fix i
    assume i: "i \<in> set (declared_in m' c name)"
    have bound: "i < Suc ?n" using i lists(2) [OF c'] here by (auto simp: scopes(3) [OF c'] less_Suc_eq split: if_splits)
    then show "i < length (sm_symbols m')" by (simp add: len)
    show "sy_name (sm_symbols m' ! i) = name" "sy_scope (sm_symbols m' ! i) = c"
      using i lists(2) [OF c', of i name] sym(2) new old here
      by (auto simp: scopes(3) [OF c'] split: if_splits)
    show "sy_ambiguous (sm_symbols m' ! i) = clashes m' c name i"
    proof (cases "c = sc \<and> name = sy_name s")
      case True
      have decl: "declared_in m' c name = ?es @ [?n]" unfolding scopes(3) [OF c'] by (rule if_P) (rule True)
      show ?thesis
      proof (cases "i = ?n")
        case True
        have "clashes m' c name ?n = (\<exists>e\<in>set ?es. \<not> stateVariantsCoexist (sm_symbols m ! e) s)"
          unfolding clashes_def decl using here coexist_new coexist_sym by (auto, metis less_irrefl)
        with True new show ?thesis by simp
      next
        case False
        with i decl have mem: "i \<in> set ?es" by simp
        then have "clashes m' c name i = (clashes m c name i \<or> \<not> stateVariantsCoexist (sm_symbols m ! i) s)"
          using here coexist coexist_new \<open>c = sc \<and> name = sy_name s\<close> False
          unfolding clashes_def decl by auto
        with mem lists(2) [OF c', of i name] old [OF here [OF mem]] True show ?thesis by auto
      qed
    next
      case False
      then have decl: "declared_in m' c name = declared_in m c name"
        unfolding scopes(3) [OF c'] by (rule if_not_P)
      with i have mem: "i \<in> set (declared_in m c name)" by simp
      have out: "j \<notin> set ?es" if "j \<in> set (declared_in m c name)" for j
        using lists(2) [OF c' that] lists(2) [OF assms(2), of j "sy_name s"] False by auto
      have "clashes m' c name i = clashes m c name i"
        unfolding clashes_def decl using coexist lists(2) [OF c'] mem by auto
      with lists(2) [OF c' mem] old out [OF mem] show ?thesis by simp
    qed
  qed
  moreover have "parents_ok m'" using assms(1) scopes by (simp add: tables_ok_def parents_ok_def)
  moreover have "ids_ok m'"
  proof -
    have ids: "ids_ok m" using assms(1) by (simp add: tables_ok_def)
    have m': "sm_nodeScopes m' = sm_nodeScopes m" "sm_resolved m' = sm_resolved m"
      "sm_declSymbols m' x = Some i \<Longrightarrow> sm_declSymbols m x = Some i \<or> i = ?n"
      "i \<in> set (sm_parameters m' x) \<Longrightarrow> i \<in> set (sm_parameters m x) \<or> i = ?n \<and> sy_kind s = SymbolParameter"
      for x i using assms(3) unfolding entered_def by blast+
    have param: "i < ?n \<and> sy_kind (sm_symbols m ! i) = SymbolParameter" if "i \<in> set (sm_parameters m x)" for i x
      using ids that unfolding ids_ok_def by blast
    have "i < Suc ?n \<and> sy_kind (sm_symbols m' ! i) = SymbolParameter" if "i \<in> set (sm_parameters m' x)" for i x
      using m'(4) [OF that] param [of i x] old [of i] new by auto
    moreover have "i < Suc ?n" if "sm_declSymbols m' x = Some i" for i x
      using m'(3) [OF that] ids unfolding ids_ok_def by (auto intro: less_SucI)
    moreover have "i < Suc ?n" if "sm_resolved m x = Some i" for i x
      using that ids unfolding ids_ok_def by (auto intro: less_SucI)
    ultimately show ?thesis
      using ids unfolding ids_ok_def len scopes(1) m'(1,2) by blast
  qed
  ultimately show ?thesis
    using assms(3) len scopes(1) by (simp add: step_ok_def tables_ok_def entered_def)
qed

lemma declare_ok:
  "tables_ok m \<Longrightarrow> sc < length (sm_scopes m) \<Longrightarrow> step_ok m (declare_symbol decl nn k sc fn m)"
  using declare_symbol_cases [of m sc decl nn k fn] append_symbol_ok entered_ok step_ok_refl
  by (metis tables_ok_def)

lemma newScope_ok:
  assumes "tables_ok m" and "\<And>p. parent = Some p \<Longrightarrow> p < length (sm_scopes m)" and "newScope parent n m = (sc, m')"
  shows "step_ok m m' \<and> sc < length (sm_scopes m')"
proof -
  have m': "sc = length (sm_scopes m)" "sm_symbols m' = sm_symbols m" "sm_walk m' = sm_walk m"
      "sm_scopes m' = sm_scopes m @ [\<lparr>sc_parent = parent, sc_node = n, sc_symbols = (\<lambda>_. [])\<rparr>]"
      "sm_nodeScopes m' = sm_nodeScopes m" "sm_declSymbols m' = sm_declSymbols m"
      "sm_resolved m' = sm_resolved m" "sm_parameters m' = sm_parameters m"
    using assms(3) by (auto simp: newScope_def)
  have decl: "declared_in m' c name = (if c = length (sm_scopes m) then [] else declared_in m c name)"
    if "c < Suc (length (sm_scopes m))" for c name
    using that by (auto simp: declared_in_def m'(4) nth_append)
  have "lists_ok m'"
    using assms(1) unfolding tables_ok_def lists_ok_def
    by (auto simp: decl m'(2) clashes_def m'(4) less_Suc_eq)
  moreover have "parents_ok m'"
    using assms(1,2) by (auto simp: tables_ok_def parents_ok_def m'(4) nth_append less_Suc_eq)
  moreover have "ids_ok m'"
    using assms(1) by (fastforce simp: tables_ok_def ids_ok_def m')
  ultimately show ?thesis by (simp add: step_ok_def tables_ok_def m')
qed

lemma note_scope_ok:
  "tables_ok m \<Longrightarrow> sc < length (sm_scopes m) \<Longrightarrow> step_ok m (note_scope n sc m)"
  by (auto simp: step_ok_def tables_ok_def parents_ok_def lists_ok_def ids_ok_def note_scope_def
      declared_in_def clashes_def)

text \<open>The state of the walk: the scope numbers handed to the children exist.\<close>

definition visit_ok :: "semantic \<Rightarrow> nat \<Rightarrow> nat option \<Rightarrow> bool" where
  "visit_ok m sc fsc = (sc < length (sm_scopes m) \<and> (\<forall>f. fsc = Some f \<longrightarrow> f < length (sm_scopes m)))"

lemma visit_ok_mono: "visit_ok m sc fsc \<Longrightarrow> step_ok m m' \<Longrightarrow> visit_ok m' sc fsc"
  by (auto simp: visit_ok_def step_ok_def)

lemma visit_node_ok:
  assumes "tables_ok m" and "visit_ok m sc fsc" and "visit_node n sc fn fsc m = (sc', fn', fsc', m')"
  shows "step_ok m m' \<and> visit_ok m' sc' fsc'"
proof -
  have sc: "sc < length (sm_scopes m)" using assms(2) by (simp add: visit_ok_def)
  have decl: "step_ok m (declare_symbol n nn k c f m)" if "c < length (sm_scopes m)" for nn k c f
    using declare_ok assms(1) that by blast
  note self = step_ok_refl [OF assms(1)]
  have opened: "step_ok m m2 \<and> visit_ok m2 c fsc \<and> visit_ok m2 c (Some c)"
    if "step_ok m m1" "newScope (Some sc) n m1 = (c, m2)" for m1 m2 c
  proof -
    have "sc < length (sm_scopes m1)" using sc that(1) by (simp add: step_ok_def)
    then have n: "step_ok m1 m2" "c < length (sm_scopes m2)"
      using newScope_ok [OF step_ok_tables [OF that(1)] _ that(2)] by auto
    then have "step_ok m m2" using that(1) step_ok_trans by blast
    with n(2) visit_ok_mono [OF assms(2)] show ?thesis by (auto simp: visit_ok_def)
  qed
  have stay: ?thesis if "step_ok m m'" "sc' = sc" "fsc' = fsc"
    using that visit_ok_mono [OF assms(2) that(1)] by simp
  show ?thesis
  proof (cases "n_kind n \<in> {KindFunctionDefinition, KindFunctionDeclaration}")
    case True
    let ?m = "declare_symbol n (field n ''name'') SymbolFunction sc (Some n) m"
    obtain c m2 where new: "newScope (Some sc) n ?m = (c, m2)" by force
    with True assms(3) have "sc' = c \<and> fsc' = Some c \<and> m' = m2" by (auto simp: visit_node_def)
    with opened [OF decl [OF sc] new] show ?thesis by simp
  next
    case nofun: False
    show ?thesis
    proof (cases "n_kind n \<in> {KindParameter, KindVariableDeclarator, KindEnumDeclaration, KindEnumEntry}")
      case True
      then have "sc' = sc \<and> fsc' = fsc \<and> (\<exists>nn k f. m' = declare_symbol n nn k sc f m)"
        using assms(3) by (auto simp: visit_node_def Let_def) blast+
      with stay decl [OF sc] show ?thesis by blast
    next
      case nodecl: False
      show ?thesis
      proof (cases "n_kind n = KindLabelStatement")
        case True
        then have r: "sc' = sc" "fsc' = fsc"
            "m' = (case fsc of None \<Rightarrow> m | Some f \<Rightarrow> declare_symbol n (field n ''label'') SymbolLabel f fn m)"
          using assms(3) by (auto simp: visit_node_def Let_def)
        have "step_ok m m'"
          using r(3) self decl assms(2) by (cases fsc) (auto simp: visit_ok_def)
        with stay r show ?thesis by blast
      next
        case nolabel: False
        obtain c m2 where new: "newScope (Some sc) n m = (c, m2)" by force
        have "sc' = sc \<and> fsc' = fsc \<and> m' = m \<or> sc' = c \<and> fsc' = fsc \<and> m' = m2"
          using assms(3) nofun nodecl nolabel new
          by (auto simp: visit_node_def Let_def split: if_splits)
        with stay self opened [OF self new] show ?thesis by blast
      qed
    qed
  qed
qed

lemma collect_ok:
  "tables_ok m \<Longrightarrow> visit_ok m sc fsc \<Longrightarrow> step_ok m (collect n sc fn fsc m)"
proof (induction n arbitrary: sc fn fsc m rule: All_nodes.induct)
  case (1 i k t s e b fs cs)
  let ?n = "Node i k t s e b fs cs"
  let ?m = "note_scope ?n sc m"
  have m: "step_ok m ?m" using 1(2,3) note_scope_ok by (simp add: visit_ok_def)
  obtain sc' fn' fsc' m' where v: "visit_node ?n sc fn fsc ?m = (sc', fn', fsc', m')" by (metis prod_cases4)
  have vis: "step_ok ?m m'" "visit_ok m' sc' fsc'"
    using visit_node_ok [OF step_ok_tables [OF m] visit_ok_mono [OF 1(3) m] v] by auto
  have "step_ok m0 (fold (\<lambda>c m. collect c sc' fn' fsc' m) ds m0)"
    if "set ds \<subseteq> set cs" "tables_ok m0" "visit_ok m0 sc' fsc'" for ds m0
    using that
  proof (induction ds arbitrary: m0)
    case Nil
    then show ?case by (simp add: step_ok_refl)
  next
    case (Cons d ds)
    then have d: "step_ok m0 (collect d sc' fn' fsc' m0)" using 1(1) by simp
    from Cons.IH [OF _ step_ok_tables [OF d] visit_ok_mono [OF Cons.prems(3) d]] Cons.prems(1) d
    show ?case by (auto intro: step_ok_trans)
  qed
  from this [of cs m'] vis have "step_ok m' (fold (\<lambda>c m. collect c sc' fn' fsc' m) cs m')"
    by (simp add: step_ok_def)
  with m vis(1) v show ?case by (auto intro: step_ok_trans)
qed

section \<open>What an identifier resolves to\<close>

text \<open>The scopes from one outwards.\<close>

function scope_chain :: "semantic \<Rightarrow> nat \<Rightarrow> nat list" where
  "scope_chain m sc = sc # (case sc_parent (sm_scopes m ! sc) of
    None \<Rightarrow> [] | Some p \<Rightarrow> if p < sc then scope_chain m p else [])"
  by pat_completeness auto
termination by (relation "measure snd") auto

declare scope_chain.simps [simp del]

definition candidates :: "semantic \<Rightarrow> (symbol_kind \<Rightarrow> bool) \<Rightarrow> string \<Rightarrow> nat \<Rightarrow> nat list" where
  "candidates m allowed name sc = filter (\<lambda>i. allowed (sy_kind (sm_symbols m ! i))) (declared_in m sc name)"

text \<open>A function whose only definition among the candidates it is, or the only candidate.\<close>

definition chosen :: "semantic \<Rightarrow> node \<Rightarrow> nat list \<Rightarrow> nat \<Rightarrow> bool" where
  "chosen m n cs i =
    (if cs = [i]
     then \<not> (sy_kind (sm_symbols m ! i) = SymbolLocal \<and> n_start (sy_nameNode (sm_symbols m ! i)) > n_start n)
     else 2 \<le> length cs \<and> (\<forall>c\<in>set cs. sy_kind (sm_symbols m ! c) = SymbolFunction) \<and>
       filter (\<lambda>c. n_kind (sy_decl (sm_symbols m ! c)) = KindFunctionDefinition) cs = [i])"

lemma unique_definition_spec:
  "unique_definition ss cs found = Some i \<longleftrightarrow>
    (\<forall>c\<in>set cs. sy_kind (ss ! c) = SymbolFunction) \<and>
    (case found of None \<Rightarrow> [] | Some f \<Rightarrow> [f]) @
      filter (\<lambda>c. n_kind (sy_decl (ss ! c)) = KindFunctionDefinition) cs = [i]"
  by (induction ss cs found rule: unique_definition.induct) (auto split: option.splits)

lemma resolve_from_spec:
  "resolve_from m n allowed name sc = Some i \<longleftrightarrow>
    (\<exists>s. List.find (\<lambda>s. candidates m allowed name s \<noteq> []) (scope_chain m sc) = Some s \<and>
      chosen m n (candidates m allowed name s) i)"
proof (induction m n allowed name sc rule: resolve_from.induct)
  case (1 m n allowed name sc)
  let ?cs = "candidates m allowed name sc"
  have fold: "filter (\<lambda>i. allowed (sy_kind (sm_symbols m ! i))) (sc_symbols (sm_scopes m ! sc) name) = ?cs"
    by (simp add: candidates_def declared_in_def)
  show ?case
  proof (cases ?cs)
    case Nil
    show ?thesis
    proof (cases "sc_parent (sm_scopes m ! sc)")
      case None
      with Nil show ?thesis
        by (subst resolve_from.simps, subst scope_chain.simps) (simp add: fold)
    next
      case (Some p)
      show ?thesis
      proof (cases "p < sc")
        case True
        have "resolve_from m n allowed name p = Some i \<longleftrightarrow>
            (\<exists>s. List.find (\<lambda>s. candidates m allowed name s \<noteq> []) (scope_chain m p) = Some s \<and>
              chosen m n (candidates m allowed name s) i)"
          by (rule 1 [OF fold [symmetric] Nil Some True])
        with Nil Some True show ?thesis
          by (subst resolve_from.simps, subst scope_chain.simps) (simp add: fold)
      next
        case False
        with Nil Some show ?thesis
          by (subst resolve_from.simps, subst scope_chain.simps) (simp add: fold)
      qed
    qed
  next
    case (Cons c cs)
    have "List.find (\<lambda>s. candidates m allowed name s \<noteq> []) (scope_chain m sc) = Some sc"
      using Cons by (subst scope_chain.simps) simp
    moreover have "resolve_from m n allowed name sc = Some i \<longleftrightarrow> chosen m n ?cs i"
      using Cons unique_definition_spec [of "sm_symbols m" "c # cs" None i]
      by (subst resolve_from.simps) (auto simp: fold chosen_def split: list.split)
    ultimately show ?thesis by auto
  qed
qed

lemma scope_chain_bound: "sc < length (sm_scopes m) \<Longrightarrow> s \<in> set (scope_chain m sc) \<Longrightarrow> s < length (sm_scopes m)"
proof (induction m sc rule: scope_chain.induct)
  case (1 m sc)
  then show ?case
    by (subst (asm) (2) scope_chain.simps) (auto split: option.splits if_splits dest: sym)
qed

lemma chosen_mem:
  assumes "chosen m n cs i"
  shows "i \<in> set cs"
proof (cases "cs = [i]")
  case False
  with assms have "i \<in> set (filter (\<lambda>c. n_kind (sy_decl (sm_symbols m ! c)) = KindFunctionDefinition) cs)"
    by (simp add: chosen_def)
  then show ?thesis by simp
qed simp

lemma candidate_ok:
  assumes "tables_ok m" and "sc < length (sm_scopes m)" and "i \<in> set (candidates m allowed name sc)"
  shows "i < length (sm_symbols m)" and "sy_name (sm_symbols m ! i) = name"
    and "sy_scope (sm_symbols m ! i) = sc" and "allowed (sy_kind (sm_symbols m ! i))"
  using assms by (auto simp: tables_ok_def lists_ok_def candidates_def)

lemma find_split:
  "List.find P xs = Some x \<Longrightarrow> \<exists>inner outer. xs = inner @ x # outer \<and> P x \<and> (\<forall>y\<in>set inner. \<not> P y)"
proof (induction xs)
  case (Cons y ys)
  show ?case
  proof (cases "P y")
    case True
    with Cons.prems show ?thesis by (intro exI [of _ "[]"] exI [of _ ys]) simp
  next
    case False
    with Cons obtain inner outer where "ys = inner @ x # outer" "P x" "\<forall>y\<in>set inner. \<not> P y" by auto
    with False show ?thesis by (intro exI [of _ "y # inner"] exI [of _ outer]) simp
  qed
qed simp

lemma resolve_split:
  assumes "tables_ok m" and "resolve m n = Some i"
  obtains allowed sc inner s outer where "referenceFilter (sm_walk m) n = Some allowed"
    "sm_nodeScopes m (n_id n) = Some sc" "scope_chain m sc = inner @ s # outer"
    "\<forall>c\<in>set inner. candidates m allowed (text_of m n) c = []"
    "s < length (sm_scopes m)" "chosen m n (candidates m allowed (text_of m n) s) i"
proof -
  obtain allowed sc where f: "referenceFilter (sm_walk m) n = Some allowed"
    "sm_nodeScopes m (n_id n) = Some sc" "resolve_from m n allowed (text_of m n) sc = Some i"
    using assms(2) by (auto simp: resolve_def resolveInScope_def split: option.splits)
  from f(3) obtain s where s: "List.find (\<lambda>s. candidates m allowed (text_of m n) s \<noteq> []) (scope_chain m sc) = Some s"
    "chosen m n (candidates m allowed (text_of m n) s) i" using resolve_from_spec by blast
  from find_split [OF s(1)] obtain inner outer where chain: "scope_chain m sc = inner @ s # outer"
    "\<forall>c\<in>set inner. candidates m allowed (text_of m n) c = []" by auto
  have "sc < length (sm_scopes m)" using assms(1) f(2) by (auto simp: tables_ok_def ids_ok_def)
  then have "s < length (sm_scopes m)" using scope_chain_bound chain(1) by auto
  with that f chain s(2) show thesis by blast
qed

lemma bind_identifier_ok: "tables_ok m \<Longrightarrow> tables_ok (bind_identifier n m)"
proof (cases "resolve m n")
  case None
  moreover assume "tables_ok m"
  ultimately show ?thesis
    by (auto simp: bind_identifier_def tables_ok_def parents_ok_def lists_ok_def ids_ok_def
        declared_in_def clashes_def split: option.split)
next
  case (Some i)
  assume ok: "tables_ok m"
  from ok Some have "i < length (sm_symbols m)"
    by (rule resolve_split) (use ok candidate_ok(1) chosen_mem in blast)
  with ok Some show ?thesis
    by (auto simp: bind_identifier_def tables_ok_def parents_ok_def lists_ok_def ids_ok_def
        declared_in_def clashes_def)
qed

lemma empty_semantic_ok: "tables_ok (snd (newScope None root (empty_semantic w tokText tokens)))"
  by (simp add: newScope_def empty_semantic_def tables_ok_def parents_ok_def lists_ok_def ids_ok_def declared_in_def)

lemma build_symbols_tables: "tables_ok (build_symbols root w tokText tokens)"
proof -
  obtain sc m where new: "newScope None root (empty_semantic w tokText tokens) = (sc, m)" by force
  have m: "tables_ok m" using empty_semantic_ok [of root w tokText tokens] new by simp
  have "visit_ok m sc None" using new by (auto simp: visit_ok_def newScope_def)
  with m have "tables_ok (collect root sc None None m)" using collect_ok step_ok_tables by blast
  moreover have "tables_ok (fold bind_identifier ns m')" if "tables_ok m'" for ns m'
    using that by (induction ns arbitrary: m') (simp_all add: bind_identifier_ok)
  ultimately show ?thesis by (simp add: build_symbols_def new bind_identifiers_def)
qed



text \<open>The tables of \<open>new x; main() { x; }\<close> and its use of \<open>x\<close>.\<close>

definition example_use :: node where
  "example_use = Node 7 KindIdentifier Identifier 15 16 False [] []"

definition example_symbol :: symbol where
  "example_symbol =
    (let name = Node 3 KindIdentifier Identifier 4 5 False [] [] in
     \<lparr>sy_name = ''x'', sy_kind = SymbolGlobal, sy_decl = Node 2 KindVariableDeclarator Dot 4 5 False [(''name'', name)] [name],
      sy_nameNode = name, sy_scope = 0, sy_ambiguous = False, sy_function = None, sy_tag = [], sy_tags = [],
      sy_states = [], sy_stateRaw = False, sy_constant = False, sy_value = None\<rparr>)"

definition example_semantic :: semantic where
  "example_semantic =
    (let use = Node 8 KindExpressionStatement Dot 15 17 False [] [example_use];
         w = \<lparr>wm_index = NewIndex use, wm_text = (\<lambda>n. ''x''), wm_uncertain = (\<lambda>_. False), wm_inactive = (\<lambda>_. False)\<rparr>
     in (empty_semantic w (\<lambda>_. []) [])\<lparr>
       sm_symbols := [example_symbol], sm_nodeScopes := [7 \<mapsto> 1],
       sm_scopes := [\<lparr>sc_parent = None, sc_node = use, sc_symbols = (\<lambda>s. if s = ''x'' then [0] else [])\<rparr>,
         \<lparr>sc_parent = Some 0, sc_node = use, sc_symbols = (\<lambda>_. [])\<rparr>]\<rparr>)"


end
