(* ===== verification/Constants.thy ===== *)
theory Constants
  imports Symbols Go_Numbers
begin

text \<open>
  Constant evaluation and the queries over expressions (\<open>internal/semantic/eval.go\<close>, \<open>enums.go\<close>,
  \<open>boolean.go\<close>, \<open>tags.go\<close>, \<open>equivalent.go\<close>): cells of 32 bits, the values of enum entries, the tags of an
  expression, equivalence and purity.
\<close>

section \<open>Cells\<close>

definition cell :: "int \<Rightarrow> int" where
  "cell v = wrap32 v"

definition truth :: "bool \<Rightarrow> int" where
  "truth b = (if b then 1 else 0)"

definition builtinValue :: "string \<Rightarrow> int option" where
  "builtinValue name =
    (if name \<in> {''false'', ''EOS'', ''charmin''} then Some 0
     else if name = ''true'' then Some 1
     else if name = ''cellbits'' then Some 32
     else if name = ''cellmax'' then Some 2147483647
     else if name = ''cellmin'' then Some (-2147483648)
     else if name = ''charbits'' then Some 8
     else if name = ''charmax'' then Some 255
     else if name = ''ucharmax'' then Some 16777215
     else None)"

definition evalLiteral :: "semantic \<Rightarrow> node \<Rightarrow> int option" where
  "evalLiteral m n =
    (if n_tok n = KwNull then Some 0
     else if n_tok n \<noteq> IntLiteral then None
     else literal_value (sm_tokText m n))"

text \<open>
  The 64-bit result is cut to a cell, so its own wrap-around does not show; shifts take the low 32
  bits first, the logical one as an unsigned number.
\<close>

definition evalBinary :: "token_kind \<Rightarrow> int \<Rightarrow> int \<Rightarrow> int option" where
  "evalBinary k left right =
    (case k of
      Plus \<Rightarrow> Some (cell (left + right))
    | Minus \<Rightarrow> Some (cell (left - right))
    | Star \<Rightarrow> Some (cell (left * right))
    | Slash \<Rightarrow> if right = 0 then None else Some (cell (quot64 left right))
    | Percent \<Rightarrow> if right = 0 then None else Some (cell (rem64 left right))
    | Shl \<Rightarrow> if right < 0 \<or> 32 \<le> right then None
        else Some (wrap32 (push_bit (nat right) (take_bit 32 left)))
    | Shr \<Rightarrow> if right < 0 \<or> 32 \<le> right then None else Some (drop_bit (nat right) (wrap32 left))
    | Ushr \<Rightarrow> if right < 0 \<or> 32 \<le> right then None
        else Some (wrap32 (drop_bit (nat right) (take_bit 32 left)))
    | Amp \<Rightarrow> Some (cell (and left right))
    | Pipe \<Rightarrow> Some (cell (or left right))
    | Caret \<Rightarrow> Some (cell (xor left right))
    | AndAnd \<Rightarrow> Some (truth (left \<noteq> 0 \<and> right \<noteq> 0))
    | OrOr \<Rightarrow> Some (truth (left \<noteq> 0 \<or> right \<noteq> 0))
    | Eq \<Rightarrow> Some (truth (left = right))
    | NotEq \<Rightarrow> Some (truth (left \<noteq> right))
    | Lt \<Rightarrow> Some (truth (left < right))
    | Gt \<Rightarrow> Some (truth (left > right))
    | LtEq \<Rightarrow> Some (truth (left \<le> right))
    | GtEq \<Rightarrow> Some (truth (left \<ge> right))
    | _ \<Rightarrow> None)"

definition evalUnary :: "token_kind \<Rightarrow> int \<Rightarrow> int option" where
  "evalUnary k v =
    (case k of
      Plus \<Rightarrow> Some v
    | Minus \<Rightarrow> Some (cell (- v))
    | Bang \<Rightarrow> Some (truth (v = 0))
    | Tilde \<Rightarrow> Some (cell (not v))
    | _ \<Rightarrow> None)"

section \<open>Expressions\<close>

text \<open>
  \<open>eval\<close> follows constants to their initializers. The symbols being visited are remembered, so every
  chain of constants ends: each step down an initializer adds one of the finitely many symbols. The
  values of variables and the resolver of foreign names are optional arguments in the code, here a
  map (empty for none) and an option.
\<close>

definition known_symbol :: "semantic \<Rightarrow> node \<Rightarrow> nat option" where
  "known_symbol m n = (case Resolve m n of Some i \<Rightarrow> if i < length (sm_symbols m) then Some i else None | None \<Rightarrow> None)"

lemma known_symbol_bound: "known_symbol m n = Some i \<Longrightarrow> i < length (sm_symbols m)"
  by (auto simp: known_symbol_def split: option.splits if_splits)

function eval ::
  "semantic \<Rightarrow> (nat \<Rightarrow> int option) \<Rightarrow> (node \<Rightarrow> int option) option \<Rightarrow> nat list \<Rightarrow> node \<Rightarrow> int option" where
  "eval m vals resolver visiting n =
    (if n_hasError n \<or> Uncertain (sm_walk m) n then None
     else if n_kind n = KindLiteral then evalLiteral m n
     else if n_kind n = KindParenthesizedExpression then
       (case field n ''expression'' of None \<Rightarrow> None | Some e \<Rightarrow> eval m vals resolver visiting e)
     else if n_kind n = KindUnaryExpression then
       (case field n ''expression'' of
         None \<Rightarrow> None
       | Some e \<Rightarrow> (case eval m vals resolver visiting e of
           None \<Rightarrow> None | Some v \<Rightarrow> evalUnary (n_tok n) v))
     else if n_kind n = KindBinaryExpression then
       (case (case field n ''left'' of None \<Rightarrow> None | Some e \<Rightarrow> eval m vals resolver visiting e,
              case field n ''right'' of None \<Rightarrow> None | Some e \<Rightarrow> eval m vals resolver visiting e) of
         (Some l, Some r) \<Rightarrow> evalBinary (n_tok n) l r
       | _ \<Rightarrow> None)
     else if n_kind n = KindTernaryExpression then
       (case (case field n ''condition'' of None \<Rightarrow> None | Some e \<Rightarrow> eval m vals resolver visiting e) of
         None \<Rightarrow> None
       | Some c \<Rightarrow>
           if c \<noteq> 0
           then (case field n ''consequence'' of None \<Rightarrow> None | Some e \<Rightarrow> eval m vals resolver visiting e)
           else (case field n ''alternative'' of None \<Rightarrow> None | Some e \<Rightarrow> eval m vals resolver visiting e))
     else if n_kind n = KindIdentifier then
       (case known_symbol m n of
         None \<Rightarrow>
           (case builtinValue (text_of m n) of
             Some v \<Rightarrow> Some v
           | None \<Rightarrow> (case resolver of None \<Rightarrow> None | Some f \<Rightarrow> f n))
       | Some i \<Rightarrow>
           (case vals i of
             Some v \<Rightarrow> Some v
           | None \<Rightarrow>
               if \<not> sy_constant (sm_symbols m ! i) then None
               else (case sm_constantValues m i of
                 Some v \<Rightarrow> Some v
               | None \<Rightarrow>
                   (case sy_value (sm_symbols m ! i) of
                     None \<Rightarrow> None
                   | Some e \<Rightarrow> if i \<in> set visiting then None else eval m vals resolver (i # visiting) e))))
     else None)"
  by pat_completeness auto
termination
proof (relation "measures [\<lambda>(m, vals, resolver, visiting, n). card ({..<length (sm_symbols m)} - set visiting),
    \<lambda>(m, vals, resolver, visiting, n). size n]", goal_cases)
  case (9 m vals resolver visiting n i e)
  then have "i < length (sm_symbols m)" using known_symbol_bound by blast
  then have "card ({..<length (sm_symbols m)} - set (i # visiting)) < card ({..<length (sm_symbols m)} - set visiting)"
    using 9 by (intro psubset_card_mono) auto
  then show ?case by simp
qed (auto simp: size_field)

declare eval.simps [simp del]

definition Eval :: "semantic \<Rightarrow> node \<Rightarrow> int option" where
  "Eval m n = eval m Map.empty None [] n"

definition EvalWithValues :: "semantic \<Rightarrow> node \<Rightarrow> (nat \<Rightarrow> int option) \<Rightarrow> int option" where
  "EvalWithValues m n vals = eval m vals None [] n"

definition EvalWithResolver :: "semantic \<Rightarrow> node \<Rightarrow> (node \<Rightarrow> int option) \<Rightarrow> int option" where
  "EvalWithResolver m n resolver = eval m Map.empty (Some resolver) [] n"

definition Eval_opt :: "semantic \<Rightarrow> node option \<Rightarrow> int option" where
  "Eval_opt m n = (case n of None \<Rightarrow> None | Some e \<Rightarrow> Eval m e)"

definition ConstantValue :: "semantic \<Rightarrow> nat \<Rightarrow> int option" where
  "ConstantValue m i =
    (let s = sm_symbols m ! i in
     if \<not> sy_constant s \<or> sy_ambiguous s then None
     else (case sm_constantValues m i of Some v \<Rightarrow> Some v | None \<Rightarrow> Eval_opt m (sy_value s)))"

section \<open>Enums\<close>

fun enum_entries_of :: "node \<Rightarrow> node list" where
  "enum_entries_of (Node i k t s e b fs cs) =
    (if k = KindConditionalRegion \<or> k = KindConditionalBranch then concat (map enum_entries_of cs)
     else if k = KindEnumEntry then [Node i k t s e b fs cs]
     else [])"

definition enumEntries :: "node \<Rightarrow> node list" where
  "enumEntries body = concat (map enum_entries_of (n_children body))"

fun width_loop :: "semantic \<Rightarrow> node list \<Rightarrow> int \<Rightarrow> int option" where
  "width_loop m [] width = Some width"
| "width_loop m (c # cs) width =
    (if n_kind c \<noteq> KindDimension then width_loop m cs width
     else (case Eval_opt m (field c ''size'') of
       None \<Rightarrow> None
     | Some sz \<Rightarrow>
         if sz \<le> 0 then None
         else (let width = cell (width * sz) in if width \<le> 0 then None else width_loop m cs width)))"

definition enumEntryWidth :: "semantic \<Rightarrow> node \<Rightarrow> int option" where
  "enumEntryWidth m entry = width_loop m (n_children entry) 1"

definition set_constant :: "nat \<Rightarrow> int \<Rightarrow> semantic \<Rightarrow> semantic" where
  "set_constant i v m = m\<lparr>sm_constantValues := (sm_constantValues m)(i \<mapsto> v)\<rparr>"

text \<open>The counter is kept beside a flag that says whether it is known.\<close>

fun enum_loop :: "node list \<Rightarrow> int \<Rightarrow> bool \<Rightarrow> semantic \<Rightarrow> int \<times> bool \<times> semantic" where
  "enum_loop [] current known m = (current, known, m)"
| "enum_loop (entry # es) current known m =
    (case sm_declSymbols m (n_id entry) of
      None \<Rightarrow> enum_loop es current False m
    | Some i \<Rightarrow>
        if sy_ambiguous (sm_symbols m ! i) then enum_loop es current False m
        else
          (let (current, known) = (case field entry ''value'' of
                 None \<Rightarrow> (current, known)
               | Some e \<Rightarrow> (case Eval m e of None \<Rightarrow> (0, False) | Some v \<Rightarrow> (v, True)));
               m = (if known then set_constant i current m else m)
           in case enumEntryWidth m entry of
                None \<Rightarrow> enum_loop es current False m
              | Some step \<Rightarrow>
                  if known then enum_loop es (cell (current + step)) True m
                  else enum_loop es current False m))"

definition evaluate_enum :: "node \<Rightarrow> semantic \<Rightarrow> semantic" where
  "evaluate_enum decl m =
    (if field decl ''increment'' \<noteq> None \<or> Uncertain (sm_walk m) decl then m
     else (case field decl ''body'' of
       None \<Rightarrow> m
     | Some body \<Rightarrow>
         (let (current, known, m) = enum_loop (enumEntries body) 0 True m in
          case sm_declSymbols m (n_id decl) of
            None \<Rightarrow> m
          | Some root \<Rightarrow>
              if \<not> sy_ambiguous (sm_symbols m ! root) \<and> known then set_constant root current m else m)))"

definition evaluateEnums :: "semantic \<Rightarrow> semantic" where
  "evaluateEnums m = fold evaluate_enum (OfKind (wm_index (sm_walk m)) KindEnumDeclaration) m"

definition Build_semantic ::
  "node \<Rightarrow> walk_model \<Rightarrow> (node \<Rightarrow> string) \<Rightarrow> (file_token \<times> string) list \<Rightarrow> semantic" where
  "Build_semantic root w tokText tokens = evaluateEnums (build_symbols root w tokText tokens)"

section \<open>Tags of expressions\<close>

fun unwrap :: "node \<Rightarrow> node option" where
  "unwrap n =
    (if n_kind n = KindParenthesizedExpression
     then (case field n ''expression'' of None \<Rightarrow> None | Some e \<Rightarrow> unwrap e)
     else Some n)"

declare unwrap.simps [simp del]

lemma unwrap_size: "unwrap n = Some u \<Longrightarrow> size u \<le> size n \<and> n_kind u \<noteq> KindParenthesizedExpression"
proof (induction n rule: unwrap.induct)
  case (1 n)
  show ?case
  proof (cases "n_kind n = KindParenthesizedExpression")
    case True
    with 1(2) obtain e where e: "field n ''expression'' = Some e" "unwrap e = Some u"
      by (subst (asm) unwrap.simps) (auto split: option.splits)
    with 1(1) [OF True e(1)] size_field [OF e(1)] show ?thesis by simp
  next
    case False
    with 1(2) show ?thesis by (subst (asm) unwrap.simps) auto
  qed
qed

definition unwrap_opt :: "node option \<Rightarrow> node option" where
  "unwrap_opt n = (case n of None \<Rightarrow> None | Some x \<Rightarrow> unwrap x)"

definition BooleanLiteral :: "semantic \<Rightarrow> node \<Rightarrow> bool option" where
  "BooleanLiteral m n =
    (case unwrap n of
      None \<Rightarrow> None
    | Some n \<Rightarrow>
        if n_kind n \<noteq> KindIdentifier \<or> Resolve m n \<noteq> None \<or> Uncertain (sm_walk m) n then None
        else if text_of m n = ''true'' then Some True
        else if text_of m n = ''false'' then Some False
        else None)"

definition symbol_tags :: "semantic \<Rightarrow> nat option \<Rightarrow> string list" where
  "symbol_tags m i =
    (case i of None \<Rightarrow> []
     | Some j \<Rightarrow> if sy_ambiguous (sm_symbols m ! j) then [] else sy_tags (sm_symbols m ! j))"

definition singleSymbolTag :: "semantic \<Rightarrow> nat option \<Rightarrow> string option" where
  "singleSymbolTag m i =
    (case i of
      None \<Rightarrow> None
    | Some j \<Rightarrow>
        (let s = sm_symbols m ! j in
         if sy_ambiguous s \<or> length (sy_tags s) \<noteq> 1 \<or> hd (sy_tags s) = [] then None else Some (hd (sy_tags s))))"

definition Resolve_opt :: "semantic \<Rightarrow> node option \<Rightarrow> nat option" where
  "Resolve_opt m n = (case n of None \<Rightarrow> None | Some x \<Rightarrow> Resolve m x)"

definition equalTags :: "string list \<Rightarrow> string list \<Rightarrow> bool" where
  "equalTags l r = (l \<noteq> [] \<and> l = r)"

definition comparison :: "token_kind \<Rightarrow> bool" where
  "comparison k = (k \<in> {Eq, NotEq, Lt, Gt, LtEq, GtEq, AndAnd, OrOr})"

function ExpressionTags :: "semantic \<Rightarrow> node option \<Rightarrow> string list" where
  "ExpressionTags m expr =
    (case unwrap_opt expr of
      None \<Rightarrow> []
    | Some n \<Rightarrow>
        if n_hasError n \<or> Uncertain (sm_walk m) n then []
        else if n_kind n = KindIdentifier then
          (if BooleanLiteral m n \<noteq> None then [''bool''] else symbol_tags m (Resolve m n))
        else if n_kind n = KindTaggedExpression then
          (case field n ''tag'' of
            None \<Rightarrow> [] | Some t \<Rightarrow> if text_of m t = [] then [] else [text_of m t])
        else if n_kind n = KindCallExpression then
          symbol_tags m (Resolve_opt m (unwrap_opt (field n ''function'')))
        else if n_kind n = KindSubscriptExpression then ExpressionTags m (field n ''array'')
        else if n_kind n = KindAssignmentExpression then ExpressionTags m (field n ''left'')
        else if n_kind n = KindUpdateExpression then ExpressionTags m (field n ''expression'')
        else if n_kind n = KindUnaryExpression then
          (if n_tok n = Bang then [''bool''] else ExpressionTags m (field n ''expression''))
        else if n_kind n = KindBinaryExpression then
          (if comparison (n_tok n) then [''bool'']
           else if n_tok n = Dot then []
           else
             (let left = ExpressionTags m (field n ''left''); right = ExpressionTags m (field n ''right'')
              in if equalTags left right then left else []))
        else if n_kind n = KindTernaryExpression then
          (let left = ExpressionTags m (field n ''consequence''); right = ExpressionTags m (field n ''alternative'')
           in if equalTags left right then left else [])
        else if n_kind n = KindExpressionList \<and> n_children n \<noteq> [] then
          ExpressionTags m (Some (last (n_children n)))
        else [])"
  by pat_completeness auto

definition option_size :: "node option \<Rightarrow> nat" where
  "option_size n = (case n of None \<Rightarrow> 0 | Some x \<Rightarrow> size x)"

lemma option_size_simps: "option_size None = 0" "option_size (Some x) = size x"
  by (simp_all add: option_size_def)

lemma size_node_pos: "0 < size (n :: node)"
  by (cases n) simp

lemma unwrap_opt_size: "unwrap_opt e = Some n \<Longrightarrow> size n \<le> option_size e"
  using unwrap_size by (cases e) (auto simp: unwrap_opt_def option_size_def)

lemma option_size_field: "unwrap_opt e = Some n \<Longrightarrow> option_size (field n name) < option_size e"
  using unwrap_opt_size [of e n] size_field [of n name] size_node_pos [of n]
  by (cases "field n name") (auto simp: option_size_simps)

lemma option_size_child:
  "unwrap_opt e = Some n \<Longrightarrow> c \<in> set (n_children n) \<Longrightarrow> option_size (Some c) < option_size e"
  using unwrap_opt_size [of e n] size_child [of c n] by (simp add: option_size_simps)

termination ExpressionTags
  by (relation "measure (\<lambda>(m, e). option_size e)") (auto simp: option_size_field option_size_child)

declare ExpressionTags.simps [simp del]

function ExpressionTag :: "semantic \<Rightarrow> node option \<Rightarrow> string option" where
  "ExpressionTag m expr =
    (case unwrap_opt expr of
      None \<Rightarrow> None
    | Some n \<Rightarrow>
        if n_hasError n \<or> Uncertain (sm_walk m) n then None
        else if n_kind n = KindIdentifier then
          (if BooleanLiteral m n \<noteq> None then Some ''bool'' else singleSymbolTag m (Resolve m n))
        else if n_kind n = KindTaggedExpression then
          (case field n ''tag'' of
            None \<Rightarrow> None | Some t \<Rightarrow> if text_of m t = [] then None else Some (text_of m t))
        else if n_kind n = KindCallExpression then
          singleSymbolTag m (Resolve_opt m (unwrap_opt (field n ''function'')))
        else if n_kind n = KindSubscriptExpression then ExpressionTag m (field n ''array'')
        else if n_kind n = KindAssignmentExpression then ExpressionTag m (field n ''left'')
        else if n_kind n = KindUpdateExpression then ExpressionTag m (field n ''expression'')
        else if n_kind n = KindUnaryExpression then
          (if n_tok n = Bang then Some ''bool'' else ExpressionTag m (field n ''expression''))
        else if n_kind n = KindBinaryExpression then
          (if comparison (n_tok n) then Some ''bool''
           else if n_tok n = Dot then None
           else
             (case (ExpressionTag m (field n ''left''), ExpressionTag m (field n ''right'')) of
               (Some l, Some r) \<Rightarrow> if l = r then Some l else None
             | _ \<Rightarrow> None))
        else if n_kind n = KindTernaryExpression then
          (case (ExpressionTag m (field n ''consequence''), ExpressionTag m (field n ''alternative'')) of
            (Some l, Some r) \<Rightarrow> if l = r then Some l else None
          | _ \<Rightarrow> None)
        else if n_kind n = KindExpressionList \<and> n_children n \<noteq> [] then
          ExpressionTag m (Some (last (n_children n)))
        else None)"
  by pat_completeness auto
termination
  by (relation "measure (\<lambda>(m, e). option_size e)") (auto simp: option_size_field option_size_child)

declare ExpressionTag.simps [simp del]

definition Boolean :: "semantic \<Rightarrow> node option \<Rightarrow> bool" where
  "Boolean m expr =
    (case unwrap_opt expr of
      None \<Rightarrow> False
    | Some n \<Rightarrow>
        if n_hasError n \<or> Uncertain (sm_walk m) n then False
        else if BooleanLiteral m n \<noteq> None then True
        else if ExpressionTags m (Some n) = [''bool''] then True
        else if n_kind n = KindUnaryExpression then n_tok n = Bang
        else n_kind n = KindBinaryExpression \<and> comparison (n_tok n))"

section \<open>Equivalent and pure expressions\<close>

fun certainSubtree :: "semantic \<Rightarrow> node \<Rightarrow> bool" where
  "certainSubtree m (Node i k t s e b fs cs) =
    (\<not> b \<and> \<not> Uncertain (sm_walk m) (Node i k t s e b fs cs) \<and> (\<forall>c\<in>set cs. certainSubtree m c))"

function equivalentCertain :: "semantic \<Rightarrow> node \<Rightarrow> node \<Rightarrow> bool"
and equivalent_children :: "semantic \<Rightarrow> node list \<Rightarrow> node list \<Rightarrow> bool" where
  "equivalentCertain m l r =
    (case (unwrap l, unwrap r) of
      (Some a, Some b) \<Rightarrow>
        if n_kind a \<noteq> n_kind b \<or> n_hasError a \<or> n_hasError b then False
        else if n_kind a = KindIdentifier then Resolve m a \<noteq> None \<and> Resolve m b = Resolve m a
        else if n_kind a = KindLiteral then n_tok a = n_tok b \<and> sm_tokText m a = sm_tokText m b
        else if n_tok a \<noteq> n_tok b \<or> length (n_children a) \<noteq> length (n_children b) then False
        else equivalent_children m (n_children a) (n_children b)
    | _ \<Rightarrow> False)"
| "equivalent_children m (x # xs) (y # ys) = (equivalentCertain m x y \<and> equivalent_children m xs ys)"
| "equivalent_children m [] ys = True"
| "equivalent_children m (x # xs) [] = True"
  by pat_completeness auto
termination
  by (relation "measure (\<lambda>x. case x of Inl (m, l, r) \<Rightarrow> size l | Inr (m, xs, ys) \<Rightarrow> size_list size xs)")
    (auto dest!: unwrap_size [OF sym] intro: less_le_trans [OF size_children])

declare equivalentCertain.simps [simp del]

definition Equivalent :: "semantic \<Rightarrow> node option \<Rightarrow> node option \<Rightarrow> bool" where
  "Equivalent m l r =
    (case (unwrap_opt l, unwrap_opt r) of
      (Some a, Some b) \<Rightarrow>
        if n_kind a \<noteq> n_kind b \<or> n_hasError a \<or> n_hasError b then False
        else if \<not> certainSubtree m a \<or> \<not> certainSubtree m b then False
        else equivalentCertain m a b
    | _ \<Rightarrow> False)"

definition tokensWithin :: "semantic \<Rightarrow> node \<Rightarrow> (file_token \<times> string) list" where
  "tokensWithin m n =
    (let start = sort_search (length (sm_tokens m)) (\<lambda>i. ft_start (fst (sm_tokens m ! i)) \<ge> n_start n)
     in takeWhile (\<lambda>t. ft_end (fst t) \<le> n_end n) (drop start (sm_tokens m)))"

definition EquivalentSyntax :: "semantic \<Rightarrow> node option \<Rightarrow> node option \<Rightarrow> bool" where
  "EquivalentSyntax m l r =
    (case (l, r) of
      (Some a, Some b) \<Rightarrow>
        if n_kind a \<noteq> n_kind b \<or> n_hasError a \<or> n_hasError b then False
        else if \<not> certainSubtree m a \<or> \<not> certainSubtree m b then False
        else
          (let ls = tokensWithin m a; rs = tokensWithin m b in
           length ls = length rs \<and>
           list_all2 (\<lambda>x y. ft_kind (fst x) = ft_kind (fst y) \<and> snd x = snd y) ls rs \<and> ls \<noteq> [])
    | _ \<Rightarrow> False)"

function Pure :: "semantic \<Rightarrow> node \<Rightarrow> bool" where
  "Pure m expr =
    (case unwrap expr of
      None \<Rightarrow> False
    | Some n \<Rightarrow>
        if n_hasError n \<or> Uncertain (sm_walk m) n then False
        else if n_kind n = KindIdentifier \<or> n_kind n = KindLiteral then True
        else if n_kind n = KindUnaryExpression \<and> (n_tok n = PlusPlus \<or> n_tok n = MinusMinus) then False
        else if n_kind n \<in> {KindUnaryExpression, KindBinaryExpression, KindTernaryExpression,
          KindSubscriptExpression, KindSizeofExpression, KindTagofExpression, KindTaggedExpression,
          KindParenthesizedExpression}
        then (\<forall>c\<in>set (n_children n). Pure m c)
        else False)"
  by pat_completeness auto
termination
  by (relation "measure (\<lambda>(m, n). size n)")
    (auto dest!: unwrap_size unwrap_size [OF sym] intro: less_le_trans [OF size_child])

declare Pure.simps [simp del]

section \<open>Evaluation is 32-bit arithmetic\<close>

text \<open>
  The operators on the machine's cells, words of 32 bits: division and remainder truncate, shifts by
  the width or more have no value.
\<close>

definition word_binary :: "token_kind \<Rightarrow> 32 word \<Rightarrow> 32 word \<Rightarrow> 32 word option" where
  "word_binary k a b =
    (case k of
      Plus \<Rightarrow> Some (a + b)
    | Minus \<Rightarrow> Some (a - b)
    | Star \<Rightarrow> Some (a * b)
    | Slash \<Rightarrow> if b = 0 then None else Some (word_of_int (sint a sdiv sint b))
    | Percent \<Rightarrow> if b = 0 then None else Some (word_of_int (sint a smod sint b))
    | Shl \<Rightarrow> if 32 \<le> uint b then None else Some (push_bit (unat b) a)
    | Shr \<Rightarrow> if 32 \<le> uint b then None else Some (signed_drop_bit (unat b) a)
    | Ushr \<Rightarrow> if 32 \<le> uint b then None else Some (drop_bit (unat b) a)
    | Amp \<Rightarrow> Some (and a b)
    | Pipe \<Rightarrow> Some (or a b)
    | Caret \<Rightarrow> Some (xor a b)
    | AndAnd \<Rightarrow> Some (if a \<noteq> 0 \<and> b \<noteq> 0 then 1 else 0)
    | OrOr \<Rightarrow> Some (if a \<noteq> 0 \<or> b \<noteq> 0 then 1 else 0)
    | Eq \<Rightarrow> Some (if a = b then 1 else 0)
    | NotEq \<Rightarrow> Some (if a \<noteq> b then 1 else 0)
    | Lt \<Rightarrow> Some (if sint a < sint b then 1 else 0)
    | Gt \<Rightarrow> Some (if sint a > sint b then 1 else 0)
    | LtEq \<Rightarrow> Some (if sint a \<le> sint b then 1 else 0)
    | GtEq \<Rightarrow> Some (if sint a \<ge> sint b then 1 else 0)
    | _ \<Rightarrow> None)"

lemma wrap32_signed: "wrap32 x = signed_take_bit 31 x"
  by (simp add: wrap32_def signed_take_bit_eq_take_bit_shift take_bit_eq_mod)

lemma wrap32_sint: "wrap32 x = sint (word_of_int x :: 32 word)"
  by (simp add: wrap32_signed sint_sbintrunc')

lemma in32_sint [simp]: "in32 (sint (w :: 32 word))"
  using sint_ge [of w] sint_lt [of w] by (simp add: in32_def)

lemma sint_eq_0 [simp]: "sint (w :: 32 word) = 0 \<longleftrightarrow> w = 0"
  by (metis signed_0 signed_word_eqI)

lemma sint_small: "sint (1 :: 32 word) = 1"
  by simp

lemma wrap32_wrap64: "wrap32 (wrap64 x) = wrap32 x"
proof -
  have "wrap64 x + 2 ^ 31 = (x + 2 ^ 31) + 2 ^ 32 * (- (2 ^ 32 * ((x + 2 ^ 63) div 2 ^ 64)))"
    by (simp add: wrap64_def minus_mult_div_eq_mod [symmetric])
  then have "(wrap64 x + 2 ^ 31) mod 2 ^ 32 = (x + 2 ^ 31) mod 2 ^ 32"
    by (simp only: mod_mult_self2)
  then show ?thesis by (simp add: wrap32_def)
qed

lemma shift_count:
  fixes b :: "32 word"
  shows "sint b < 0 \<or> 32 \<le> sint b \<longleftrightarrow> 32 \<le> uint b"
    and "uint b < 32 \<Longrightarrow> nat (sint b) = unat b"
proof -
  have range: "0 \<le> uint b" "uint b < 2 ^ 32" using uint_lt2p [of b] by simp_all
  have "(uint b + 2 ^ 31) mod 2 ^ 32 = (if uint b < 2 ^ 31 then uint b + 2 ^ 31 else uint b - 2 ^ 31)"
  proof (cases "uint b < 2 ^ 31")
    case True
    with range show ?thesis by simp
  next
    case False
    have "uint b + 2 ^ 31 = (uint b - 2 ^ 31) + 2 ^ 32" by simp
    then have "(uint b + 2 ^ 31) mod 2 ^ 32 = (uint b - 2 ^ 31) mod 2 ^ 32" by (simp only: mod_add_self2)
    with False range show ?thesis by simp
  qed
  moreover have "sint b = wrap32 (uint b)" by (simp add: wrap32_signed sint_uint)
  ultimately have "sint b = (if uint b < 2 ^ 31 then uint b else uint b - 2 ^ 32)"
    by (simp add: wrap32_def)
  then show "sint b < 0 \<or> 32 \<le> sint b \<longleftrightarrow> 32 \<le> uint b" "uint b < 32 \<Longrightarrow> nat (sint b) = unat b"
    using uint_lt2p [of b] by auto
qed

lemma evalBinary_shift:
  fixes a b :: "32 word"
  assumes "uint b < 32"
  shows "evalBinary Shl (sint a) (sint b) = Some (sint (push_bit (unat b) a))"
    and "evalBinary Shr (sint a) (sint b) = Some (sint (signed_drop_bit (unat b) a))"
    and "evalBinary Ushr (sint a) (sint b) = Some (sint (drop_bit (unat b) a))"
proof -
  have in_range: "\<not> (sint b < 0 \<or> 32 \<le> sint b)" and n: "nat (sint b) = unat b"
    using shift_count [of b] assms by auto
  have low: "take_bit 32 (sint a) = uint a" by (simp add: uint_sint)
  have "word_of_int (push_bit (unat b) (uint a)) = push_bit (unat b) a" by (simp add: push_bit_eq_mult)
  with in_range n low show "evalBinary Shl (sint a) (sint b) = Some (sint (push_bit (unat b) a))"
    by (simp add: evalBinary_def wrap32_sint)
  show "evalBinary Shr (sint a) (sint b) = Some (sint (signed_drop_bit (unat b) a))"
    using in_range n by (simp add: evalBinary_def wrap32_id sint_signed_drop_bit_eq)
  have "word_of_int (drop_bit n (uint a)) = drop_bit n a" for n
    by transfer simp
  with in_range n low show "evalBinary Ushr (sint a) (sint b) = Some (sint (drop_bit (unat b) a))"
    by (simp add: evalBinary_def wrap32_sint)
qed

lemma evalBinary_no_shift:
  fixes a b :: "32 word"
  assumes "32 \<le> uint b" and "k \<in> {Shl, Shr, Ushr}"
  shows "evalBinary k (sint a) (sint b) = None"
  using assms shift_count(1) [of b] by (auto simp: evalBinary_def)

text \<open>
  C20: constant evaluation is the arithmetic of 32-bit cells. On the signed values of two words every
  binary operator gives the signed value of the word the machine computes: addition, subtraction and
  multiplication wrap, division truncates and overflows as it does there, shifts and bitwise operators
  act on the bits, comparisons are signed; no value where the divisor is zero or the shift too long.
\<close>

theorem evalBinary_is_word:
  "evalBinary k (sint (a :: 32 word)) (sint b) = map_option sint (word_binary k a b)"
proof (cases "k \<in> {Shl, Shr, Ushr}")
  case True
  show ?thesis
  proof (cases "32 \<le> uint b")
    case True
    with evalBinary_no_shift [OF True \<open>k \<in> {Shl, Shr, Ushr}\<close>] \<open>k \<in> {Shl, Shr, Ushr}\<close>
    show ?thesis by (auto simp: word_binary_def)
  next
    case False
    with evalBinary_shift [of b a] \<open>k \<in> {Shl, Shr, Ushr}\<close> show ?thesis by (auto simp: word_binary_def)
  qed
next
  case False
  then show ?thesis
    by (cases k) (auto simp: evalBinary_def word_binary_def cell_def truth_def wrap32_sint
        quot64_def rem64_def wrap32_wrap64 [unfolded wrap32_sint] of_int_and_eq of_int_or_eq of_int_xor_eq dest: signed_word_eqI)
qed

section \<open>Values stay cells\<close>

definition cells :: "('a \<Rightarrow> int option) \<Rightarrow> bool" where
  "cells f = (\<forall>x v. f x = Some v \<longrightarrow> in32 v)"

lemma in32_truth [simp]: "in32 (truth b)"
  by (simp add: truth_def in32_def)

lemma in32_cell [simp]: "in32 (cell v)"
  by (simp add: cell_def)

lemma in32_drop_bit: "in32 v \<Longrightarrow> in32 (drop_bit n v)"
proof -
  assume "in32 v"
  then have "drop_bit n v = sint (signed_drop_bit n (word_of_int v :: 32 word))"
    by (simp add: sint_signed_drop_bit_eq wrap32_id flip: wrap32_sint)
  then show ?thesis by simp
qed

lemma in32_evalBinary: "evalBinary k l r = Some v \<Longrightarrow> in32 v"
  by (cases k) (auto simp: evalBinary_def in32_drop_bit split: if_splits)

lemma in32_evalUnary: "evalUnary k x = Some v \<Longrightarrow> in32 x \<Longrightarrow> in32 v"
  by (cases k) (auto simp: evalUnary_def)

lemma in32_literal: "evalLiteral m n = Some v \<Longrightarrow> in32 v"
proof -
  have "literal_value t = Some v \<Longrightarrow> in32 v" for t by (auto simp: literal_value_def Let_def)
  moreover have "in32 0" by (simp add: in32_def)
  ultimately show "evalLiteral m n = Some v \<Longrightarrow> in32 v" by (auto simp: evalLiteral_def split: if_splits)
qed

lemma in32_builtin: "builtinValue name = Some v \<Longrightarrow> in32 v"
  by (auto simp: builtinValue_def in32_def split: if_splits)

lemma eval_in32:
  "eval m vals resolver visiting n = Some v \<Longrightarrow> cells (sm_constantValues m) \<Longrightarrow> cells vals \<Longrightarrow>
    (\<forall>f. resolver = Some f \<longrightarrow> cells f) \<Longrightarrow> in32 v"
proof (induction m vals resolver visiting n arbitrary: v rule: eval.induct)
  case (1 m vals resolver visiting n)
  show ?case
    using 1(9-12)
    by (subst (asm) eval.simps)
      (auto split: if_splits option.splits intro: 1(1-8) in32_literal in32_builtin in32_evalBinary
        simp: cells_def elim!: in32_evalUnary)
qed



section \<open>One tag and many\<close>

definition single :: "string list \<Rightarrow> string option" where
  "single tags = (case tags of [t] \<Rightarrow> if t = [] then None else Some t | _ \<Rightarrow> None)"

lemma single_simps [simp]: "single [] = None" "single [t] = (if t = [] then None else Some t)"
  "single (t # u # ts) = None"
  by (simp_all add: single_def)

lemma singleSymbolTag_single: "singleSymbolTag m i = single (symbol_tags m i)"
  by (cases "sy_tags (sm_symbols m ! the i)" rule: remdups_adj.cases)
    (auto simp: singleSymbolTag_def symbol_tags_def Let_def split: option.split)

lemma single_equal:
  "single (if equalTags l r then l else []) =
    (case (single l, single r) of (Some x, Some y) \<Rightarrow> if x = y then Some x else None | _ \<Rightarrow> None)"
  by (cases l rule: remdups_adj.cases; cases r rule: remdups_adj.cases) (auto simp: equalTags_def)

text \<open>
  The single tag of an expression and its list of tags agree. The two traversals find one tag in
  exactly the same cases, and the same one.
\<close>

lemma ExpressionTag_consistent: "ExpressionTag m n = single (ExpressionTags m n)"
proof (induction m n rule: ExpressionTags.induct)
  case (1 m n)
  show ?case
    by (subst ExpressionTag.simps, subst ExpressionTags.simps)
      (auto simp: 1 singleSymbolTag_single single_equal Let_def split: option.split)
qed

end
