(* ===== verification/Value_Flow.thy ===== *)
theory Value_Flow
  imports Control_Flow Constants
begin

text \<open>
  The values local variables are known to have (\<open>internal/controlflow/values.go\<close>): the events of each
  block, and their propagation over the control-flow graph with a work list. A Go map from blocks is a
  list indexed by the number of the block, a map from symbols to values an association list with
  distinct keys.
\<close>

section \<open>Events\<close>

datatype value_event_kind = ValueInvalidate | ValueAssign

record value_event =
  ve_kind :: value_event_kind
  ve_offset :: int
  ve_symbol :: nat
  ve_expr :: "node option"
  ve_zero :: bool

type_synonym value_state = "(nat \<times> int) list"

text \<open>A function under analysis: its node, its graph and what the graph was built from.\<close>

record flow_function =
  ff_node :: node
  ff_cfg :: cfg
  ff_semantic :: semantic

abbreviation ff_walk :: "flow_function \<Rightarrow> walk_model" where
  "ff_walk f \<equiv> sm_walk (ff_semantic f)"

definition flow_block :: "flow_function \<Rightarrow> node \<Rightarrow> nat option" where
  "flow_block f n = Block (wm_index (ff_walk f)) (ff_cfg f) n"

definition block_node :: "flow_function \<Rightarrow> nat \<Rightarrow> node option" where
  "block_node f i = bk_node (bd_blocks (cf_builder (ff_cfg f)) ! i)"

text \<open>A block that is the head of a \<open>for\<close> statement.\<close>

definition for_block :: "flow_function \<Rightarrow> nat \<Rightarrow> bool" where
  "for_block f i = (case block_node f i of None \<Rightarrow> False | Some n \<Rightarrow> n_kind n = KindForStatement)"

definition has_dimension :: "node \<Rightarrow> bool" where
  "has_dimension n = (\<exists>c\<in>set (n_children n). n_kind c = KindDimension)"

definition valueSymbol :: "flow_function \<Rightarrow> nat \<Rightarrow> bool" where
  "valueSymbol f i =
    (let s = sm_symbols (ff_semantic f) ! i in
     if sy_ambiguous s \<or> sy_kind s \<noteq> SymbolLocal \<or> map_option n_id (sy_function s) \<noteq> Some (n_id (ff_node f)) then False
     else if sy_tags s \<noteq> [] \<and> sy_tags s \<noteq> [''_''] then False
     else if has_dimension (sy_decl s) then False
     else (case Parent (ff_walk f) (sy_decl s) of
       None \<Rightarrow> False
     | Some d \<Rightarrow>
         if HasChildToken d KwStatic then False
         else (case flow_block f (sy_decl s) of None \<Rightarrow> False | Some b \<Rightarrow> \<not> for_block f b)))"

fun conditional_in :: "node \<Rightarrow> node list \<Rightarrow> bool" where
  "conditional_in n [] = False"
| "conditional_in n (p # ps) =
    (if n_kind p = KindTernaryExpression \<and>
       (case field p ''condition'' of None \<Rightarrow> True | Some c \<Rightarrow> n_start n < n_start c \<or> n_end n > n_end c) then True
     else if n_kind p = KindBinaryExpression \<and> (n_tok p = AndAnd \<or> n_tok p = OrOr) \<and>
       (case field p ''right'' of None \<Rightarrow> False | Some r \<Rightarrow> n_start n \<ge> n_start r \<and> n_end n \<le> n_end r) then True
     else if IsStatement p then False
     else conditional_in n ps)"

definition conditionallyExecuted :: "flow_function \<Rightarrow> node \<Rightarrow> bool" where
  "conditionallyExecuted f n = conditional_in n (Ancestors (wm_index (ff_walk f)) n)"

section \<open>Calls\<close>

record call_effects =
  ce_complete :: bool
  ce_mutated :: "nat list"

fun mutated_parameters :: "file_token list \<Rightarrow> nat \<Rightarrow> node list \<Rightarrow> nat list" where
  "mutated_parameters toks index [] = []"
| "mutated_parameters toks index (p # ps) =
    (if n_kind p \<noteq> KindParameter then mutated_parameters toks index ps
     else if ReferencesByAmpersand toks p \<or> has_dimension p
     then index # mutated_parameters toks (Suc index) ps
     else mutated_parameters toks (Suc index) ps)"

text \<open>
  The optional resolver comes from the project analysis; without an answer from it, the parameters of
  a unique declaration say which arguments a call may change.
\<close>

definition callEffects ::
  "(node \<Rightarrow> call_effects option) option \<Rightarrow> semantic \<Rightarrow> node \<Rightarrow> call_effects option" where
  "callEffects resolver m call =
    (case (case resolver of None \<Rightarrow> None | Some r \<Rightarrow> r call) of
      Some e \<Rightarrow> Some e
    | None \<Rightarrow>
        (case field call ''function'' of
          None \<Rightarrow> None
        | Some callee \<Rightarrow>
            if n_kind callee \<noteq> KindIdentifier then None
            else (case Resolve m callee of
              None \<Rightarrow> None
            | Some i \<Rightarrow>
                (let s = sm_symbols m ! i in
                 if sy_kind s \<noteq> SymbolFunction \<or> sy_ambiguous s then None
                 else (case field (sy_decl s) ''parameters'' of
                   None \<Rightarrow> Some \<lparr>ce_complete = True, ce_mutated = []\<rparr>
                 | Some ps \<Rightarrow> Some \<lparr>ce_complete = True,
                     ce_mutated = mutated_parameters (map fst (sm_tokens m)) 0 (n_children ps)\<rparr>)))))"

fun callArgumentSymbol :: "semantic \<Rightarrow> node \<Rightarrow> nat option" where
  "callArgumentSymbol m n =
    (if n_kind n = KindIdentifier then Resolve m n
     else if n_kind n = KindParenthesizedExpression \<or> n_kind n = KindTaggedExpression
     then (case field n ''expression'' of None \<Rightarrow> None | Some e \<Rightarrow> callArgumentSymbol m e)
     else None)"

declare callArgumentSymbol.simps [simp del]

text \<open>The tracked variables among the arguments, by position.\<close>

fun call_candidates :: "semantic \<Rightarrow> nat list \<Rightarrow> nat \<Rightarrow> node list \<Rightarrow> (nat \<times> nat) list" where
  "call_candidates m tracked index [] = []"
| "call_candidates m tracked index (a # as) =
    (case callArgumentSymbol m a of
      None \<Rightarrow> call_candidates m tracked (Suc index) as
    | Some i \<Rightarrow>
        if i \<in> set tracked then (index, i) # call_candidates m tracked (Suc index) as
        else call_candidates m tracked (Suc index) as)"

text \<open>
  The symbols a call invalidates, each once. The code iterates a map here; the order of the events of
  one call does not matter, since they only delete.
\<close>

definition call_invalidates ::
  "(node \<Rightarrow> call_effects option) option \<Rightarrow> semantic \<Rightarrow> nat list \<Rightarrow> node \<Rightarrow> node \<Rightarrow> nat list" where
  "call_invalidates resolver m tracked call arguments =
    (let cs = call_candidates m tracked 0 (n_children arguments);
         indexes = (case callEffects resolver m call of
             Some e \<Rightarrow> if ce_complete e then ce_mutated e else map fst cs
           | None \<Rightarrow> map fst cs)
     in remdups (List.map_filter (map_of cs) indexes))"

section \<open>The events of a function\<close>

definition add_event :: "nat \<Rightarrow> value_event \<Rightarrow> value_event list list \<Rightarrow> value_event list list" where
  "add_event b e evs = evs[b := (evs ! b) @ [e]]"

definition invalidation :: "int \<Rightarrow> nat \<Rightarrow> value_event" where
  "invalidation off i = \<lparr>ve_kind = ValueInvalidate, ve_offset = off, ve_symbol = i, ve_expr = None, ve_zero = False\<rparr>"

definition addDeclarationValueEvent ::
  "flow_function \<Rightarrow> nat \<Rightarrow> value_event list list \<Rightarrow> value_event list list" where
  "addDeclarationValueEvent f i evs =
    (let decl = sy_decl (sm_symbols (ff_semantic f) ! i); initial = field decl ''initializer'' in
     case flow_block f decl of
       None \<Rightarrow> evs
     | Some b \<Rightarrow> add_event b \<lparr>ve_kind = ValueAssign, ve_offset = n_end decl, ve_symbol = i,
         ve_expr = initial, ve_zero = (initial = None)\<rparr> evs)"

text \<open>The tracked variable an expression names.\<close>

definition tracked_target :: "flow_function \<Rightarrow> nat list \<Rightarrow> node option \<Rightarrow> nat option" where
  "tracked_target f tracked n =
    (case n of
      None \<Rightarrow> None
    | Some x \<Rightarrow>
        if n_kind x \<noteq> KindIdentifier then None
        else (case Resolve (ff_semantic f) x of
          None \<Rightarrow> None | Some i \<Rightarrow> if i \<in> set tracked then Some i else None))"

definition assignment_event ::
  "flow_function \<Rightarrow> nat list \<Rightarrow> node \<Rightarrow> value_event list list \<Rightarrow> value_event list list" where
  "assignment_event f tracked n evs =
    (case tracked_target f tracked (field n ''left'') of
      None \<Rightarrow> evs
    | Some i \<Rightarrow>
        (case flow_block f n of
          None \<Rightarrow> evs
        | Some b \<Rightarrow>
            add_event b
              (if n_tok n = Assign \<and> \<not> for_block f b \<and> \<not> conditionallyExecuted f n
               then (invalidation (n_end n) i)\<lparr>ve_kind := ValueAssign, ve_expr := field n ''right''\<rparr>
               else invalidation (n_end n) i) evs))"

definition update_event ::
  "flow_function \<Rightarrow> nat list \<Rightarrow> node \<Rightarrow> value_event list list \<Rightarrow> value_event list list" where
  "update_event f tracked n evs =
    (case tracked_target f tracked (field n ''expression'') of
      None \<Rightarrow> evs
    | Some i \<Rightarrow>
        (case flow_block f n of None \<Rightarrow> evs | Some b \<Rightarrow> add_event b (invalidation (n_end n) i) evs))"

definition call_event ::
  "(node \<Rightarrow> call_effects option) option \<Rightarrow> flow_function \<Rightarrow> nat list \<Rightarrow> node \<Rightarrow>
    value_event list list \<Rightarrow> value_event list list" where
  "call_event resolver f tracked n evs =
    (case (flow_block f n, field n ''arguments'') of
      (Some b, Some arguments) \<Rightarrow>
        fold (\<lambda>i. add_event b (invalidation (n_end n) i))
          (call_invalidates resolver (ff_semantic f) tracked n arguments) evs
    | _ \<Rightarrow> evs)"

definition event_less :: "value_event \<Rightarrow> value_event \<Rightarrow> bool" where
  "event_less a b =
    (if ve_offset a \<noteq> ve_offset b then ve_offset a < ve_offset b
     else ve_kind a = ValueInvalidate \<and> ve_kind b = ValueAssign)"

text \<open>The nodes of a function that matter, collected once per function by \<open>BuildWithOptions\<close>.\<close>

record function_nodes =
  fn_assignments :: "node list"
  fn_updates :: "node list"
  fn_calls :: "node list"

definition value_events ::
  "(node \<Rightarrow> call_effects option) option \<Rightarrow> flow_function \<Rightarrow> function_nodes \<Rightarrow> nat list \<Rightarrow> value_event list list" where
  "value_events resolver f nodes symbols =
    (let tracked = filter (valueSymbol f) symbols;
         evs = replicate (length (bd_blocks (cf_builder (ff_cfg f)))) [];
         evs = fold (addDeclarationValueEvent f) tracked evs;
         evs = fold (assignment_event f tracked) (fn_assignments nodes) evs;
         evs = fold (update_event f tracked) (fn_updates nodes) evs;
         evs = fold (call_event resolver f tracked) (fn_calls nodes) evs
     in map (stable_sort event_less) evs)"

section \<open>States\<close>

definition delete_value :: "nat \<Rightarrow> value_state \<Rightarrow> value_state" where
  "delete_value i st = filter (\<lambda>p. fst p \<noteq> i) st"

definition set_value :: "nat \<Rightarrow> int \<Rightarrow> value_state \<Rightarrow> value_state" where
  "set_value i v st = (i, v) # delete_value i st"

definition apply_event :: "semantic \<Rightarrow> value_event \<Rightarrow> value_state \<Rightarrow> value_state" where
  "apply_event m e st =
    (if ve_kind e = ValueInvalidate then delete_value (ve_symbol e) st
     else if ve_zero e then set_value (ve_symbol e) 0 st
     else (case (case ve_expr e of None \<Rightarrow> None | Some x \<Rightarrow> EvalWithValues m x (map_of st)) of
       None \<Rightarrow> delete_value (ve_symbol e) st
     | Some v \<Rightarrow> set_value (ve_symbol e) v st))"

text \<open>The loop stops at the first event after \<open>until\<close>; a negative bound means all events.\<close>

definition applyValueEvents :: "semantic \<Rightarrow> int \<Rightarrow> value_event list \<Rightarrow> value_state \<Rightarrow> value_state" where
  "applyValueEvents m until evs st =
    fold (apply_event m) (takeWhile (\<lambda>e. \<not> (until \<ge> 0 \<and> ve_offset e > until)) evs) st"

definition valueStatesEqual :: "value_state \<Rightarrow> value_state \<Rightarrow> bool" where
  "valueStatesEqual l r = (length l = length r \<and> (\<forall>(i, v)\<in>set l. map_of r i = Some v))"

section \<open>Propagation\<close>

record value_flow =
  vf_in :: "value_state list"
  vf_out :: "value_state option list"
  vf_available :: "bool list"
  vf_queue :: "nat list"
  vf_queued :: "bool list"

text \<open>The values on which all predecessors that have been computed agree.\<close>

fun join_loop :: "value_flow \<Rightarrow> nat list \<Rightarrow> value_state option \<Rightarrow> value_state option" where
  "join_loop s [] result = result"
| "join_loop s (p # ps) result =
    (if \<not> vf_available s ! p then join_loop s ps result
     else (case vf_out s ! p of
       None \<Rightarrow> join_loop s ps result
     | Some out \<Rightarrow>
         (case result of
           None \<Rightarrow> join_loop s ps (Some out)
         | Some r \<Rightarrow> join_loop s ps (Some (filter (\<lambda>(i, v). map_of out i = Some v) r)))))"

definition joinedPredecessorValues :: "block list \<Rightarrow> value_flow \<Rightarrow> nat \<Rightarrow> value_state option" where
  "joinedPredecessorValues blocks s b = join_loop s (bk_preds (blocks ! b)) None"

definition push_successor :: "block list \<Rightarrow> nat \<Rightarrow> value_flow \<Rightarrow> value_flow" where
  "push_successor blocks succ s =
    (case joinedPredecessorValues blocks s succ of
      None \<Rightarrow> s
    | Some incoming \<Rightarrow>
        (let changed = (\<not> vf_available s ! succ \<or> \<not> valueStatesEqual (vf_in s ! succ) incoming);
             s = s\<lparr>vf_available := (vf_available s)[succ := True], vf_in := (vf_in s)[succ := incoming]\<rparr>
         in if changed \<and> \<not> vf_queued s ! succ
            then s\<lparr>vf_queue := vf_queue s @ [succ], vf_queued := (vf_queued s)[succ := True]\<rparr>
            else s))"

text \<open>One round of the loop; \<open>None\<close> when the queue is empty.\<close>

definition value_step :: "semantic \<Rightarrow> block list \<Rightarrow> value_event list list \<Rightarrow> value_flow \<Rightarrow> value_flow option" where
  "value_step m blocks evs s =
    (case vf_queue s of
      [] \<Rightarrow> None
    | b # queue \<Rightarrow>
        (let s = s\<lparr>vf_queue := queue, vf_queued := (vf_queued s)[b := False]\<rparr>;
             out = applyValueEvents m (-1) (evs ! b) (vf_in s ! b)
         in if (case vf_out s ! b of None \<Rightarrow> False | Some old \<Rightarrow> valueStatesEqual old out) then Some s
            else
              (let s = s\<lparr>vf_out := (vf_out s)[b := Some out]\<rparr>
               in Some (fold (\<lambda>e. push_successor blocks (fst e)) (bk_succs (blocks ! b)) s))))"

partial_function (option) value_loop ::
  "semantic \<Rightarrow> block list \<Rightarrow> value_event list list \<Rightarrow> value_flow \<Rightarrow> value_flow option" where
  "value_loop m blocks evs s =
    (case value_step m blocks evs s of None \<Rightarrow> Some s | Some s' \<Rightarrow> value_loop m blocks evs s')"

definition initial_flow :: "nat \<Rightarrow> value_flow" where
  "initial_flow n =
    \<lparr>vf_in = replicate n [], vf_out = replicate n None, vf_available = (replicate n False)[0 := True],
     vf_queue = [0], vf_queued = (replicate n False)[0 := True]\<rparr>"

definition propagateValues :: "semantic \<Rightarrow> block list \<Rightarrow> value_event list list \<Rightarrow> value_flow option" where
  "propagateValues m blocks evs = value_loop m blocks evs (initial_flow (length blocks))"

text \<open>
  \<open>buildValueFlow\<close>: the states at the entry of each block and the events; an uncertain function has
  neither. \<open>None\<close> means that the propagation does not end.
\<close>

definition buildValueFlow ::
  "(node \<Rightarrow> call_effects option) option \<Rightarrow> flow_function \<Rightarrow> function_nodes \<Rightarrow> nat list \<Rightarrow>
    (value_state list \<times> value_event list list) option" where
  "buildValueFlow resolver f nodes symbols =
    (if bd_uncertain (cf_builder (ff_cfg f)) then Some ([], [])
     else
       (let evs = value_events resolver f nodes symbols in
        map_option (\<lambda>s. (vf_in s, evs))
          (propagateValues (ff_semantic f) (bd_blocks (cf_builder (ff_cfg f))) evs)))"

text \<open>
  \<open>BuildWithOptions\<close>: the graph of every active function, with its share of the assignments, updates
  and calls of the file and of the symbols. Values are computed when a function is first asked for
  them; since they depend on nothing that changes, the model computes them at every question.
\<close>

record function_flow =
  fl_function :: flow_function
  fl_nodes :: function_nodes
  fl_symbols :: "nat list"

definition nodes_of :: "index \<Rightarrow> node \<Rightarrow> kind \<Rightarrow> node list" where
  "nodes_of ix f k = filter (\<lambda>n. map_option n_id (EnclosingFunction ix n) = Some (n_id f)) (OfKind ix k)"

definition symbols_of :: "semantic \<Rightarrow> node \<Rightarrow> nat list" where
  "symbols_of m f =
    filter (\<lambda>i. map_option n_id (sy_function (sm_symbols m ! i)) = Some (n_id f)) [0..<length (sm_symbols m)]"

definition function_flow_of :: "semantic \<Rightarrow> node \<Rightarrow> function_flow" where
  "function_flow_of m f =
    (let ix = wm_index (sm_walk m) in
     \<lparr>fl_function = \<lparr>ff_node = f, ff_cfg = build_cfg \<lparr>fe_walk = sm_walk m, fe_eval = Eval m\<rparr> f, ff_semantic = m\<rparr>,
      fl_nodes = \<lparr>fn_assignments = nodes_of ix f KindAssignmentExpression,
        fn_updates = nodes_of ix f KindUpdateExpression, fn_calls = nodes_of ix f KindCallExpression\<rparr>,
      fl_symbols = symbols_of m f\<rparr>)"

definition BuildWithOptions :: "semantic \<Rightarrow> function_flow list" where
  "BuildWithOptions m =
    map (function_flow_of m)
      (filter (\<lambda>f. \<not> Inactive (sm_walk m) f) (OfKind (wm_index (sm_walk m)) KindFunctionDefinition))"

definition flow_Function :: "function_flow list \<Rightarrow> node \<Rightarrow> function_flow option" where
  "flow_Function fs f = List.find (\<lambda>x. n_id (ff_node (fl_function x)) = n_id f) fs"

text \<open>
  \<open>Model.Eval\<close>: constant evaluation first, then with the values known at the node. The outer option
  is \<open>None\<close> when the propagation of values does not end.
\<close>

definition value_at :: "flow_function \<Rightarrow> value_state list \<times> value_event list list \<Rightarrow> node \<Rightarrow> int option" where
  "value_at f flow n =
    (case flow_block f n of
      None \<Rightarrow> Eval (ff_semantic f) n
    | Some b \<Rightarrow>
        if bd_uncertain (cf_builder (ff_cfg f)) \<or> \<not> ReachableBlock (ff_cfg f) (Some b) then Eval (ff_semantic f) n
        else EvalWithValues (ff_semantic f) n
          (map_of (applyValueEvents (ff_semantic f) (n_start n) (snd flow ! b) (fst flow ! b))))"

definition evalUncached ::
  "(node \<Rightarrow> call_effects option) option \<Rightarrow> semantic \<Rightarrow> function_flow list \<Rightarrow> node \<Rightarrow> int option option" where
  "evalUncached resolver m fs n =
    (case Eval m n of
      Some v \<Rightarrow> Some (Some v)
    | None \<Rightarrow>
        (case Option.bind (EnclosingFunction (wm_index (sm_walk m)) n) (flow_Function fs) of
          None \<Rightarrow> Some (Eval m n)
        | Some x \<Rightarrow>
            (case buildValueFlow resolver (fl_function x) (fl_nodes x) (fl_symbols x) of
              None \<Rightarrow> None
            | Some flow \<Rightarrow> Some (value_at (fl_function x) flow n))))"

end
