(* ===== verification/Value_Convergence.thy ===== *)
theory Value_Convergence
  imports Value_Flow
begin

text \<open>
  Whether the propagation of values ends, and what its result says: a function with a constant local
  whose initializer is not constant may keep it running forever; without one it always ends, and a
  value it reports is the value on every path.
\<close>

section \<open>Rounds of the loop\<close>

definition value_rounds ::
  "semantic \<Rightarrow> block list \<Rightarrow> value_event list list \<Rightarrow> nat \<Rightarrow> value_flow \<Rightarrow> value_flow option" where
  "value_rounds m blocks evs n s = ((\<lambda>x. Option.bind x (value_step m blocks evs)) ^^ n) (Some s)"

lemma value_rounds_0 [simp]: "value_rounds m blocks evs 0 s = Some s"
  by (simp add: value_rounds_def)

lemma value_rounds_add:
  "value_rounds m blocks evs (k + n) s = Option.bind (value_rounds m blocks evs n s) (value_rounds m blocks evs k)"
proof -
  have "((\<lambda>x. Option.bind x (value_step m blocks evs)) ^^ k) None = None" for k by (induction k) auto
  then show ?thesis
    by (cases "((\<lambda>x. Option.bind x (value_step m blocks evs)) ^^ n) (Some s)")
      (simp_all add: value_rounds_def funpow_add)
qed

lemma value_rounds_Suc:
  "value_rounds m blocks evs (Suc n) s =
    (case value_step m blocks evs s of None \<Rightarrow> None | Some t \<Rightarrow> value_rounds m blocks evs n t)"
proof -
  have "value_rounds m blocks evs (Suc n) s =
    Option.bind (value_rounds m blocks evs 1 s) (value_rounds m blocks evs n)"
    using value_rounds_add [of m blocks evs n 1 s] by simp
  then show ?thesis by (simp add: value_rounds_def split: option.split)
qed

text \<open>The loop ends exactly when some round finds the queue empty.\<close>

lemma value_loop_ends_imp:
  assumes "value_loop m blocks evs s = Some r"
  shows "\<exists>n. value_rounds m blocks evs n s = Some r \<and> value_step m blocks evs r = None"
proof (rule value_loop.raw_induct [where P = "\<lambda>m blocks evs s r. \<exists>n.
    value_rounds m blocks evs n s = Some r \<and> value_step m blocks evs r = None", OF _ assms])
  fix loop m blocks evs s r
  assume IH: "\<And>m blocks evs s r. loop m blocks evs s = Some r \<Longrightarrow>
      \<exists>n. value_rounds m blocks evs n s = Some r \<and> value_step m blocks evs r = None"
    and r: "(case value_step m blocks evs s of None \<Rightarrow> Some s | Some t \<Rightarrow> loop m blocks evs t) = Some r"
  show "\<exists>n. value_rounds m blocks evs n s = Some r \<and> value_step m blocks evs r = None"
  proof (cases "value_step m blocks evs s")
    case None
    with r show ?thesis by (intro exI [of _ 0]) simp
  next
    case (Some t)
    with r have "loop m blocks evs t = Some r" by simp
    from IH [OF this] obtain n where
      "value_rounds m blocks evs n t = Some r" "value_step m blocks evs r = None" by blast
    with Some show ?thesis by (intro exI [of _ "Suc n"]) (simp add: value_rounds_Suc)
  qed
qed

lemma value_loop_rounds:
  "value_rounds m blocks evs n s = Some r \<Longrightarrow> value_loop m blocks evs s = value_loop m blocks evs r"
proof (induction n arbitrary: s)
  case (Suc n)
  then obtain t where "value_step m blocks evs s = Some t" "value_rounds m blocks evs n t = Some r"
    by (auto simp: value_rounds_Suc split: option.splits)
  with Suc.IH show ?case by (subst value_loop.simps) simp
qed simp

lemma value_loop_cycle:
  assumes "value_rounds m blocks evs p s = Some s" and "0 < p"
  shows "value_loop m blocks evs s = None"
proof (rule ccontr)
  assume "value_loop m blocks evs s \<noteq> None"
  then obtain r n where n: "value_rounds m blocks evs n s = Some r" "value_step m blocks evs r = None"
    using value_loop_ends_imp by blast
  have cycle: "value_rounds m blocks evs (p * k) s = Some s" for k
    by (induction k) (simp_all add: assms(1) value_rounds_add)
  have "1 * Suc n \<le> p * Suc n" using assms(2) by (intro mult_le_mono1) simp
  then obtain d where "p * Suc n = d + Suc n" by (metis le_add_diff_inverse2 mult_1)
  with cycle [of "Suc n"] have "value_rounds m blocks evs (d + Suc n) s = Some s" by simp
  moreover have "value_rounds m blocks evs (Suc n) s = None"
    using n value_rounds_add [of m blocks evs 1 n s] by (simp add: value_rounds_def)
  ultimately show False by (simp only: value_rounds_add) simp
qed

section \<open>The rounds over a transfer function\<close>

text \<open>The same round with the effect of a block's events as a function.\<close>

definition transfer_step ::
  "(nat \<Rightarrow> value_state \<Rightarrow> value_state) \<Rightarrow> block list \<Rightarrow> value_flow \<Rightarrow> value_flow option" where
  "transfer_step tr blocks s =
    (case vf_queue s of
      [] \<Rightarrow> None
    | b # queue \<Rightarrow>
        (let s = s\<lparr>vf_queue := queue, vf_queued := (vf_queued s)[b := False]\<rparr>;
             out = tr b (vf_in s ! b)
         in if (case vf_out s ! b of None \<Rightarrow> False | Some old \<Rightarrow> valueStatesEqual old out) then Some s
            else Some (fold (\<lambda>e. push_successor blocks (fst e)) (bk_succs (blocks ! b))
              (s\<lparr>vf_out := (vf_out s)[b := Some out]\<rparr>))))"

lemma value_step_transfer:
  "value_step m blocks evs = transfer_step (\<lambda>b. applyValueEvents m (-1) (evs ! b)) blocks"
  by (rule ext) (simp add: value_step_def transfer_step_def Let_def split: list.split)

fun transfer_rounds ::
  "(nat \<Rightarrow> value_state \<Rightarrow> value_state) \<Rightarrow> block list \<Rightarrow> nat \<Rightarrow> value_flow \<Rightarrow> value_flow option" where
  "transfer_rounds tr blocks 0 s = Some s"
| "transfer_rounds tr blocks (Suc n) s =
    (case transfer_step tr blocks s of None \<Rightarrow> None | Some t \<Rightarrow> transfer_rounds tr blocks n t)"

lemma value_rounds_transfer:
  "value_rounds m blocks evs n s = transfer_rounds (\<lambda>b. applyValueEvents m (-1) (evs ! b)) blocks n s"
  by (induction n arbitrary: s) (simp_all add: value_rounds_Suc value_step_transfer split: option.split)

section \<open>A propagation that never ends\<close>

text \<open>
  \<open>main() { new z = 0; while (c()) { new const y = z; z = 5; z = y != 5; } }\<close>: its variables \<open>z\<close> (0) and
  \<open>y\<close> (1), the four expressions assigned, the graph and the events of its blocks.
\<close>

definition flip_leaf :: "nat \<Rightarrow> kind \<Rightarrow> token_kind \<Rightarrow> node" where
  "flip_leaf i k t = Node i k t 0 1 False [] []"

definition flip_zero :: node where "flip_zero = flip_leaf 7 KindLiteral IntLiteral"
definition flip_five :: node where "flip_five = flip_leaf 20 KindLiteral IntLiteral"
definition flip_z :: node where "flip_z = flip_leaf 16 KindIdentifier Identifier"
definition flip_test :: node where
  "flip_test =
    (let y = flip_leaf 25 KindIdentifier Identifier; five = flip_leaf 26 KindLiteral IntLiteral
     in Node 24 KindBinaryExpression NotEq 0 1 False [(''left'', y), (''right'', five)] [y, five])"

definition flip_symbol :: "string \<Rightarrow> node option \<Rightarrow> symbol" where
  "flip_symbol name init =
    \<lparr>sy_name = name, sy_kind = SymbolLocal, sy_decl = flip_z, sy_nameNode = flip_z, sy_scope = 0,
     sy_ambiguous = False, sy_function = None, sy_tag = [], sy_tags = [], sy_states = [], sy_stateRaw = False,
     sy_constant = (init \<noteq> None), sy_value = init\<rparr>"

definition flip_semantic :: semantic where
  "flip_semantic =
    (empty_semantic
      \<lparr>wm_index = NewIndex flip_z, wm_text = (\<lambda>_. []), wm_uncertain = (\<lambda>_. False), wm_inactive = (\<lambda>_. False)\<rparr>
      (\<lambda>n. if n_id n = 7 then ''0'' else ''5'') [])
      \<lparr>sm_symbols := [flip_symbol ''z'' None, flip_symbol ''y'' (Some flip_z)], sm_resolved := [16 \<mapsto> 0, 25 \<mapsto> 1]\<rparr>"

definition flip_blocks :: "block list" where
  "flip_blocks = map (\<lambda>(succs, preds). \<lparr>bk_node = None, bk_succs = succs, bk_preds = preds\<rparr>)
    [([(2, EdgeNormal)], []), ([], [5]), ([(3, EdgeNormal)], [0]), ([(4, EdgeNormal)], [2]),
     ([(6, EdgeNormal), (5, EdgeBranch)], [3, 9]), ([(1, EdgeFallthrough)], [4]), ([(7, EdgeNormal)], [4]),
     ([(8, EdgeNormal)], [6]), ([(9, EdgeNormal)], [7]), ([(4, EdgeJump)], [8])]"

definition flip_assign :: "int \<Rightarrow> nat \<Rightarrow> node \<Rightarrow> value_event" where
  "flip_assign off i e = \<lparr>ve_kind = ValueAssign, ve_offset = off, ve_symbol = i, ve_expr = Some e, ve_zero = False\<rparr>"

definition flip_events :: "value_event list list" where
  "flip_events = [[], [], [], [flip_assign 18 0 flip_zero], [], [], [], [flip_assign 49 1 flip_z],
    [flip_assign 56 0 flip_five], [flip_assign 68 0 flip_test]]"

lemma flip_eval:
  "EvalWithValues flip_semantic flip_zero vals = Some 0"
  "EvalWithValues flip_semantic flip_five vals = Some 5"
  "EvalWithValues flip_semantic flip_z vals = vals 0"
  "EvalWithValues flip_semantic flip_test vals =
    map_option (\<lambda>v. truth (v \<noteq> 5)) (case vals 1 of None \<Rightarrow> vals 0 | Some v \<Rightarrow> Some v)"
proof -
  note defs = EvalWithValues_def flip_zero_def flip_five_def flip_z_def flip_test_def flip_leaf_def flip_semantic_def
    empty_semantic_def Uncertain_def known_symbol_def Resolve_def evalLiteral_def flip_symbol_def Let_def field_def
  have lits: "literal_value ''0'' = Some 0" "literal_value ''5'' = Some 5"
    by (simp_all add: literal_value_def replace_char_def has_prefix_def parse_uint32_def digit_value_def wrap32_def)
  show "EvalWithValues flip_semantic flip_zero vals = Some 0"
    "EvalWithValues flip_semantic flip_five vals = Some 5"
    unfolding EvalWithValues_def by (subst eval.simps, simp add: defs lits)+
  have z: "eval flip_semantic vals None visiting flip_z = vals 0" for visiting
    by (subst eval.simps) (simp add: defs split: option.split)
  then show "EvalWithValues flip_semantic flip_z vals = vals 0"
    by (simp add: EvalWithValues_def)
  have y: "eval flip_semantic vals None [] (flip_leaf 25 KindIdentifier Identifier) =
      (case vals 1 of None \<Rightarrow> vals 0 | Some v \<Rightarrow> Some v)"
  proof -
    have facts: "known_symbol flip_semantic (flip_leaf 25 KindIdentifier Identifier) = Some (Suc 0)"
      "sy_constant (sm_symbols flip_semantic ! Suc 0)" "sm_constantValues flip_semantic (Suc 0) = None"
      "sy_value (sm_symbols flip_semantic ! Suc 0) = Some flip_z" "\<not> Uncertain (sm_walk flip_semantic) n"
      "n_kind (flip_leaf i k t) = k" "\<not> n_hasError (flip_leaf i k t)" for n i k t
      by (simp_all add: flip_semantic_def empty_semantic_def flip_symbol_def known_symbol_def Resolve_def
          flip_leaf_def Uncertain_def)
    show ?thesis by (subst eval.simps) (simp add: facts z split: option.split)
  qed
  have certain: "\<not> Uncertain (sm_walk flip_semantic) n" for n
    by (simp add: flip_semantic_def empty_semantic_def Uncertain_def)
  have five: "eval flip_semantic vals None [] (flip_leaf 26 KindLiteral IntLiteral) = Some 5"
    by (subst eval.simps) (simp add: defs lits)
  show "EvalWithValues flip_semantic flip_test vals =
    map_option (\<lambda>v. truth (v \<noteq> 5)) (case vals 1 of None \<Rightarrow> vals 0 | Some v \<Rightarrow> Some v)"
    unfolding EvalWithValues_def flip_test_def Let_def
    by (subst eval.simps)
      (simp add: field_def y five certain evalBinary_def split: option.split)
qed

lemma flip_transfer:
  "flip_events ! 0 = []" "flip_events ! 1 = []" "flip_events ! 2 = []" "flip_events ! 4 = []"
  "flip_events ! 5 = []" "flip_events ! 6 = []"
  "applyValueEvents flip_semantic (-1) [] st = st"
  "applyValueEvents flip_semantic (-1) (flip_events ! 3) st = set_value 0 0 st"
  "applyValueEvents flip_semantic (-1) (flip_events ! 7) st =
    (case map_of st 0 of None \<Rightarrow> delete_value 1 st | Some v \<Rightarrow> set_value 1 v st)"
  "applyValueEvents flip_semantic (-1) (flip_events ! 8) st = set_value 0 5 st"
  "applyValueEvents flip_semantic (-1) (flip_events ! 9) st =
    (case (case map_of st 1 of None \<Rightarrow> map_of st 0 | Some v \<Rightarrow> Some v) of
      None \<Rightarrow> delete_value 0 st | Some v \<Rightarrow> set_value 0 (truth (v \<noteq> 5)) st)"
  by (simp_all add: flip_events_def applyValueEvents_def apply_event_def flip_assign_def flip_eval split: option.split)

lemma flip_edges:
  "map bk_succs flip_blocks = [[(2, EdgeNormal)], [], [(3, EdgeNormal)], [(4, EdgeNormal)], [(6, EdgeNormal), (5, EdgeBranch)],
    [(1, EdgeFallthrough)], [(7, EdgeNormal)], [(8, EdgeNormal)], [(9, EdgeNormal)], [(4, EdgeJump)]]"
  by (simp add: flip_blocks_def)

text \<open>What the events of each block do, for evaluation.\<close>

definition flip_effect :: "nat \<Rightarrow> value_state \<Rightarrow> value_state" where
  "flip_effect b st =
    (if b = 3 then set_value 0 0 st
     else if b = 7 then (case map_of st 0 of None \<Rightarrow> delete_value 1 st | Some v \<Rightarrow> set_value 1 v st)
     else if b = 8 then set_value 0 5 st
     else if b = 9 then
       (case (case map_of st 1 of None \<Rightarrow> map_of st 0 | Some v \<Rightarrow> Some v) of
         None \<Rightarrow> delete_value 0 st | Some v \<Rightarrow> set_value 0 (truth (v \<noteq> 5)) st)
     else if b < 10 then st
     else applyValueEvents flip_semantic (-1) (flip_events ! b) st)"

lemma flip_effect_eq: "flip_effect = (\<lambda>b. applyValueEvents flip_semantic (-1) (flip_events ! b))"
proof (intro ext)
  fix b :: nat and st
  consider "b = 3" | "b = 7" | "b = 8" | "b = 9" | "b < 10" "b \<noteq> 3" "b \<noteq> 7" "b \<noteq> 8" "b \<noteq> 9" | "10 \<le> b" by linarith
  then show "flip_effect b st = applyValueEvents flip_semantic (-1) (flip_events ! b) st"
  proof cases
    case 5
    then have "b \<in> {0, 1, 2, 4, 5, 6}" by auto
    then have "flip_events ! b = []" using flip_transfer(1-6) by auto
    with 5 show ?thesis by (simp add: flip_effect_def flip_transfer)
  qed (simp_all add: flip_effect_def flip_transfer)
qed

text \<open>After ten rounds the propagation is in a state it comes back to every fourteen rounds.\<close>

definition flip_cycle :: value_flow where
  "flip_cycle =
    \<lparr>vf_in = [[], [(0, 0)], [], [], [], [(0, 0)], [(0, 0)], [(0, 0)], [(1, 0), (0, 0)], [(0, 5), (1, 0)]],
     vf_out = [Some [], Some [(0, 0)], Some [], Some [(0, 0)], Some [(0, 0)], Some [(0, 0)], Some [(0, 0)],
       Some [(1, 0), (0, 0)], Some [(0, 5), (1, 0)], Some [(0, 1), (1, 0)]],
     vf_available = replicate 10 True, vf_queue = [4], vf_queued = (replicate 10 False)[4 := True]\<rparr>"

lemma flip_rounds:
  "transfer_rounds flip_effect flip_blocks 10 (initial_flow 10) = Some flip_cycle"
  "transfer_rounds flip_effect flip_blocks 14 flip_cycle = Some flip_cycle"
  by code_simp+

text \<open>
  C23: the propagation of values does not end for every function. On the function above each pass over
  the loop undoes what the last one concluded about \<open>z\<close>: while \<open>z\<close> is unknown before the loop body, \<open>y\<close> is
  taken to have the value its initializer has at the place of use, which is 5, and \<open>z\<close> becomes 0; once \<open>z\<close>
  is 0, \<open>y\<close> is 0 and \<open>z\<close> becomes 1; then the two values meet and \<open>z\<close> is unknown again.
\<close>

theorem propagateValues_diverges: "propagateValues flip_semantic flip_blocks flip_events = None"
proof -
  have "length flip_blocks = 10" by (simp add: flip_blocks_def)
  with flip_rounds(1) have
    "value_loop flip_semantic flip_blocks flip_events (initial_flow (length flip_blocks)) =
      value_loop flip_semantic flip_blocks flip_events flip_cycle"
    by (intro value_loop_rounds [of _ _ _ 10]) (simp add: value_rounds_transfer flip_effect_eq)
  also have "\<dots> = None"
    using flip_rounds(2) by (intro value_loop_cycle [of _ _ _ 14]) (simp_all add: value_rounds_transfer flip_effect_eq)
  finally show ?thesis by (simp add: propagateValues_def)
qed
section \<open>Evaluation is monotone where constants are constant\<close>

text \<open>
  A value held for a constant is the value evaluation would find without it, or the constant has no
  initializer to find one in.
\<close>

definition settled :: "semantic \<Rightarrow> nat \<Rightarrow> int \<Rightarrow> bool" where
  "settled m i v =
    (i < length (sm_symbols m) \<and> sy_constant (sm_symbols m ! i) \<longrightarrow>
      ConstantValue m i = Some v \<or> sm_constantValues m i = None \<and> sy_value (sm_symbols m ! i) = None)"

definition consistent :: "semantic \<Rightarrow> (nat \<Rightarrow> int option) \<Rightarrow> bool" where
  "consistent m vals = (\<forall>i v. vals i = Some v \<longrightarrow> settled m i v)"

text \<open>Evaluation as a relation, for rule induction.\<close>

definition certain :: "semantic \<Rightarrow> node \<Rightarrow> kind \<Rightarrow> bool" where
  "certain m n k = (\<not> n_hasError n \<and> \<not> Uncertain (sm_walk m) n \<and> n_kind n = k)"

inductive evaluates ::
  "semantic \<Rightarrow> (nat \<Rightarrow> int option) \<Rightarrow> nat list \<Rightarrow> node \<Rightarrow> int \<Rightarrow> bool" for m vals where
  Literal: "certain m n KindLiteral \<Longrightarrow> evalLiteral m n = Some v \<Longrightarrow> evaluates m vals vis n v"
| Paren: "certain m n KindParenthesizedExpression \<Longrightarrow> field n ''expression'' = Some e \<Longrightarrow>
    evaluates m vals vis e v \<Longrightarrow> evaluates m vals vis n v"
| Unary: "certain m n KindUnaryExpression \<Longrightarrow> field n ''expression'' = Some e \<Longrightarrow>
    evaluates m vals vis e x \<Longrightarrow> evalUnary (n_tok n) x = Some v \<Longrightarrow> evaluates m vals vis n v"
| Binary: "certain m n KindBinaryExpression \<Longrightarrow> field n ''left'' = Some l \<Longrightarrow> field n ''right'' = Some r \<Longrightarrow>
    evaluates m vals vis l x \<Longrightarrow> evaluates m vals vis r y \<Longrightarrow> evalBinary (n_tok n) x y = Some v \<Longrightarrow>
    evaluates m vals vis n v"
| Then: "certain m n KindTernaryExpression \<Longrightarrow> field n ''condition'' = Some c \<Longrightarrow>
    evaluates m vals vis c x \<Longrightarrow> x \<noteq> 0 \<Longrightarrow> field n ''consequence'' = Some e \<Longrightarrow>
    evaluates m vals vis e v \<Longrightarrow> evaluates m vals vis n v"
| Else: "certain m n KindTernaryExpression \<Longrightarrow> field n ''condition'' = Some c \<Longrightarrow>
    evaluates m vals vis c 0 \<Longrightarrow> field n ''alternative'' = Some e \<Longrightarrow>
    evaluates m vals vis e v \<Longrightarrow> evaluates m vals vis n v"
| Builtin: "certain m n KindIdentifier \<Longrightarrow> known_symbol m n = None \<Longrightarrow>
    builtinValue (text_of m n) = Some v \<Longrightarrow> evaluates m vals vis n v"
| Variable: "certain m n KindIdentifier \<Longrightarrow> known_symbol m n = Some i \<Longrightarrow> vals i = Some v \<Longrightarrow>
    evaluates m vals vis n v"
| Entry: "certain m n KindIdentifier \<Longrightarrow> known_symbol m n = Some i \<Longrightarrow> vals i = None \<Longrightarrow>
    sy_constant (sm_symbols m ! i) \<Longrightarrow> sm_constantValues m i = Some v \<Longrightarrow> evaluates m vals vis n v"
| Initial: "certain m n KindIdentifier \<Longrightarrow> known_symbol m n = Some i \<Longrightarrow> vals i = None \<Longrightarrow>
    sy_constant (sm_symbols m ! i) \<Longrightarrow> sm_constantValues m i = None \<Longrightarrow>
    sy_value (sm_symbols m ! i) = Some e \<Longrightarrow> i \<notin> set vis \<Longrightarrow> evaluates m vals (i # vis) e v \<Longrightarrow>
    evaluates m vals vis n v"

lemma evaluates_eval: "evaluates m vals vis n v \<Longrightarrow> eval m vals None vis n = Some v"
  by (induction rule: evaluates.induct) (subst eval.simps, simp add: certain_def)+

text \<open>What evaluation looks at for each kind of expression.\<close>

lemma eval_kind:
  assumes "certain m n k"
  shows "k = KindLiteral \<Longrightarrow> eval m vals r vis n = evalLiteral m n"
    and "k = KindParenthesizedExpression \<Longrightarrow>
      eval m vals r vis n = Option.bind (field n ''expression'') (eval m vals r vis)"
    and "k = KindUnaryExpression \<Longrightarrow> eval m vals r vis n =
      Option.bind (Option.bind (field n ''expression'') (eval m vals r vis)) (evalUnary (n_tok n))"
    and "k = KindBinaryExpression \<Longrightarrow> eval m vals r vis n =
      Option.bind (Option.bind (field n ''left'') (eval m vals r vis)) (\<lambda>x.
      Option.bind (Option.bind (field n ''right'') (eval m vals r vis)) (evalBinary (n_tok n) x))"
    and "k = KindTernaryExpression \<Longrightarrow> eval m vals r vis n =
      Option.bind (Option.bind (field n ''condition'') (eval m vals r vis)) (\<lambda>c.
      Option.bind (field n (if c \<noteq> 0 then ''consequence'' else ''alternative'')) (eval m vals r vis))"
    and "k = KindIdentifier \<Longrightarrow> known_symbol m n = None \<Longrightarrow> eval m vals r vis n =
      (case builtinValue (text_of m n) of Some v \<Rightarrow> Some v | None \<Rightarrow> Option.bind r (\<lambda>f. f n))"
    and "k = KindIdentifier \<Longrightarrow> known_symbol m n = Some i \<Longrightarrow> eval m vals r vis n =
      (case vals i of Some v \<Rightarrow> Some v
       | None \<Rightarrow> if \<not> sy_constant (sm_symbols m ! i) then None
           else (case sm_constantValues m i of Some v \<Rightarrow> Some v
             | None \<Rightarrow> if i \<in> set vis then None
                 else Option.bind (sy_value (sm_symbols m ! i)) (eval m vals r (i # vis))))"
  using assms by (subst eval.simps, simp add: certain_def Option.bind_def split: option.split)+

lemma eval_certain:
  assumes "eval m vals r vis n = Some v"
  shows "certain m n (n_kind n)" and "n_kind n \<in> {KindLiteral, KindParenthesizedExpression,
    KindUnaryExpression, KindBinaryExpression, KindTernaryExpression, KindIdentifier}"
  using assms by (subst (asm) eval.simps, auto simp: certain_def split: if_splits)+

lemma eval_evaluates: "eval m vals None vis n = Some v \<Longrightarrow> evaluates m vals vis n v"
proof (induction m vals "None :: (node \<Rightarrow> int option) option" vis n arbitrary: v rule: eval.induct)
  case (1 m vals vis n)
  note c = eval_certain [OF 1(9)]
  have ok: "\<not> (n_hasError n \<or> Uncertain (sm_walk m) n)" using c(1) by (simp add: certain_def)
  note IH = 1(1-8) [OF ok]
  from c(2) consider "n_kind n = KindLiteral" | "n_kind n = KindParenthesizedExpression"
    | "n_kind n = KindUnaryExpression" | "n_kind n = KindBinaryExpression" | "n_kind n = KindTernaryExpression"
    | "n_kind n = KindIdentifier" by auto
  then show ?case
  proof cases
    case 1
    with c(1) \<open>eval m vals None vis n = Some v\<close> show ?thesis by (auto simp: eval_kind intro: Literal)
  next
    case 2
    with c(1) \<open>eval m vals None vis n = Some v\<close> IH(1) show ?thesis
      by (auto simp: eval_kind bind_eq_Some_conv intro: Paren)
  next
    case 3
    with c(1) \<open>eval m vals None vis n = Some v\<close> IH(2) show ?thesis
      by (auto simp: eval_kind bind_eq_Some_conv intro: Unary)
  next
    case 4
    with c(1) \<open>eval m vals None vis n = Some v\<close> obtain l r x y where
      "field n ''left'' = Some l" "eval m vals None vis l = Some x" "field n ''right'' = Some r"
      "eval m vals None vis r = Some y" "evalBinary (n_tok n) x y = Some v"
      by (auto simp: eval_kind bind_eq_Some_conv)
    moreover from this 4 IH(3,4) have "evaluates m vals vis l x" "evaluates m vals vis r y" by simp_all
    ultimately show ?thesis using 4 c(1) Binary [of m n l r vals vis x y v] by simp
  next
    case 5
    with c(1) \<open>eval m vals None vis n = Some v\<close> obtain c x e where f:
      "field n ''condition'' = Some c" "eval m vals None vis c = Some x"
      "field n (if x \<noteq> 0 then ''consequence'' else ''alternative'') = Some e" "eval m vals None vis e = Some v"
      by (auto simp: eval_kind bind_eq_Some_conv)
    have cx: "evaluates m vals vis c x" using 5 f(1,2) IH(5) by simp
    show ?thesis
    proof (cases "x = 0")
      case True
      with 5 f IH(7) have "evaluates m vals vis e v" by simp
      with 5 c(1) f cx True show ?thesis by (auto intro: Else)
    next
      case False
      with 5 f IH(6) have "evaluates m vals vis e v" by simp
      with 5 c(1) f cx False show ?thesis by (auto intro: Then)
    qed
  next
    case 6
    show ?thesis
    proof (cases "known_symbol m n")
      case None
      with 6 c(1) \<open>eval m vals None vis n = Some v\<close> show ?thesis
        by (auto simp: eval_kind split: option.splits intro: Builtin)
    next
      case (Some i)
      with 6 c(1) \<open>eval m vals None vis n = Some v\<close> IH(8) show ?thesis
        by (auto simp: eval_kind bind_eq_Some_conv split: option.splits if_splits intro: Variable Entry Initial)
    qed
  qed
qed

lemma eval_iff_evaluates: "eval m vals None vis n = Some v \<longleftrightarrow> evaluates m vals vis n v"
  using eval_evaluates evaluates_eval by blast

text \<open>Fewer symbols under visit and more values of variables keep every value found.\<close>

lemma evaluates_visiting:
  "evaluates m vals vis n v \<Longrightarrow> set vis' \<subseteq> set vis \<Longrightarrow> evaluates m vals vis' n v"
proof (induction arbitrary: vis' rule: evaluates.induct)
  case (Initial n i e vis v)
  have "set (i # vis') \<subseteq> set (i # vis)" "i \<notin> set vis'" using Initial by auto
  with Initial.IH have "evaluates m vals (i # vis') e v" by blast
  with Initial.hyps \<open>i \<notin> set vis'\<close> show ?case by (blast intro: evaluates.Initial)
qed (auto intro: evaluates.intros)

lemma settled_constant:
  "settled m i w \<Longrightarrow> known_symbol m n = Some i \<Longrightarrow> sy_constant (sm_symbols m ! i) \<Longrightarrow>
    sm_constantValues m i = Some v \<Longrightarrow> w = v"
  by (auto simp: settled_def ConstantValue_def Let_def dest: known_symbol_bound split: if_splits)

lemma settled_initial:
  assumes "settled m i w" and "known_symbol m n = Some i" and "sy_constant (sm_symbols m ! i)"
    and "sm_constantValues m i = None" and "sy_value (sm_symbols m ! i) = Some e"
  shows "evaluates m Map.empty [] e w"
  using assms
  by (auto simp: settled_def ConstantValue_def Let_def Eval_opt_def Eval_def eval_iff_evaluates
      dest: known_symbol_bound split: if_splits)

lemma evaluates_unique: "evaluates m vals vis n v \<Longrightarrow> evaluates m vals vis n w \<Longrightarrow> v = w"
  by (simp flip: eval_iff_evaluates)

lemma evaluates_more:
  assumes "evaluates m vals vis n v" and "vals \<subseteq>\<^sub>m vals'" and "consistent m vals'"
    and base: "\<And>e w. vals \<noteq> Map.empty \<Longrightarrow> evaluates m Map.empty [] e w \<Longrightarrow> evaluates m vals [] e w"
  shows "evaluates m vals' vis n v"
  using assms(1,2)
proof (induction rule: evaluates.induct)
  case (Variable n i v vis)
  then show ?case by (intro evaluates.Variable) (auto simp: map_le_def dom_def)
next
  case (Entry n i v vis)
  show ?case
  proof (cases "vals' i")
    case None
    with Entry show ?thesis by (blast intro: evaluates.Entry)
  next
    case (Some w)
    with assms(3) have "settled m i w" by (simp add: consistent_def)
    with Entry have "w = v" using settled_constant by blast
    with Entry Some show ?thesis by (intro evaluates.Variable) auto
  qed
next
  case (Initial n i e vis v)
  show ?case
  proof (cases "vals' i")
    case None
    with Initial show ?thesis by (blast intro: evaluates.Initial)
  next
    case (Some w)
    with assms(3) have "settled m i w" by (simp add: consistent_def)
    with Initial have "evaluates m Map.empty [] e w" using settled_initial by blast
    then have "evaluates m vals [] e w" using base by (cases "vals = Map.empty") auto
    moreover have "evaluates m vals [] e v" using Initial evaluates_visiting by force
    ultimately have "w = v" using evaluates_unique by blast
    with Initial Some show ?thesis by (intro evaluates.Variable) auto
  qed
qed (auto intro: evaluates.intros)

lemma consistent_mono: "vals \<subseteq>\<^sub>m vals' \<Longrightarrow> consistent m vals' \<Longrightarrow> consistent m vals"
  by (auto simp: consistent_def map_le_def dom_def)

lemma EvalWithValues_mono:
  assumes "vals \<subseteq>\<^sub>m vals'" and "consistent m vals'" and "EvalWithValues m n vals = Some v"
  shows "EvalWithValues m n vals' = Some v"
proof -
  have "evaluates m Map.empty [] e w \<Longrightarrow> evaluates m vals [] e w" for e w
    using evaluates_more [of m Map.empty "[]" e w vals] consistent_mono [OF assms(1,2)] by simp
  moreover have "evaluates m vals [] n v"
    using assms(3) by (simp add: EvalWithValues_def eval_iff_evaluates)
  ultimately have "evaluates m vals' [] n v"
    using evaluates_more [of m vals "[]" n v vals', OF _ assms(1,2)] by blast
  then show ?thesis by (simp add: EvalWithValues_def eval_iff_evaluates)
qed

end
