(* ===== verification/Value_Paths.thy ===== *)
theory Value_Paths
  imports Value_Convergence Flow_Graph
begin

text \<open>
  The propagation of values as a fixpoint computation: with a monotone effect of every block it ends,
  and the values at a block hold on every path to it.
\<close>

section \<open>States as maps\<close>

definition below :: "value_state \<Rightarrow> value_state \<Rightarrow> bool" where
  "below l r = (map_of l \<subseteq>\<^sub>m map_of r)"

definition proper :: "value_state \<Rightarrow> bool" where
  "proper st = distinct (map fst st)"

lemma below_refl [simp]: "below st st"
  by (simp add: below_def)

lemma below_trans: "below a b \<Longrightarrow> below b c \<Longrightarrow> below a c"
  unfolding below_def by (rule map_le_trans)

lemma below_iff: "below l r \<longleftrightarrow> (\<forall>i v. map_of l i = Some v \<longrightarrow> map_of r i = Some v)"
  by (auto simp: below_def map_le_def dom_def)

lemma below_Nil [simp]: "below [] st"
  by (simp add: below_iff)

lemma proper_filter: "proper st \<Longrightarrow> proper (filter f st)"
  by (simp add: proper_def distinct_map_filter)

lemma map_of_filter:
  "proper st \<Longrightarrow> map_of (filter f st) i = Some v \<longleftrightarrow> map_of st i = Some v \<and> f (i, v)"
  using proper_filter [of st f] by (auto simp: proper_def map_of_eq_Some_iff)

lemma below_filter: "proper st \<Longrightarrow> below (filter f st) st"
  by (simp add: below_iff map_of_filter)

lemma valueStatesEqual_iff:
  assumes "proper l" and "proper r"
  shows "valueStatesEqual l r \<longleftrightarrow> below l r \<and> length l = length r"
proof -
  have "(\<forall>(i, v)\<in>set l. map_of r i = Some v) \<longleftrightarrow> below l r"
    using assms by (auto simp: below_iff proper_def)
  then show ?thesis by (auto simp: valueStatesEqual_def)
qed

lemma card_proper: "proper st \<Longrightarrow> card (dom (map_of st)) = length st"
  using distinct_card [of "map fst st"] by (simp add: proper_def dom_map_of_conv_image_fst)

lemma below_length: "proper l \<Longrightarrow> proper r \<Longrightarrow> below l r \<Longrightarrow> length l \<le> length r"
  using card_mono [of "dom (map_of r)" "dom (map_of l)"]
  by (auto simp: below_def card_proper finite_dom_map_of dest: map_le_implies_dom_le)

lemma below_equal_length:
  assumes "proper l" "proper r" "below l r" "length l = length r"
  shows "map_of l = map_of r"
proof -
  have "dom (map_of l) = dom (map_of r)"
    using assms by (intro card_subset_eq) (auto simp: card_proper finite_dom_map_of below_def dest: map_le_implies_dom_le)
  with assms(3) have "map_of r \<subseteq>\<^sub>m map_of l" by (simp add: below_def map_le_def)
  with assms(3) show ?thesis by (simp add: below_def map_le_antisym)
qed

section \<open>The join of the predecessors\<close>

definition contributes :: "value_flow \<Rightarrow> nat \<Rightarrow> value_state \<Rightarrow> bool" where
  "contributes s p out = (vf_available s ! p \<and> vf_out s ! p = Some out)"

lemma join_loop_Some:
  assumes "\<forall>p\<in>set ps. \<forall>out. contributes s p out \<longrightarrow> proper out" and "proper r"
  shows "\<exists>j. join_loop s ps (Some r) = Some j \<and> proper j \<and>
    (\<exists>f. j = filter f r) \<and>
    (\<forall>i v. map_of j i = Some v \<longleftrightarrow>
      map_of r i = Some v \<and> (\<forall>p\<in>set ps. \<forall>out. contributes s p out \<longrightarrow> map_of out i = Some v))"
  using assms
proof (induction ps arbitrary: r)
  case Nil
  then show ?case by (auto intro: exI [of _ "\<lambda>_. True"])
next
  case (Cons p ps)
  show ?case
  proof (cases "\<exists>out. contributes s p out")
    case False
    with Cons.IH [of r] Cons.prems show ?thesis
      by (cases "vf_out s ! p") (auto simp: contributes_def)
  next
    case True
    then obtain out where out: "contributes s p out" ..
    let ?r = "filter (\<lambda>(i, v). map_of out i = Some v) r"
    have "proper ?r" by (intro proper_filter Cons.prems)
    with Cons.IH [of ?r] Cons.prems(1) obtain j f where j:
      "join_loop s ps (Some ?r) = Some j" "proper j" "j = filter f ?r"
      "\<And>i v. map_of j i = Some v \<longleftrightarrow>
        map_of ?r i = Some v \<and> (\<forall>p\<in>set ps. \<forall>out. contributes s p out \<longrightarrow> map_of out i = Some v)"
      by auto
    have "join_loop s (p # ps) (Some r) = Some j"
      using out j(1) by (simp add: contributes_def)
    moreover have "j = filter (\<lambda>x. f x \<and> (case x of (i, v) \<Rightarrow> map_of out i = Some v)) r"
      unfolding j(3) by (simp add: conj_commute)
    ultimately show ?thesis
      using j(2,4) out Cons.prems(2) by (intro exI [of _ j]) (auto simp: map_of_filter contributes_def)
  qed
qed

lemma join_loop_None:
  assumes "\<forall>p\<in>set ps. \<forall>out. contributes s p out \<longrightarrow> proper out"
  shows "case join_loop s ps None of
      None \<Rightarrow> \<forall>p\<in>set ps. \<forall>out. \<not> contributes s p out
    | Some j \<Rightarrow> proper j \<and> (\<exists>p\<in>set ps. \<exists>out f. contributes s p out \<and> j = filter f out) \<and>
        (\<forall>i v. map_of j i = Some v \<longleftrightarrow> (\<forall>p\<in>set ps. \<forall>out. contributes s p out \<longrightarrow> map_of out i = Some v))"
  using assms
proof (induction ps)
  case (Cons p ps)
  show ?case
  proof (cases "\<exists>out. contributes s p out")
    case False
    then have "join_loop s (p # ps) None = join_loop s ps None"
      by (cases "vf_out s ! p") (auto simp: contributes_def)
    with Cons False show ?thesis by (auto split: option.splits)
  next
    case True
    then obtain out where out: "contributes s p out" ..
    then have "join_loop s (p # ps) None = join_loop s ps (Some out)"
      by (simp add: contributes_def)
    moreover have "proper out" using out Cons.prems by auto
    with join_loop_Some [of ps s out] Cons.prems obtain j f where
      "join_loop s ps (Some out) = Some j" "proper j" "j = filter f out"
      "\<forall>i v. map_of j i = Some v \<longleftrightarrow>
        map_of out i = Some v \<and> (\<forall>p\<in>set ps. \<forall>out. contributes s p out \<longrightarrow> map_of out i = Some v)"
      by auto
    ultimately show ?thesis using out by (auto simp: contributes_def)
  qed
qed simp

section \<open>The invariant of the loop\<close>

text \<open>
  The graph: edges stay inside, every edge is known to its target, and nothing leads back to the entry.
  The effects of the blocks: monotone on a set \<open>P\<close> of states of bounded size.
\<close>

definition graph_shape :: "block list \<Rightarrow> bool" where
  "graph_shape blocks =
    (blocks \<noteq> [] \<and> bk_preds (blocks ! 0) = [] \<and>
     (\<forall>b<length blocks. (\<forall>(c, k)\<in>set (bk_succs (blocks ! b)). c < length blocks \<and> b \<in> set (bk_preds (blocks ! c))) \<and>
       (\<forall>p\<in>set (bk_preds (blocks ! b)). p < length blocks)))"

definition effects_ok :: "nat \<Rightarrow> (value_state \<Rightarrow> bool) \<Rightarrow> nat \<Rightarrow> (nat \<Rightarrow> value_state \<Rightarrow> value_state) \<Rightarrow> bool" where
  "effects_ok n P K tr =
    ((\<forall>st. P st \<longrightarrow> proper st \<and> length st \<le> K) \<and> P [] \<and> (\<forall>st f. P st \<longrightarrow> P (filter f st)) \<and>
     (\<forall>b<n. \<forall>st. P st \<longrightarrow> P (tr b st)) \<and>
     (\<forall>b<n. \<forall>l r. P l \<longrightarrow> P r \<longrightarrow> below l r \<longrightarrow> below (tr b l) (tr b r)))"

definition shape_ok :: "nat \<Rightarrow> value_flow \<Rightarrow> bool" where
  "shape_ok n s =
    (length (vf_in s) = n \<and> length (vf_out s) = n \<and> length (vf_available s) = n \<and> length (vf_queued s) = n \<and>
     (\<forall>b\<in>set (vf_queue s). b < n \<and> vf_available s ! b) \<and>
     (\<forall>b<n. vf_queued s ! b \<longrightarrow> b \<in> set (vf_queue s)) \<and> vf_in s ! 0 = [] \<and> vf_available s ! 0)"

definition in_ok :: "block list \<Rightarrow> value_flow \<Rightarrow> nat \<Rightarrow> bool" where
  "in_ok blocks s c =
    (c \<noteq> 0 \<longrightarrow> vf_available s ! c \<longrightarrow>
      (\<exists>j. joinedPredecessorValues blocks s c = Some j \<and> below j (vf_in s ! c)))"

definition out_ok ::
  "(value_state \<Rightarrow> bool) \<Rightarrow> (nat \<Rightarrow> value_state \<Rightarrow> value_state) \<Rightarrow> value_flow \<Rightarrow> nat \<Rightarrow> bool" where
  "out_ok P tr s b =
    (P (vf_in s ! b) \<and>
     (\<forall>out. vf_out s ! b = Some out \<longrightarrow>
       P out \<and> vf_available s ! b \<and> (\<exists>st. P st \<and> out = tr b st \<and> below (vf_in s ! b) st)) \<and>
     (vf_available s ! b \<longrightarrow> b \<notin> set (vf_queue s) \<longrightarrow>
       (\<exists>out. vf_out s ! b = Some out \<and> map_of out = map_of (tr b (vf_in s ! b)))))"

definition flow_ok ::
  "(value_state \<Rightarrow> bool) \<Rightarrow> (nat \<Rightarrow> value_state \<Rightarrow> value_state) \<Rightarrow> block list \<Rightarrow> value_flow \<Rightarrow> bool" where
  "flow_ok P tr blocks s =
    (shape_ok (length blocks) s \<and> (\<forall>b<length blocks. in_ok blocks s b \<and> out_ok P tr s b))"

definition edge_ok :: "value_flow \<Rightarrow> nat \<Rightarrow> nat \<Rightarrow> bool" where
  "edge_ok s b c = (\<forall>out. vf_out s ! b = Some out \<longrightarrow> vf_available s ! c \<and> below (vf_in s ! c) out)"

text \<open>What is left to do: the values that can still be lost, then the blocks that wait.\<close>

definition weight :: "nat \<Rightarrow> value_flow \<Rightarrow> nat" where
  "weight K s = (\<Sum>b<length (vf_in s). if vf_available s ! b then length (vf_in s ! b) else Suc K)"

lemma joined_spec:
  assumes "\<forall>b<length blocks. out_ok P tr s b" and "effects_ok (length blocks) P K tr" and "graph_shape blocks"
    and "c < length blocks"
  shows "case joinedPredecessorValues blocks s c of
      None \<Rightarrow> \<forall>p\<in>set (bk_preds (blocks ! c)). vf_out s ! p = None
    | Some j \<Rightarrow> P j \<and>
        (\<forall>i v. map_of j i = Some v \<longleftrightarrow>
          (\<forall>p\<in>set (bk_preds (blocks ! c)). \<forall>out. vf_out s ! p = Some out \<longrightarrow> map_of out i = Some v))"
proof -
  have c: "contributes s p out \<longleftrightarrow> vf_out s ! p = Some out" and out: "vf_out s ! p = Some out \<Longrightarrow> P out"
    if "p \<in> set (bk_preds (blocks ! c))" for p out
    using assms that by (auto simp: contributes_def out_ok_def graph_shape_def)
  have P: "P st \<Longrightarrow> proper st" "P st \<Longrightarrow> P (filter f st)" for st f
    using assms(2) by (auto simp: effects_ok_def)
  have "\<forall>p\<in>set (bk_preds (blocks ! c)). \<forall>out. contributes s p out \<longrightarrow> proper out"
    using c out P by blast
  from join_loop_None [OF this] show ?thesis
    unfolding joinedPredecessorValues_def
    by (cases "join_loop s (bk_preds (blocks ! c)) None") (auto simp: c dest: out intro: P)
qed

lemma join_loop_cong:
  "(\<And>p out. p \<in> set ps \<Longrightarrow> contributes s p out \<longleftrightarrow> contributes t p out) \<Longrightarrow> join_loop s ps r = join_loop t ps r"
proof (induction ps arbitrary: r)
  case (Cons p ps)
  have step: "join_loop u (p # ps) r =
      (if \<exists>out. contributes u p out
       then join_loop u ps (Some (case r of None \<Rightarrow> the (vf_out u ! p)
         | Some x \<Rightarrow> filter (\<lambda>(i, v). map_of (the (vf_out u ! p)) i = Some v) x))
       else join_loop u ps r)" for u r
    by (cases "vf_out u ! p") (auto simp: contributes_def split: option.split)
  have same: "the (vf_out s ! p) = the (vf_out t ! p)" if "contributes s p out" for out
    using that Cons.prems [of p out] by (simp add: contributes_def)
  have iff: "(\<exists>out. contributes s p out) \<longleftrightarrow> (\<exists>out. contributes t p out)" using Cons.prems by auto
  have IH: "join_loop s ps r = join_loop t ps r" for r using Cons by auto
  show ?case unfolding step iff IH using same iff by (auto split: option.split)
qed simp

lemma in_range_queue: "flow_ok P tr blocks s \<Longrightarrow> b \<in> set (vf_queue s) \<Longrightarrow> b < length blocks \<and> vf_available s ! b"
  by (simp add: flow_ok_def shape_ok_def)

lemma weight_cong:
  assumes "vf_in s = vf_in t" and "vf_available s = vf_available t"
  shows "weight K s = weight K t"
  unfolding weight_def assms ..

lemma weight_update:
  assumes "shape_ok n s" and "c < n" and "s' = s\<lparr>vf_available := (vf_available s)[c := True], vf_in := (vf_in s)[c := j]\<rparr>"
  shows "weight K s' + (if vf_available s ! c then length (vf_in s ! c) else Suc K) = weight K s + length j"
proof -
  let ?w = "\<lambda>s b. if vf_available s ! b then length (vf_in s ! b) else Suc K"
  have n: "length (vf_in s) = n" "length (vf_in s') = n" "length (vf_available s) = n"
    using assms(1,3) by (simp_all add: shape_ok_def)
  have "weight K s = ?w s c + (\<Sum>b\<in>{..<n} - {c}. ?w s b)" "weight K s' = ?w s' c + (\<Sum>b\<in>{..<n} - {c}. ?w s' b)"
    using assms(2) n by (simp_all add: weight_def sum.remove [of _ c])
  moreover have "(\<Sum>b\<in>{..<n} - {c}. ?w s' b) = (\<Sum>b\<in>{..<n} - {c}. ?w s b)"
    using assms(3) n by (intro sum.cong) auto
  moreover have "?w s' c = length j" using assms(2,3) n by simp
  ultimately show ?thesis by simp
qed

text \<open>What a step may do to the measure.\<close>

definition progress :: "nat \<Rightarrow> value_flow \<Rightarrow> value_flow \<Rightarrow> bool" where
  "progress K s t = (weight K t < weight K s \<or> weight K t = weight K s \<and> vf_queue t = vf_queue s)"

lemma progress_refl [simp]: "progress K s s"
  by (simp add: progress_def)

lemma progress_trans: "progress K s t \<Longrightarrow> progress K t u \<Longrightarrow> progress K s u"
  by (auto simp: progress_def)

text \<open>Renewing the values at the target of an edge whose source has been computed.\<close>

lemma push_ok:
  assumes ok: "flow_ok P tr blocks s" and eff: "effects_ok (length blocks) P K tr" and graph: "graph_shape blocks"
    and c: "c < length blocks" "b \<in> set (bk_preds (blocks ! c))" and b: "vf_out s ! b = Some out"
    and s': "s' = push_successor blocks c s"
  shows "flow_ok P tr blocks s'" and "progress K s s'" and "vf_out s' = vf_out s" and "edge_ok s' b c"
    and "edge_ok s p x \<Longrightarrow> x < length blocks \<Longrightarrow> edge_ok s' p x"
proof -
  define n where "n = length blocks"
  have shape: "shape_ok n s" and each: "\<And>b. b < n \<Longrightarrow> in_ok blocks s b \<and> out_ok P tr s b"
    using ok by (simp_all add: flow_ok_def n_def)
  have c0: "c \<noteq> 0"
  proof
    assume "c = 0"
    with c(2) graph show False by (simp add: graph_shape_def)
  qed
  have "\<forall>b<length blocks. out_ok P tr s b" using each by (simp add: n_def)
  from joined_spec [OF this eff graph c(1)] b c(2) obtain j where
    j: "joinedPredecessorValues blocks s c = Some j" "P j"
      "\<And>i v p out. map_of j i = Some v \<Longrightarrow> p \<in> set (bk_preds (blocks ! c)) \<Longrightarrow> vf_out s ! p = Some out \<Longrightarrow>
        map_of out i = Some v"
    by (cases "joinedPredecessorValues blocks s c") auto
  define changed where "changed \<longleftrightarrow> \<not> vf_available s ! c \<or> \<not> valueStatesEqual (vf_in s ! c) j"
  define t where "t = s\<lparr>vf_available := (vf_available s)[c := True], vf_in := (vf_in s)[c := j]\<rparr>"
  have s'_eq: "s' = (if changed \<and> \<not> vf_queued s ! c
      then t\<lparr>vf_queue := vf_queue s @ [c], vf_queued := (vf_queued s)[c := True]\<rparr> else t)"
    unfolding s' push_successor_def j(1) by (simp add: changed_def t_def Let_def)
  have old: "below j (vf_in s ! c)" if "vf_available s ! c"
    using each [of c] c(1) c0 that j(1) by (auto simp: in_ok_def n_def)
  have P_in: "P (vf_in s ! c)" using each [of c] c(1) by (simp add: out_ok_def n_def)
  have P: "\<And>st. P st \<Longrightarrow> proper st" "\<And>st. P st \<Longrightarrow> length st \<le> K" using eff by (auto simp: effects_ok_def)
  show out: "vf_out s' = vf_out s" by (simp add: s'_eq t_def)
  have fields: "vf_in s' = (vf_in s)[c := j]" "vf_available s' = (vf_available s)[c := True]"
    by (simp_all add: s'_eq t_def)
  have len: "length (vf_in s) = n" "length (vf_available s) = n" "length (vf_queued s) = n"
    using shape by (simp_all add: shape_ok_def)
  show "edge_ok s' b c"
    using b j(3) [OF _ c(2) b] c(1) len by (simp add: edge_ok_def out fields below_iff n_def)
  show "edge_ok s p x \<Longrightarrow> x < length blocks \<Longrightarrow> edge_ok s' p x"
    using old len by (cases "x = c") (auto simp: edge_ok_def out fields n_def intro: below_trans)
  have "weight K t + (if vf_available s ! c then length (vf_in s ! c) else Suc K) = weight K s + length j"
    using weight_update [OF shape _ t_def] c(1) by (simp add: n_def)
  moreover have "weight K s' = weight K t" by (rule weight_cong) (simp_all add: s'_eq)
  moreover have "length j < (if vf_available s ! c then length (vf_in s ! c) else Suc K)" if changed
  proof (cases "vf_available s ! c")
    case True
    note le = below_length [OF P(1) [OF j(2)] P(1) [OF P_in] old [OF True]]
    have "length j \<noteq> length (vf_in s ! c)"
    proof
      assume "length j = length (vf_in s ! c)"
      with below_equal_length [OF P(1) [OF j(2)] P(1) [OF P_in] old [OF True]] True that show False
        using P(1) [OF P_in] P(1) [OF j(2)] by (simp add: changed_def valueStatesEqual_iff below_def)
    qed
    with le True show ?thesis by simp
  qed (use P(2) [OF j(2)] in simp)
  moreover have "vf_available s ! c \<and> length j = length (vf_in s ! c) \<and> vf_queue s' = vf_queue s" if "\<not> changed"
    using that by (simp add: changed_def valueStatesEqual_def s'_eq t_def)
  ultimately show "progress K s s'"
    unfolding progress_def by (cases changed) simp_all
  have queue: "set (vf_queue s) \<subseteq> set (vf_queue s')" "set (vf_queue s') \<subseteq> insert c (set (vf_queue s))"
    "changed \<Longrightarrow> c \<in> set (vf_queue s')"
    using shape c(1) by (auto simp: s'_eq t_def shape_ok_def n_def)
  have shape': "shape_ok n s'"
    using shape c(1) c0 by (auto simp: s'_eq t_def shape_ok_def n_def nth_list_update)
  have contrib: "contributes s' p out' \<longleftrightarrow> contributes s p out'" if "p < n" for p out'
  proof (cases "p = c")
    case True
    with each [OF that] have "vf_out s ! c = Some out' \<Longrightarrow> vf_available s ! c" by (auto simp: out_ok_def)
    with True that len show ?thesis by (auto simp: contributes_def out fields)
  qed (simp add: contributes_def out fields)
  have joined: "joinedPredecessorValues blocks s' x = joinedPredecessorValues blocks s x" if "x < n" for x
    unfolding joinedPredecessorValues_def
    using graph that by (intro join_loop_cong contrib) (auto simp: graph_shape_def n_def)
  have in': "in_ok blocks s' x" if "x < n" for x
    using each [OF that] j(1) joined [OF that] len that
    by (cases "x = c") (auto simp: in_ok_def fields)
  have out': "out_ok P tr s' x" if "x < n" for x
  proof (cases "x = c")
    case False
    with each [OF that] queue(1) len show ?thesis by (auto simp: out_ok_def out fields)
  next
    case True
    have "\<exists>o'. vf_out s ! c = Some o' \<and> map_of o' = map_of (tr c j)" if "c \<notin> set (vf_queue s')"
    proof -
      from that queue(3) have "\<not> changed" by blast
      then have same: "vf_available s ! c" "below (vf_in s ! c) j"
        using P(1) [OF P_in] P(1) [OF j(2)] by (auto simp: changed_def valueStatesEqual_iff)
      have "c \<notin> set (vf_queue s)" using that queue(1) by blast
      with each [of c] same(1) c(1) obtain o' where
        "vf_out s ! c = Some o'" "map_of o' = map_of (tr c (vf_in s ! c))"
        by (auto simp: out_ok_def n_def)
      moreover have "below (tr c (vf_in s ! c)) (tr c j)" "below (tr c j) (tr c (vf_in s ! c))"
        using eff same(2) old [OF same(1)] P_in j(2) c(1) by (auto simp: effects_ok_def)
      ultimately show ?thesis by (auto simp: below_def intro: map_le_antisym)
    qed
    moreover have "P o' \<and> vf_available s ! c \<and> (\<exists>st. P st \<and> o' = tr c st \<and> below j st)" if "vf_out s ! c = Some o'" for o'
      using each [of c] c(1) that old by (auto simp: out_ok_def n_def intro: below_trans)
    ultimately show ?thesis using True j(2) len c(1) by (auto simp: out_ok_def out fields n_def)
  qed
  show "flow_ok P tr blocks s'" using shape' in' out' by (simp add: flow_ok_def n_def)
qed

lemma push_all_ok:
  assumes "flow_ok P tr blocks s" and "effects_ok (length blocks) P K tr" and "graph_shape blocks"
    and "\<forall>(c, k)\<in>set es. c < length blocks \<and> b \<in> set (bk_preds (blocks ! c))" and "vf_out s ! b = Some out"
    and "s' = fold (\<lambda>e. push_successor blocks (fst e)) es s"
  shows "flow_ok P tr blocks s' \<and> progress K s s' \<and> (\<forall>(c, k)\<in>set es. edge_ok s' b c) \<and>
    (\<forall>p x. edge_ok s p x \<longrightarrow> x < length blocks \<longrightarrow> edge_ok s' p x)"
  using assms
proof (induction es arbitrary: s)
  case (Cons e es)
  obtain c k where e: "e = (c, k)" by force
  define t where "t = push_successor blocks c s"
  have c: "c < length blocks" "b \<in> set (bk_preds (blocks ! c))" using Cons.prems(4) e by auto
  note push = push_ok [OF Cons.prems(1-3) c Cons.prems(5) t_def]
  have "flow_ok P tr blocks s' \<and> progress K t s' \<and> (\<forall>(c, k)\<in>set es. edge_ok s' b c) \<and>
    (\<forall>p x. edge_ok t p x \<longrightarrow> x < length blocks \<longrightarrow> edge_ok s' p x)"
    using push Cons.prems e by (intro Cons.IH) (auto simp: t_def)
  with push(2,4,5) c(1) e show ?case by (auto intro: progress_trans)
qed simp

definition edges_ok :: "block list \<Rightarrow> value_flow \<Rightarrow> bool" where
  "edges_ok blocks s = (\<forall>b<length blocks. \<forall>(c, k)\<in>set (bk_succs (blocks ! b)). edge_ok s b c)"

text \<open>Taking a block from the queue and recording what its events leave.\<close>

lemma queue_pop_ok:
  assumes ok: "flow_ok P tr blocks s" and q: "vf_queue s = b # queue"
    and u: "u = s\<lparr>vf_queue := queue, vf_queued := (vf_queued s)[b := False]\<rparr>"
  shows "shape_ok (length blocks) u" and "x < length blocks \<Longrightarrow> in_ok blocks u x"
    and "x < length blocks \<Longrightarrow> x \<noteq> b \<Longrightarrow> out_ok P tr u x"
proof -
  have join: "join_loop u ps r = join_loop s ps r" for ps r
    using join_loop_cong [of ps u s r] by (simp add: contributes_def u)
  show "shape_ok (length blocks) u"
    using ok q by (auto simp: flow_ok_def shape_ok_def u nth_list_update)
  show "x < length blocks \<Longrightarrow> in_ok blocks u x"
    using ok by (simp add: flow_ok_def in_ok_def joinedPredecessorValues_def join) (simp add: u)
  show "x < length blocks \<Longrightarrow> x \<noteq> b \<Longrightarrow> out_ok P tr u x"
    using ok q by (simp add: flow_ok_def out_ok_def u)
qed

lemma record_ok:
  assumes ok: "flow_ok P tr blocks s" and eff: "effects_ok (length blocks) P K tr" and graph: "graph_shape blocks"
    and q: "vf_queue s = b # queue"
    and v: "v = s\<lparr>vf_queue := queue, vf_queued := (vf_queued s)[b := False], vf_out := (vf_out s)[b := Some (tr b (vf_in s ! b))]\<rparr>"
  shows "flow_ok P tr blocks v"
proof -
  let ?out = "tr b (vf_in s ! b)"
  have b: "b < length blocks" "vf_available s ! b" using in_range_queue [OF ok, of b] q by auto
  have len: "length (vf_out s) = length blocks" using ok by (simp add: flow_ok_def shape_ok_def)
  have each: "\<And>x. x < length blocks \<Longrightarrow> in_ok blocks s x \<and> out_ok P tr s x" using ok by (simp add: flow_ok_def)
  note pop = queue_pop_ok [OF ok q refl]
  have P: "P (vf_in s ! b)" "P ?out" using each [OF b(1)] eff b(1) by (auto simp: out_ok_def effects_ok_def)
  have out: "out_ok P tr v x" if "x < length blocks" for x
  proof (cases "x = b")
    case True
    with P b len show ?thesis by (auto simp: out_ok_def v)
  next
    case False
    with pop(3) [OF that False] show ?thesis by (simp add: out_ok_def v)
  qed
  have fewer: "below ?out old" if old: "vf_out s ! b = Some old" for old
    using each [OF b(1)] old eff b(1) P by (auto simp: out_ok_def effects_ok_def)
  have "in_ok blocks v x" if x: "x < length blocks" for x
    unfolding in_ok_def
  proof (intro impI)
    assume "x \<noteq> 0" "vf_available v ! x"
    with each [OF x] obtain j where j: "joinedPredecessorValues blocks s x = Some j" "below j (vf_in s ! x)"
      by (auto simp: in_ok_def v)
    have "\<forall>b<length blocks. out_ok P tr s b" using each by blast
    from joined_spec [OF this eff graph x] j(1) have
      js: "\<And>i w. map_of j i = Some w \<longleftrightarrow>
        (\<forall>p\<in>set (bk_preds (blocks ! x)). \<forall>out. vf_out s ! p = Some out \<longrightarrow> map_of out i = Some w)" by simp
    have "\<forall>b<length blocks. out_ok P tr v b" using out by blast
    note spec = joined_spec [OF this eff graph x]
    have new: "vf_out v ! p = (if p = b then Some ?out else vf_out s ! p)" for p
      using b(1) len by (simp add: v)
    have "\<exists>p\<in>set (bk_preds (blocks ! x)). vf_out s ! p \<noteq> None"
    proof (rule ccontr)
      assume "\<not> ?thesis"
      with js have "map_of j i = Some w" for i w by auto
      from this [of 0 0] this [of 0 1] show False by simp
    qed
    with spec new obtain j' where j': "joinedPredecessorValues blocks v x = Some j'"
      "\<And>i w. map_of j' i = Some w \<longleftrightarrow>
        (\<forall>p\<in>set (bk_preds (blocks ! x)). \<forall>out. vf_out v ! p = Some out \<longrightarrow> map_of out i = Some w)"
      by (cases "joinedPredecessorValues blocks v x") (auto split: if_splits)
    have "below j' j"
      using fewer by (auto simp: below_iff js j'(2) new)
    with j(2) j'(1) show "\<exists>j. joinedPredecessorValues blocks v x = Some j \<and> below j (vf_in v ! x)"
      by (auto simp: v intro: below_trans)
  qed
  moreover have "shape_ok (length blocks) v" using pop(1) len by (simp add: shape_ok_def v)
  ultimately show ?thesis using out by (simp add: flow_ok_def)
qed

lemma transfer_step_ok:
  assumes ok: "flow_ok P tr blocks s" and edges: "edges_ok blocks s" and eff: "effects_ok (length blocks) P K tr"
    and graph: "graph_shape blocks" and step: "transfer_step tr blocks s = Some s'"
  shows "flow_ok P tr blocks s'" and "edges_ok blocks s'"
    and "weight K s' < weight K s \<or> weight K s' = weight K s \<and> length (vf_queue s') < length (vf_queue s)"
proof -
  obtain b queue where q: "vf_queue s = b # queue"
    using step by (cases "vf_queue s") (auto simp: transfer_step_def)
  have b: "b < length blocks" "vf_available s ! b" using in_range_queue [OF ok, of b] q by auto
  define u where "u = s\<lparr>vf_queue := queue, vf_queued := (vf_queued s)[b := False]\<rparr>"
  define out where "out = tr b (vf_in s ! b)"
  define same where "same \<longleftrightarrow> (case vf_out s ! b of None \<Rightarrow> False | Some old \<Rightarrow> valueStatesEqual old out)"
  define v where "v = u\<lparr>vf_out := (vf_out s)[b := Some out]\<rparr>"
  have s': "s' = (if same then u else fold (\<lambda>e. push_successor blocks (fst e)) (bk_succs (blocks ! b)) v)"
    using step q
    by (cases "vf_out s ! b") (auto simp: transfer_step_def Let_def u_def v_def out_def same_def split: if_splits)
  have each: "\<And>x. x < length blocks \<Longrightarrow> in_ok blocks s x \<and> out_ok P tr s x" using ok by (simp add: flow_ok_def)
  have proper: "P st \<Longrightarrow> proper st" for st using eff by (auto simp: effects_ok_def)
  have "flow_ok P tr blocks s' \<and> edges_ok blocks s' \<and>
    (weight K s' < weight K s \<or> weight K s' = weight K s \<and> length (vf_queue s') < length (vf_queue s))"
  proof (cases same)
    case True
    then obtain old where old: "vf_out s ! b = Some old" "valueStatesEqual old out"
      by (auto simp: same_def split: option.splits)
    have P: "P (vf_in s ! b)" "P old" "P out"
      using each [OF b(1)] old eff b(1) by (auto simp: out_ok_def out_def effects_ok_def)
    then have "map_of old = map_of out"
      using old(2) proper by (intro below_equal_length) (auto simp: valueStatesEqual_iff)
    then have "out_ok P tr u b"
      using each [OF b(1)] old(1) by (auto simp: out_ok_def u_def out_def)
    with queue_pop_ok [OF ok q u_def] have "flow_ok P tr blocks u" by (auto simp: flow_ok_def)
    moreover have "edges_ok blocks u" using edges by (auto simp: edges_ok_def edge_ok_def u_def)
    moreover have "weight K u = weight K s" by (rule weight_cong) (simp_all add: u_def)
    ultimately show ?thesis using True q by (simp add: s' u_def)
  next
    case False
    have "flow_ok P tr blocks v"
      using record_ok [OF ok eff graph q, of v] by (simp add: v_def u_def out_def)
    moreover have "\<forall>(c, k)\<in>set (bk_succs (blocks ! b)). c < length blocks \<and> b \<in> set (bk_preds (blocks ! c))"
      using graph b(1) by (auto simp: graph_shape_def)
    moreover have "vf_out v ! b = Some out"
      using ok b(1) by (simp add: v_def flow_ok_def shape_ok_def)
    ultimately have push: "flow_ok P tr blocks s'" "progress K v s'"
      "\<forall>(c, k)\<in>set (bk_succs (blocks ! b)). edge_ok s' b c"
      "\<And>p x. edge_ok v p x \<Longrightarrow> x < length blocks \<Longrightarrow> edge_ok s' p x"
      using push_all_ok [of P tr blocks v K "bk_succs (blocks ! b)" b out s'] eff graph False
      by (auto simp: s')
    have "edge_ok s' p c" if "p < length blocks" "(c, k) \<in> set (bk_succs (blocks ! p))" for p c k
    proof (cases "p = b")
      case True
      with push(3) that show ?thesis by auto
    next
      case False
      have "edge_ok s p c" using edges that by (auto simp: edges_ok_def)
      then have "edge_ok v p c" using False by (simp add: edge_ok_def v_def u_def)
      moreover have "c < length blocks" using graph that by (auto simp: graph_shape_def)
      ultimately show ?thesis by (rule push(4))
    qed
    moreover have "weight K v = weight K s" by (rule weight_cong) (simp_all add: v_def u_def)
    moreover have "vf_queue v = queue" by (simp add: v_def u_def)
    ultimately show ?thesis using push(1,2) q by (auto simp: edges_ok_def progress_def)
  qed
  then show "flow_ok P tr blocks s'" "edges_ok blocks s'"
    "weight K s' < weight K s \<or> weight K s' = weight K s \<and> length (vf_queue s') < length (vf_queue s)" by auto
qed

lemma transfer_ends:
  assumes "effects_ok (length blocks) P K tr" and "graph_shape blocks"
  shows "flow_ok P tr blocks s \<Longrightarrow> edges_ok blocks s \<Longrightarrow>
    \<exists>n r. transfer_rounds tr blocks n s = Some r \<and> transfer_step tr blocks r = None \<and> flow_ok P tr blocks r \<and> edges_ok blocks r"
proof (induction s rule: wf_induct_rule [OF wf_measures [of "[weight K, \<lambda>s. length (vf_queue s)]"]])
  case (1 s)
  show ?case
  proof (cases "transfer_step tr blocks s")
    case None
    with 1(2,3) show ?thesis by (intro exI [of _ 0] exI [of _ s]) simp
  next
    case (Some t)
    note step = transfer_step_ok [OF 1(2,3) assms Some]
    have "(t, s) \<in> measures [weight K, \<lambda>s. length (vf_queue s)]" using step(3) by auto
    from 1(1) [OF this step(1,2)] obtain n r where
      "transfer_rounds tr blocks n t = Some r" "transfer_step tr blocks r = None" "flow_ok P tr blocks r" "edges_ok blocks r"
      by blast
    with Some show ?thesis by (intro exI [of _ "Suc n"] exI [of _ r]) simp
  qed
qed

lemma initial_ok:
  assumes "effects_ok (length blocks) P K tr" and "graph_shape blocks"
  shows "flow_ok P tr blocks (initial_flow (length blocks))" and "edges_ok blocks (initial_flow (length blocks))"
proof -
  have n: "0 < length blocks" using assms(2) by (simp add: graph_shape_def)
  have "P []" using assms(1) by (simp add: effects_ok_def)
  moreover have "edges_ok blocks (initial_flow (length blocks))"
    using assms(2) by (auto simp: edges_ok_def edge_ok_def initial_flow_def graph_shape_def)
  ultimately show "flow_ok P tr blocks (initial_flow (length blocks))" "edges_ok blocks (initial_flow (length blocks))"
    using n by (auto simp: flow_ok_def shape_ok_def in_ok_def out_ok_def initial_flow_def nth_list_update)
qed

section \<open>The events of a block\<close>

text \<open>
  An assignment to a constant gives it its own constant value. The declaration of a constant with a
  constant initializer does, the one with an initializer that reads variables does not.
\<close>

definition stable_event :: "semantic \<Rightarrow> value_event \<Rightarrow> bool" where
  "stable_event m e =
    (let i = ve_symbol e in
     ve_kind e = ValueAssign \<and> i < length (sm_symbols m) \<and> sy_constant (sm_symbols m ! i) \<longrightarrow>
       (if ve_zero e then sm_constantValues m i = None \<and> sy_value (sm_symbols m ! i) = None
        else (case ve_expr e of
          None \<Rightarrow> True
        | Some x \<Rightarrow> Eval m x \<noteq> None \<and> ConstantValue m i = Eval m x)))"

definition stable_events :: "semantic \<Rightarrow> value_event list list \<Rightarrow> bool" where
  "stable_events m evs = (\<forall>es\<in>set evs. \<forall>e\<in>set es. stable_event m e)"

definition state_ok :: "semantic \<Rightarrow> nat set \<Rightarrow> value_state \<Rightarrow> bool" where
  "state_ok m S st = (proper st \<and> fst ` set st \<subseteq> S \<and> consistent m (map_of st))"

lemma state_ok_filter: "state_ok m S st \<Longrightarrow> state_ok m S (filter f st)"
  by (auto simp: state_ok_def proper_filter consistent_def map_of_filter)

lemma map_of_delete: "map_of (delete_value i st) = (map_of st)(i := None)"
  by (induction st) (auto simp: delete_value_def)

lemma map_of_set: "map_of (set_value i v st) = (map_of st)(i \<mapsto> v)"
  by (simp add: set_value_def map_of_delete)

lemma state_ok_set:
  "state_ok m S st \<Longrightarrow> i \<in> S \<Longrightarrow> settled m i v \<Longrightarrow> state_ok m S (set_value i v st)"
  using state_ok_filter [of m S st "\<lambda>p. fst p \<noteq> i"]
  by (auto simp: state_ok_def map_of_set consistent_def) (auto simp: proper_def set_value_def delete_value_def)

definition event_value :: "semantic \<Rightarrow> value_event \<Rightarrow> value_state \<Rightarrow> int option" where
  "event_value m e st =
    (if ve_kind e = ValueInvalidate then None
     else if ve_zero e then Some 0
     else Option.bind (ve_expr e) (\<lambda>x. EvalWithValues m x (map_of st)))"

lemma apply_event_value:
  "apply_event m e st =
    (case event_value m e st of None \<Rightarrow> delete_value (ve_symbol e) st | Some v \<Rightarrow> set_value (ve_symbol e) v st)"
  by (cases "ve_expr e") (simp_all add: apply_event_def event_value_def)

lemma event_value_mono:
  "state_ok m S r \<Longrightarrow> below l r \<Longrightarrow> event_value m e l = Some v \<Longrightarrow> event_value m e r = Some v"
  using EvalWithValues_mono [of "map_of l" "map_of r" m]
  by (auto simp: event_value_def state_ok_def below_def bind_eq_Some_conv split: if_splits)

lemma event_value_settled:
  assumes "stable_event m e" and "state_ok m S st" and "event_value m e st = Some v"
  shows "settled m (ve_symbol e) v"
  unfolding settled_def
proof (intro impI)
  let ?i = "ve_symbol e"
  assume const: "?i < length (sm_symbols m) \<and> sy_constant (sm_symbols m ! ?i)"
  have assign: "ve_kind e = ValueAssign"
    using assms(3) by (cases "ve_kind e") (auto simp: event_value_def)
  show "ConstantValue m ?i = Some v \<or> sm_constantValues m ?i = None \<and> sy_value (sm_symbols m ! ?i) = None"
  proof (cases "ve_zero e")
    case True
    with assms(1) const assign show ?thesis by (simp add: stable_event_def Let_def)
  next
    case False
    with assms(3) assign obtain x where x: "ve_expr e = Some x" "EvalWithValues m x (map_of st) = Some v"
      by (auto simp: event_value_def bind_eq_Some_conv)
    with assms(1) const assign False obtain w where w: "Eval m x = Some w" "ConstantValue m ?i = Some w"
      by (auto simp: stable_event_def Let_def)
    then have "EvalWithValues m x (map_of st) = Some w"
      using EvalWithValues_mono [of Map.empty "map_of st" m x w] assms(2)
      by (simp add: state_ok_def Eval_def EvalWithValues_def)
    with x w show ?thesis by simp
  qed
qed

lemma apply_event_ok:
  assumes "stable_event m e" and "ve_symbol e \<in> S" and "state_ok m S st"
  shows "state_ok m S (apply_event m e st)"
  using state_ok_set [OF assms(3,2)] event_value_settled [OF assms(1,3)] state_ok_filter [OF assms(3)]
  by (simp add: apply_event_value delete_value_def split: option.split)

lemma apply_event_mono:
  assumes "state_ok m S l" and "state_ok m S r" and "below l r"
  shows "below (apply_event m e l) (apply_event m e r)"
proof -
  show ?thesis
    using event_value_mono [OF assms(2,3), of e] assms(3)
    by (auto simp: apply_event_value map_of_delete map_of_set below_iff split: option.split)
qed

lemma apply_events_ok:
  assumes "\<forall>e\<in>set es. stable_event m e \<and> ve_symbol e \<in> S"
  shows "state_ok m S st \<Longrightarrow> state_ok m S (fold (apply_event m) es st)"
    and "state_ok m S l \<Longrightarrow> state_ok m S r \<Longrightarrow> below l r \<Longrightarrow>
      below (fold (apply_event m) es l) (fold (apply_event m) es r)"
  using assms
  by (induction es arbitrary: st l r) (auto simp: apply_event_ok apply_event_mono)

definition event_symbols :: "value_event list list \<Rightarrow> nat set" where
  "event_symbols evs = (\<Union>es\<in>set evs. ve_symbol ` set es)"

lemma applyValueEvents_all: "applyValueEvents m (-1) es st = fold (apply_event m) es st"
proof -
  have "takeWhile (\<lambda>e. \<not> ((- 1 :: int) \<ge> 0 \<and> ve_offset e > - 1)) es = es"
    by (subst takeWhile_eq_all_conv) simp
  then show ?thesis unfolding applyValueEvents_def by (rule arg_cong)
qed

lemma events_effects_ok:
  assumes "stable_events m evs"
  shows "effects_ok (length evs) (state_ok m (event_symbols evs)) (card (event_symbols evs))
    (\<lambda>b. applyValueEvents m (-1) (evs ! b))"
proof -
  let ?S = "event_symbols evs"
  have fin: "finite ?S" by (simp add: event_symbols_def)
  have es: "\<forall>e\<in>set (evs ! b). stable_event m e \<and> ve_symbol e \<in> ?S" if "b < length evs" for b
    using assms that by (auto simp: stable_events_def event_symbols_def)
  have "length st \<le> card ?S" if "state_ok m ?S st" for st
  proof -
    have "length st = card (fst ` set st)"
      using that card_proper [of st] by (simp add: state_ok_def dom_map_of_conv_image_fst)
    also have "\<dots> \<le> card ?S" using that fin by (intro card_mono) (auto simp: state_ok_def)
    finally show ?thesis .
  qed
  moreover have "state_ok m ?S []" by (simp add: state_ok_def proper_def consistent_def)
  moreover have "state_ok m ?S st \<Longrightarrow> proper st" for st by (simp add: state_ok_def)
  moreover have "\<forall>b<length evs. \<forall>st. state_ok m ?S st \<longrightarrow> state_ok m ?S (fold (apply_event m) (evs ! b) st)"
    using apply_events_ok(1) [OF es] by blast
  moreover have "\<forall>b<length evs. \<forall>l r. state_ok m ?S l \<longrightarrow> state_ok m ?S r \<longrightarrow> below l r \<longrightarrow>
      below (fold (apply_event m) (evs ! b) l) (fold (apply_event m) (evs ! b) r)"
    using apply_events_ok(2) [OF es] by blast
  moreover have "\<forall>st f. state_ok m ?S st \<longrightarrow> state_ok m ?S (filter f st)" using state_ok_filter by blast
  ultimately show ?thesis
    unfolding effects_ok_def applyValueEvents_all by blast
qed

section \<open>Termination and soundness\<close>

text \<open>The states in which execution may reach a block, following edges from the entry.\<close>

inductive path_state :: "semantic \<Rightarrow> block list \<Rightarrow> value_event list list \<Rightarrow> nat \<Rightarrow> value_state \<Rightarrow> bool"
  for m blocks evs where
  start: "path_state m blocks evs 0 []"
| edge: "path_state m blocks evs b st \<Longrightarrow> (c, k) \<in> set (bk_succs (blocks ! b)) \<Longrightarrow>
    path_state m blocks evs c (applyValueEvents m (-1) (evs ! b) st)"

lemma propagateValues_result:
  assumes graph: "graph_shape blocks" and n: "length evs = length blocks" and stable: "stable_events m evs"
  shows "\<exists>s. propagateValues m blocks evs = Some s \<and>
    (\<forall>b st. path_state m blocks evs b st \<longrightarrow> below (vf_in s ! b) st)"
proof -
  let ?tr = "\<lambda>b. applyValueEvents m (-1) (evs ! b)" and ?P = "state_ok m (event_symbols evs)"
  note eff = events_effects_ok [OF stable, unfolded n]
  from transfer_ends [OF eff graph initial_ok [OF eff graph]] obtain k r where
    r: "transfer_rounds ?tr blocks k (initial_flow (length blocks)) = Some r" "transfer_step ?tr blocks r = None"
      "flow_ok ?P ?tr blocks r" "edges_ok blocks r" by blast
  have queue: "vf_queue r = []"
    using r(2) by (cases "vf_queue r") (auto simp: transfer_step_def Let_def split: if_splits)
  have "propagateValues m blocks evs = value_loop m blocks evs r"
    unfolding propagateValues_def using r(1) by (intro value_loop_rounds) (simp add: value_rounds_transfer)
  also have "\<dots> = Some r" using r(2) by (subst value_loop.simps) (simp add: value_step_transfer)
  finally have "propagateValues m blocks evs = Some r" .
  moreover have "b < length blocks \<and> vf_available r ! b \<and> ?P st \<and> below (vf_in r ! b) st"
    if "path_state m blocks evs b st" for b st
    using that
  proof induction
    case start
    have "?P []" by (simp add: state_ok_def proper_def consistent_def)
    with r(3) graph show ?case by (simp add: flow_ok_def shape_ok_def graph_shape_def)
  next
    case (edge b st c k)
    with r(3) queue obtain out where out: "vf_out r ! b = Some out" "map_of out = map_of (?tr b (vf_in r ! b))"
      and P: "?P (vf_in r ! b)"
      by (auto simp: flow_ok_def out_ok_def)
    have "edge_ok r b c" using r(4) edge by (auto simp: edges_ok_def)
    with out(1) have "vf_available r ! c" "below (vf_in r ! c) out" by (auto simp: edge_ok_def)
    moreover have "below (?tr b (vf_in r ! b)) (?tr b st)" "?P (?tr b st)"
      using eff P edge by (auto simp: effects_ok_def)
    moreover have "c < length blocks" using graph edge by (auto simp: graph_shape_def)
    ultimately show ?case using out(2) by (auto simp: below_def intro: map_le_trans)
  qed
  ultimately show ?thesis by blast
qed

lemma build_cfg_shape: "graph_shape (bd_blocks (cf_builder (build_cfg env f)))"
proof -
  define b where "b = cf_builder (build_cfg env f)"
  have g: "graph_ok b" "entry_free b"
    unfolding b_def by (rule build_cfg_graph_ok build_cfg_entry_free)+
  have "2 \<le> size_of b"
    unfolding b_def
    by (rule build_cfg_invariant [where I = "\<lambda>b. 2 \<le> size_of b"])
      (unfold_locales, simp_all add: base_new_builder)
  then have some: "bd_blocks b \<noteq> []" by auto
  have mirrored: "c < size_of b \<and> i \<in> set (preds b c)" if "i < size_of b" "(c, k) \<in> set (succs b i)" for i c k
  proof -
    have c: "c < size_of b" using g(1) that by (force simp: graph_ok_def)
    have "count_list (preds b c) i = length (filter (\<lambda>e. fst e = c) (succs b i))"
      using g(1) that(1) c unfolding graph_ok_def by blast
    moreover have "(c, k) \<in> set (filter (\<lambda>e. fst e = c) (succs b i))" using that(2) by simp
    ultimately have "count_list (preds b c) i \<noteq> 0" by (metis empty_iff empty_set length_0_conv)
    with c show ?thesis using count_notin by metis
  qed
  have inside: "p < size_of b" if "i < size_of b" "p \<in> set (preds b i)" for i p
    using g(1) that unfolding graph_ok_def by blast
  have "graph_shape (bd_blocks b)"
    unfolding graph_shape_def
  proof (intro conjI allI impI ballI)
    show "preds b 0 = []" using g(2) by (simp add: entry_free_def)
    show "case e of (c, k) \<Rightarrow> c < size_of b \<and> i \<in> set (preds b c)" if "i < size_of b" "e \<in> set (succs b i)" for i e
      using mirrored [OF that(1)] that(2) by (cases e) blast
  qed (fact some, rule inside)
  then show ?thesis by (simp add: b_def)
qed

lemma length_fold: "(\<And>x evs. length (g x evs) = length evs) \<Longrightarrow> length (fold g xs evs) = length evs"
  by (induction xs arbitrary: evs) auto

lemma length_value_events [simp]:
  "length (value_events resolver f nodes symbols) = length (bd_blocks (cf_builder (ff_cfg f)))"
proof -
  have add: "length (add_event b e evs) = length evs" for b e evs by (simp add: add_event_def)
  have "length (addDeclarationValueEvent f i evs) = length evs" for i evs
    by (simp add: addDeclarationValueEvent_def Let_def add split: option.split)
  moreover have "length (assignment_event f tracked n evs) = length evs" for tracked n evs
    by (simp add: assignment_event_def add split: option.split)
  moreover have "length (update_event f tracked n evs) = length evs" for tracked n evs
    by (simp add: update_event_def add split: option.split)
  moreover have "length (call_event resolver f tracked n evs) = length evs" for tracked n evs
    by (auto simp: call_event_def add intro!: length_fold split: option.split)
  ultimately show ?thesis unfolding value_events_def Let_def by (simp add: length_fold)
qed

text \<open>
  C22: where constants are constant the propagation of values ends, and what it finds is sound. If every
  assignment to a constant local gives it its own constant value, the propagation over a graph whose
  entry has no predecessor returns, and a value it reports for a variable at the entry of a block is the
  value the variable has there whichever path of edges was taken.
\<close>

theorem propagateValues_correct:
  assumes "graph_shape blocks" and "length evs = length blocks" and "stable_events m evs"
  shows "\<exists>s. propagateValues m blocks evs = Some s \<and>
    (\<forall>b st i v. path_state m blocks evs b st \<longrightarrow> map_of (vf_in s ! b) i = Some v \<longrightarrow> map_of st i = Some v)"
  using propagateValues_result [OF assms] unfolding below_iff by blast

text \<open>The function above without \<open>y\<close>: \<open>main() { new z = 0; while (c()) { z = 5; } }\<close>.\<close>

definition calm_events :: "value_event list list" where
  "calm_events = [[], [], [], [flip_assign 18 0 flip_zero], [], [], [], [], [flip_assign 56 0 flip_five], []]"

lemma flip_shape: "graph_shape flip_blocks"
  by (simp add: graph_shape_def flip_blocks_def All_less_Suc eval_nat_numeral)

lemma calm_stable: "stable_events flip_semantic calm_events"
  by (simp add: stable_events_def calm_events_def stable_event_def Let_def flip_assign_def flip_semantic_def
      empty_semantic_def flip_symbol_def)

theorem propagateValues_correct_witness:
  "\<exists>s. propagateValues flip_semantic flip_blocks calm_events = Some s \<and>
    (\<forall>i v. map_of (vf_in s ! 2) i = Some v \<longrightarrow> map_of [] i = Some v)"
proof -
  have "path_state flip_semantic flip_blocks calm_events 2 (applyValueEvents flip_semantic (-1) (calm_events ! 0) [])"
    by (rule path_state.edge [OF path_state.start, of 2 EdgeNormal]) (simp add: flip_blocks_def)
  then have "path_state flip_semantic flip_blocks calm_events 2 []"
    by (simp add: calm_events_def applyValueEvents_all)
  moreover have "length calm_events = length flip_blocks" by (simp add: calm_events_def flip_blocks_def)
  ultimately show ?thesis using propagateValues_correct [OF flip_shape _ calm_stable] by blast
qed

end
