(* ===== verification/Options.thy ===== *)
theory Options
  imports Prelude Complex_Main "HOL-Library.Finite_Map"
begin

text \<open>
  The options of a rule and their values (\<open>pkg/lint/options.go\<close>): what a declared option may look like and
  how a configured value is checked and brought into its normal form.
\<close>

section \<open>Values\<close>

text \<open>
  Values of type \<open>any\<close> as the configuration decoders make them. All signed integer types are \<open>VSigned\<close>,
  all unsigned ones \<open>VUnsigned\<close>; a finite \<open>float64\<close> is the rational number it stands for.
\<close>

datatype go_value =
    VNil | VBool bool | VSigned int | VUnsigned nat | VFloat rat | VNonFinite
  | VString string | VStrings "string list" | VList "go_value list"
  | VMap "(string, go_value) fmap" | VMaps "(string, go_value) fmap list"

datatype option_type =
    OptionBoolean | OptionInteger | OptionString | OptionStringList | OptionObjectList | OptionTypeOther nat

definition OptionType_String :: "option_type \<Rightarrow> string" where
  "OptionType_String t =
    (case t of OptionBoolean \<Rightarrow> ''boolean'' | OptionInteger \<Rightarrow> ''integer'' | OptionString \<Rightarrow> ''string''
     | OptionStringList \<Rightarrow> ''string-list'' | OptionObjectList \<Rightarrow> ''object-list'' | OptionTypeOther _ \<Rightarrow> ''unknown'')"

text \<open>A declared option. \<open>op_default\<close> is \<open>VNil\<close> when there is none; \<open>op_validate\<close> gives the error text.\<close>

datatype opt =
  Opt (op_name: string) (op_type: option_type) (op_default: go_value)
    (op_minimum: "int option") (op_maximum: "int option") (op_choices: "string list")
    (op_fields: "opt list") (op_required: bool) (op_validate: "(go_value \<Rightarrow> string option) option")

datatype option_error =
    Must_be string | At_least int | At_most int | One_of "string list" | Entries_one_of "string list"
  | Invalid_type | Rejected string | Entry_not_object nat | Unknown_field nat string
  | Bad_field nat string option_error | Missing_field nat string | Bad_default nat string option_error

definition containsOptionChoice :: "string list \<Rightarrow> string \<Rightarrow> bool" where
  "containsOptionChoice choices value = (value \<in> set choices)"

text \<open>
  A float counts as an integer when converting it to \<open>int64\<close> and back gives it again. Outside the range
  of \<open>int64\<close> the conversion gives the least integer on amd64, which is another number.
\<close>

definition integerOption :: "go_value \<Rightarrow> int option" where
  "integerOption v =
    (case v of
      VSigned i \<Rightarrow> Some i
    | VUnsigned n \<Rightarrow> if int n \<le> 2 ^ 63 - 1 then Some (int n) else None
    | VFloat r \<Rightarrow>
        (let i = \<lfloor>r\<rfloor> in if of_int i = r \<and> - (2 ^ 63) \<le> i \<and> i \<le> 2 ^ 63 - 1 then Some i else None)
    | _ \<Rightarrow> None)"

fun all_strings :: "go_value list \<Rightarrow> string list option" where
  "all_strings [] = Some []"
| "all_strings (v # vs) =
    (case v of
      VString s \<Rightarrow> map_option (\<lambda>ss. s # ss) (all_strings vs)
    | _ \<Rightarrow> None)"

definition stringListOption :: "go_value \<Rightarrow> string list option" where
  "stringListOption v =
    (case v of VStrings ss \<Rightarrow> Some ss | VList vs \<Rightarrow> all_strings vs | _ \<Rightarrow> None)"

section \<open>Normalizing\<close>

text \<open>\<open>fields[name]\<close>: a later field of the same name replaces an earlier one.\<close>

definition field_named :: "opt list \<Rightarrow> string \<Rightarrow> opt option" where
  "field_named fields name = List.find (\<lambda>f. op_name f = name) (rev fields)"

lemma field_named_mem: "field_named fields name = Some f \<Longrightarrow> f \<in> set fields \<and> op_name f = name"
  by (auto simp: field_named_def find_Some_iff) (metis length_rev nth_mem set_rev)

lemma size_field_opt: "f \<in> set (op_fields o') \<Longrightarrow> size f < size o'"
proof (cases o')
  case (Opt x1 x2 x3 x4 x5 x6 fs x8 x9)
  assume "f \<in> set (op_fields o')"
  with Opt have "f \<in> set fs" by simp
  then have "size f \<le> size_list size fs" by (rule size_list_estimation') simp
  with Opt show ?thesis by simp
qed

lemma size_list_member: "f \<in> set fs \<Longrightarrow> size f < size_list size fs"
  by (induction fs) auto

lemma size_list_fields: "size_list size (op_fields o') < size o'"
  by (cases o') simp

text \<open>
  The names of an entry are handled in sorted order, then the fields it does not have. The loops are
  \<open>normalize_names\<close> and \<open>fill_defaults\<close>; a map under construction is the second accumulator.
\<close>

function NormalizeOption :: "opt \<Rightarrow> go_value \<Rightarrow> option_error + go_value"
and normalizeOptionValue :: "opt \<Rightarrow> go_value \<Rightarrow> option_error + go_value"
and objectListOption :: "opt list \<Rightarrow> go_value \<Rightarrow> option_error + go_value"
and normalize_items :: "opt list \<Rightarrow> nat \<Rightarrow> go_value list \<Rightarrow> option_error + (string, go_value) fmap list"
and normalize_names ::
  "opt list \<Rightarrow> nat \<Rightarrow> (string, go_value) fmap \<Rightarrow> string list \<Rightarrow> (string, go_value) fmap \<Rightarrow>
    option_error + (string, go_value) fmap"
and fill_defaults ::
  "nat \<Rightarrow> opt list \<Rightarrow> (string, go_value) fmap \<Rightarrow> option_error + (string, go_value) fmap" where
  "NormalizeOption o' v =
    (case normalizeOptionValue o' v of
      Inl e \<Rightarrow> Inl e
    | Inr result \<Rightarrow>
        (case op_validate o' of
          None \<Rightarrow> Inr result
        | Some validate \<Rightarrow> (case validate result of None \<Rightarrow> Inr result | Some text \<Rightarrow> Inl (Rejected text))))"
| "normalizeOptionValue o' v =
    (case op_type o' of
      OptionBoolean \<Rightarrow> (case v of VBool b \<Rightarrow> Inr (VBool b) | _ \<Rightarrow> Inl (Must_be ''a boolean''))
    | OptionInteger \<Rightarrow>
        (case integerOption v of
          None \<Rightarrow> Inl (Must_be ''an integer'')
        | Some i \<Rightarrow>
            (case op_minimum o' of
              Some lo \<Rightarrow> if i < lo then Inl (At_least lo)
                else (case op_maximum o' of
                  Some hi \<Rightarrow> if i > hi then Inl (At_most hi) else Inr (VSigned i)
                | None \<Rightarrow> Inr (VSigned i))
            | None \<Rightarrow> (case op_maximum o' of
                Some hi \<Rightarrow> if i > hi then Inl (At_most hi) else Inr (VSigned i)
              | None \<Rightarrow> Inr (VSigned i))))
    | OptionString \<Rightarrow>
        (case v of
          VString s \<Rightarrow>
            if op_choices o' \<noteq> [] \<and> \<not> containsOptionChoice (op_choices o') s then Inl (One_of (op_choices o'))
            else Inr (VString s)
        | _ \<Rightarrow> Inl (Must_be ''a string''))
    | OptionStringList \<Rightarrow>
        (case stringListOption v of
          None \<Rightarrow> Inl (Must_be ''a list of strings'')
        | Some ss \<Rightarrow>
            if op_choices o' \<noteq> [] \<and> \<not> list_all (containsOptionChoice (op_choices o')) ss
            then Inl (Entries_one_of (op_choices o'))
            else Inr (VStrings ss))
    | OptionObjectList \<Rightarrow> objectListOption (op_fields o') v
    | OptionTypeOther _ \<Rightarrow> Inl Invalid_type)"
| "objectListOption fields v =
    (case (case v of VList items \<Rightarrow> Some items | VMaps ms \<Rightarrow> Some (map VMap ms) | _ \<Rightarrow> None) of
      None \<Rightarrow> Inl (Must_be ''a list of objects'')
    | Some items \<Rightarrow> map_sum id VMaps (normalize_items fields 0 items))"
| "normalize_items fields index [] = Inr []"
| "normalize_items fields index (item # items) =
    (case item of
      VMap object \<Rightarrow>
        (case normalize_names fields index object (sorted_list_of_fset (fmdom object)) fmempty of
          Inl e \<Rightarrow> Inl e
        | Inr normalized \<Rightarrow>
            (case fill_defaults index fields normalized of
              Inl e \<Rightarrow> Inl e
            | Inr m \<Rightarrow> map_sum id ((#) m) (normalize_items fields (Suc index) items)))
    | _ \<Rightarrow> Inl (Entry_not_object (Suc index)))"
| "normalize_names fields index object [] normalized = Inr normalized"
| "normalize_names fields index object (name # names) normalized =
    (case field_named fields name of
      None \<Rightarrow> Inl (Unknown_field (Suc index) name)
    | Some f \<Rightarrow>
        (case NormalizeOption f (case fmlookup object name of None \<Rightarrow> VNil | Some v \<Rightarrow> v) of
          Inl e \<Rightarrow> Inl (Bad_field (Suc index) name e)
        | Inr v \<Rightarrow> normalize_names fields index object names (fmupd name v normalized)))"
| "fill_defaults index [] normalized = Inr normalized"
| "fill_defaults index (f # fs) normalized =
    (if fmlookup normalized (op_name f) \<noteq> None then fill_defaults index fs normalized
     else if op_required f then Inl (Missing_field (Suc index) (op_name f))
     else if op_default f = VNil then fill_defaults index fs normalized
     else (case NormalizeOption f (op_default f) of
         Inl e \<Rightarrow> Inl (Bad_default (Suc index) (op_name f) e)
       | Inr v \<Rightarrow> fill_defaults index fs (fmupd (op_name f) v normalized)))"
  by pat_completeness auto


termination
  by (relation "measures
      [\<lambda>x. case x of Inl (Inl (o', v)) \<Rightarrow> size o' | Inl (Inr (Inl (o', v))) \<Rightarrow> size o'
         | Inl (Inr (Inr (fs, v))) \<Rightarrow> size_list size fs
         | Inr (Inl (fs, i, items)) \<Rightarrow> size_list size fs
         | Inr (Inr (Inl (fs, i, m, ns, r))) \<Rightarrow> size_list size fs
         | Inr (Inr (Inr (i, fs, r))) \<Rightarrow> size_list size fs,
       \<lambda>x. case x of Inl (Inl _) \<Rightarrow> 1 | Inl (Inr (Inl _)) \<Rightarrow> 0 | Inl (Inr (Inr _)) \<Rightarrow> 3
         | Inr (Inl _) \<Rightarrow> 2 | Inr (Inr (Inl _)) \<Rightarrow> 1 | Inr (Inr (Inr _)) \<Rightarrow> 0,
       \<lambda>x. case x of Inl _ \<Rightarrow> 0 | Inr (Inl (fs, i, items)) \<Rightarrow> length items
         | Inr (Inr (Inl (fs, i, m, ns, r))) \<Rightarrow> length ns | Inr (Inr (Inr _)) \<Rightarrow> 0]")
    (auto simp: size_list_fields size_list_member dest!: field_named_mem field_named_mem [OF sym])

declare NormalizeOption.simps [simp del] normalizeOptionValue.simps [simp del] objectListOption.simps [simp del]

section \<open>Declarations\<close>

datatype option_problem =
    Invalid_name string | Duplicate_option string | Invalid_option_type string | Invalid_option_range string
  | Numeric_constraints string | Choices_on_non_string string | Fields_on_non_objects string
  | Invalid_default string option_error | Field_problem string option_problem

text \<open>The checks an option and the field of an object list have in common.\<close>

definition range_problem :: "opt \<Rightarrow> option_problem option" where
  "range_problem o' =
    (if (case (op_minimum o', op_maximum o') of (Some lo, Some hi) \<Rightarrow> lo > hi | _ \<Rightarrow> False)
     then Some (Invalid_option_range (op_name o'))
     else if op_type o' \<noteq> OptionInteger \<and> (op_minimum o' \<noteq> None \<or> op_maximum o' \<noteq> None)
     then Some (Numeric_constraints (op_name o'))
     else if op_type o' \<noteq> OptionString \<and> op_type o' \<noteq> OptionStringList \<and> op_choices o' \<noteq> []
     then Some (Choices_on_non_string (op_name o'))
     else None)"

definition default_problem :: "opt \<Rightarrow> option_problem option" where
  "default_problem o' =
    (if op_default o' = VNil then None
     else (case NormalizeOption o' (op_default o') of
       Inl e \<Rightarrow> Some (Invalid_default (op_name o') e) | Inr _ \<Rightarrow> None))"

definition first_problem :: "option_problem option list \<Rightarrow> option_problem option" where
  "first_problem ps = (case List.find (\<lambda>p. p \<noteq> None) ps of None \<Rightarrow> None | Some p \<Rightarrow> p)"

definition field_problem :: "string set \<Rightarrow> opt \<Rightarrow> option_problem option" where
  "field_problem seen f =
    (if op_name f = [] \<or> op_name f = ''severity'' then Some (Invalid_name (op_name f))
     else if op_name f \<in> seen then Some (Duplicate_option (op_name f))
     else if op_type f \<notin> {OptionBoolean, OptionInteger, OptionString, OptionStringList} \<or> op_fields f \<noteq> []
     then Some (Invalid_option_type (op_name f))
     else first_problem [range_problem f, default_problem f])"

fun validate_fields :: "string set \<Rightarrow> opt list \<Rightarrow> option_problem option" where
  "validate_fields seen [] = None"
| "validate_fields seen (f # fs) =
    (case field_problem seen f of
      Some p \<Rightarrow> Some p | None \<Rightarrow> validate_fields (insert (op_name f) seen) fs)"

definition validateObjectFields :: "opt list \<Rightarrow> option_problem option" where
  "validateObjectFields fields = validate_fields {} fields"

definition one_problem :: "string set \<Rightarrow> opt \<Rightarrow> option_problem option" where
  "one_problem seen o' =
    (if op_name o' = [] \<or> op_name o' = ''severity'' then Some (Invalid_name (op_name o'))
     else if op_name o' \<in> seen then Some (Duplicate_option (op_name o'))
     else if (case op_type o' of OptionTypeOther _ \<Rightarrow> True | _ \<Rightarrow> False) then Some (Invalid_option_type (op_name o'))
     else first_problem
       [range_problem o',
        if op_type o' \<noteq> OptionObjectList \<and> op_fields o' \<noteq> [] then Some (Fields_on_non_objects (op_name o')) else None,
        if op_type o' = OptionObjectList then map_option (Field_problem (op_name o')) (validateObjectFields (op_fields o'))
        else None,
        default_problem o'])"

fun validate_options :: "string set \<Rightarrow> opt list \<Rightarrow> option_problem option" where
  "validate_options seen [] = None"
| "validate_options seen (o' # os) =
    (case one_problem seen o' of
      Some p \<Rightarrow> Some p | None \<Rightarrow> validate_options (insert (op_name o') seen) os)"

definition validateOptions :: "opt list \<Rightarrow> option_problem option" where
  "validateOptions options = validate_options {} options"

section \<open>Normal forms\<close>

text \<open>What a normalized value looks like.\<close>

definition fits_simple :: "opt \<Rightarrow> go_value \<Rightarrow> bool" where
  "fits_simple o' v =
    (case (op_type o', v) of
      (OptionBoolean, VBool b) \<Rightarrow> True
    | (OptionInteger, VSigned i) \<Rightarrow>
        (\<forall>lo. op_minimum o' = Some lo \<longrightarrow> lo \<le> i) \<and> (\<forall>hi. op_maximum o' = Some hi \<longrightarrow> i \<le> hi)
    | (OptionString, VString s) \<Rightarrow> op_choices o' = [] \<or> s \<in> set (op_choices o')
    | (OptionStringList, VStrings ss) \<Rightarrow> op_choices o' = [] \<or> set ss \<subseteq> set (op_choices o')
    | _ \<Rightarrow> False)"

definition entry_fits :: "opt list \<Rightarrow> (string, go_value) fmap \<Rightarrow> bool" where
  "entry_fits fields m =
    ((\<forall>name v. fmlookup m name = Some v \<longrightarrow>
        (\<exists>f\<in>set fields. op_name f = name \<and> NormalizeOption f v = Inr v \<and> fits_simple f v)) \<and>
     (\<forall>f\<in>set fields. op_required f \<or> op_default f \<noteq> VNil \<longrightarrow> fmlookup m (op_name f) \<noteq> None))"

definition option_fits :: "opt \<Rightarrow> go_value \<Rightarrow> bool" where
  "option_fits o' v =
    ((case op_validate o' of None \<Rightarrow> True | Some validate \<Rightarrow> validate v = None) \<and>
     (if op_type o' = OptionObjectList
      then (\<exists>ms. v = VMaps ms \<and> (\<forall>m\<in>set ms. entry_fits (op_fields o') m))
      else fits_simple o' v))"

definition plain_type :: "opt \<Rightarrow> bool" where
  "plain_type o' = (op_type o' \<in> {OptionBoolean, OptionInteger, OptionString, OptionStringList})"

lemma simple_value:
  assumes "plain_type o'" and "normalizeOptionValue o' v = Inr w"
  shows "fits_simple o' w \<and> normalizeOptionValue o' w = Inr w"
  using assms
  by (cases "op_type o'")
    (auto simp: plain_type_def normalizeOptionValue.simps fits_simple_def integerOption_def stringListOption_def
      containsOptionChoice_def list_all_iff split: go_value.splits option.splits if_splits)

lemma simple_option:
  assumes "plain_type f" and "NormalizeOption f v = Inr w"
  shows "fits_simple f w \<and> NormalizeOption f w = Inr w \<and> option_fits f w"
  using assms simple_value [OF assms(1), of v]
  by (auto simp: NormalizeOption.simps option_fits_def plain_type_def split: sum.splits option.splits)

text \<open>A field list whose names differ, each of a plain type, as \<open>validateObjectFields\<close> demands.\<close>

definition fields_ok :: "opt list \<Rightarrow> bool" where
  "fields_ok fields = (distinct (map op_name fields) \<and> (\<forall>f\<in>set fields. plain_type f))"

lemma first_problem_None: "first_problem ps = None \<longleftrightarrow> (\<forall>p\<in>set ps. p = None)"
  by (induction ps) (auto simp: first_problem_def split: option.splits)

lemma first_problem_simps [simp]:
  "first_problem [] = None" "first_problem (None # ps) = first_problem ps" "first_problem (Some p # ps) = Some p"
  by (simp_all add: first_problem_def)

lemma validate_fields_ok:
  "validate_fields seen fs = None \<Longrightarrow> fields_ok fs \<and> (\<forall>f\<in>set fs. op_name f \<notin> seen)"
proof (induction fs arbitrary: seen)
  case (Cons f fs)
  then have f: "field_problem seen f = None" "validate_fields (insert (op_name f) seen) fs = None"
    by (auto split: option.splits)
  from f(1) have "op_name f \<notin> seen" "plain_type f"
    by (auto simp: field_problem_def plain_type_def split: if_splits)
  with Cons.IH [OF f(2)] show ?case by (auto simp: fields_ok_def)
qed (simp add: fields_ok_def)

lemma field_named_in:
  assumes "distinct (map op_name fs)" and "f \<in> set fs"
  shows "field_named fs (op_name f) = Some f"
proof -
  have "field_named fs (op_name f) \<noteq> None"
    using assms(2) by (auto simp: field_named_def find_None_iff)
  then obtain g where g: "field_named fs (op_name f) = Some g" by auto
  from field_named_mem [OF g] assms have "g = f" by (metis distinct_map inj_onD)
  with g show ?thesis by simp
qed

definition settled_entry :: "opt list \<Rightarrow> (string, go_value) fmap \<Rightarrow> bool" where
  "settled_entry fields m =
    (\<forall>name v. fmlookup m name = Some v \<longrightarrow>
      (\<exists>f\<in>set fields. op_name f = name \<and> NormalizeOption f v = Inr v \<and> fits_simple f v))"

lemma normalize_names_settled:
  "fields_ok fields \<Longrightarrow> settled_entry fields acc \<Longrightarrow> normalize_names fields i object names acc = Inr m \<Longrightarrow>
    settled_entry fields m"
proof (induction names arbitrary: acc)
  case (Cons name names)
  then obtain f v where f: "field_named fields name = Some f"
    "NormalizeOption f (case fmlookup object name of None \<Rightarrow> VNil | Some v \<Rightarrow> v) = Inr v"
    "normalize_names fields i object names (fmupd name v acc) = Inr m"
    by (auto split: option.splits sum.splits)
  have mem: "f \<in> set fields" "op_name f = name" using field_named_mem [OF f(1)] by auto
  have "settled_entry fields (fmupd name v acc)"
    using Cons.prems(1,2) mem simple_option [of f _ v] f(2) by (auto simp: settled_entry_def fields_ok_def)
  with Cons.IH Cons.prems(1) f(3) show ?case by blast
qed simp

text \<open>Filling in defaults keeps what is there.\<close>

lemma fill_defaults_keeps:
  "fill_defaults i fs acc = Inr m \<Longrightarrow> fmlookup acc name \<noteq> None \<Longrightarrow> fmlookup m name \<noteq> None"
  by (induction fs arbitrary: acc) (auto split: if_splits sum.splits)

lemma fill_defaults_settled:
  "fields_ok fields \<Longrightarrow> set fs \<subseteq> set fields \<Longrightarrow> settled_entry fields acc \<Longrightarrow> fill_defaults i fs acc = Inr m \<Longrightarrow>
    settled_entry fields m \<and>
    (\<forall>f\<in>set fs. op_required f \<or> op_default f \<noteq> VNil \<longrightarrow> fmlookup m (op_name f) \<noteq> None)"
proof (induction fs arbitrary: acc)
  case (Cons f fs)
  have fs: "set fs \<subseteq> set fields" "f \<in> set fields" using Cons.prems(2) by auto
  show ?case
  proof (cases "fmlookup acc (op_name f) \<noteq> None \<or> op_default f = VNil")
    case True
    with Cons.prems(4) have *: "fill_defaults i fs acc = Inr m" "op_required f \<longrightarrow> fmlookup acc (op_name f) \<noteq> None"
      by (auto split: if_splits)
    from Cons.IH [OF Cons.prems(1) fs(1) Cons.prems(3) *(1)] True *(2) fill_defaults_keeps [OF *(1), of "op_name f"]
    show ?thesis by auto
  next
    case False
    with Cons.prems(4) obtain v where v: "NormalizeOption f (op_default f) = Inr v"
      "fill_defaults i fs (fmupd (op_name f) v acc) = Inr m"
      by (auto split: if_splits sum.splits)
    have "plain_type f" using Cons.prems(1) fs(2) by (simp add: fields_ok_def)
    from simple_option [OF this v(1)] have "settled_entry fields (fmupd (op_name f) v acc)"
      using Cons.prems(3) fs(2) by (auto simp: settled_entry_def)
    from Cons.IH [OF Cons.prems(1) fs(1) this v(2)] fill_defaults_keeps [OF v(2), of "op_name f"]
    show ?thesis by simp
  qed
qed simp

lemma normalize_names_again:
  "fields_ok fields \<Longrightarrow> settled_entry fields m \<Longrightarrow> set names \<subseteq> fset (fmdom m) \<Longrightarrow>
    \<exists>r. normalize_names fields i m names acc = Inr r \<and>
      (\<forall>x. fmlookup r x = (if x \<in> set names then fmlookup m x else fmlookup acc x))"
proof (induction names arbitrary: acc)
  case (Cons name names)
  then obtain v where v: "fmlookup m name = Some v" by (auto simp: fmlookup_dom_iff)
  with Cons.prems(2) obtain f where f: "f \<in> set fields" "op_name f = name" "NormalizeOption f v = Inr v"
    by (auto simp: settled_entry_def)
  have "field_named fields name = Some f"
    using Cons.prems(1) f field_named_in by (auto simp: fields_ok_def)
  with v f(3) Cons.IH [OF Cons.prems(1,2), of "fmupd name v acc"] Cons.prems(3) show ?case by auto
qed simp

lemma fill_defaults_again:
  "\<forall>f\<in>set fs. op_required f \<or> op_default f \<noteq> VNil \<longrightarrow> fmlookup m (op_name f) \<noteq> None \<Longrightarrow>
    fill_defaults i fs m = Inr m"
  by (induction fs) auto

lemma normalize_items_settled:
  assumes fields: "fields_ok fields"
  shows "normalize_items fields i items = Inr ms \<Longrightarrow> \<forall>m\<in>set ms. entry_fits fields m"
proof (induction items arbitrary: i ms)
  case (Cons item items)
  then obtain object normalized m ms' where step:
    "normalize_names fields i object (sorted_list_of_fset (fmdom object)) fmempty = Inr normalized"
    "fill_defaults i fields normalized = Inr m" "normalize_items fields (Suc i) items = Inr ms'" "ms = m # ms'"
    by (cases item; cases "normalize_items fields (Suc i) items") (auto split: sum.splits)
  have "settled_entry fields normalized"
    by (rule normalize_names_settled [OF fields _ step(1)]) (simp add: settled_entry_def)
  from fill_defaults_settled [OF fields subset_refl this step(2)] have "entry_fits fields m"
    by (simp add: settled_entry_def entry_fits_def)
  with Cons.IH [OF step(3)] step(4) show ?case by simp
qed simp

lemma normalize_items_again:
  assumes fields: "fields_ok fields"
  shows "\<forall>m\<in>set ms. entry_fits fields m \<Longrightarrow> normalize_items fields i (map VMap ms) = Inr ms"
proof (induction ms arbitrary: i)
  case (Cons m ms)
  have m: "settled_entry fields m" using Cons.prems by (simp add: entry_fits_def settled_entry_def)
  from normalize_names_again [OF fields m, of "sorted_list_of_fset (fmdom m)" i fmempty] obtain r where
    r: "normalize_names fields i m (sorted_list_of_fset (fmdom m)) fmempty = Inr r"
      "\<And>x. fmlookup r x = (if x |\<in>| fmdom m then fmlookup m x else None)" by auto
  have "r = m" by (rule fmap_ext) (simp add: r(2) fmdom_notD)
  moreover have "fill_defaults i fields m = Inr m"
    using Cons.prems by (intro fill_defaults_again) (simp add: entry_fits_def)
  ultimately show ?case using r(1) Cons by simp
qed simp

text \<open>
  C24: what \<open>NormalizeOption\<close> accepts is a value of the option's type and within its constraints, with
  every required and defaulted field of an object, and normalizing it again changes nothing.
\<close>

theorem NormalizeOption_normal:
  assumes "validateOptions [o'] = None" and "NormalizeOption o' v = Inr w"
  shows "option_fits o' w \<and> NormalizeOption o' w = Inr w"
proof (cases "op_type o' = OptionObjectList")
  case False
  then have "plain_type o'"
    using assms(1)
    by (cases "op_type o'") (auto simp: plain_type_def validateOptions_def one_problem_def split: option.splits if_splits)
  with simple_option assms(2) show ?thesis by blast
next
  case True
  then have fields: "fields_ok (op_fields o')"
    using assms(1) validate_fields_ok
    by (auto simp: validateOptions_def one_problem_def first_problem_None validateObjectFields_def
        split: option.splits if_splits)
  from True assms(2) obtain items ms where "normalize_items (op_fields o') 0 items = Inr ms" "w = VMaps ms"
    and valid: "case op_validate o' of None \<Rightarrow> True | Some validate \<Rightarrow> validate w = None"
    by (auto simp: NormalizeOption.simps normalizeOptionValue.simps objectListOption.simps map_sum_def
        split: sum.splits option.splits go_value.splits)
  with normalize_items_settled [OF fields] normalize_items_again [OF fields] True show ?thesis
    by (auto simp: NormalizeOption.simps normalizeOptionValue.simps objectListOption.simps option_fits_def
        split: option.splits)
qed

definition example_option :: opt where
  "example_option =
    Opt ''limits'' OptionObjectList VNil None None []
      [Opt ''name'' OptionString VNil None None [] [] True None,
       Opt ''max'' OptionInteger (VFloat 3) (Some 0) (Some 9) [] [] False None] False None"

theorem NormalizeOption_normal_witness:
  "\<exists>m. NormalizeOption example_option (VList [VMap (fmap_of_list [(''name'', VString ''a'')])]) = Inr (VMaps [m]) \<and>
    fmlookup m ''max'' = Some (VSigned 3) \<and> NormalizeOption example_option (VMaps [m]) = Inr (VMaps [m])"
proof -
  note defs = NormalizeOption.simps normalizeOptionValue.simps objectListOption.simps integerOption_def
  let ?m = "fmupd ''max'' (VSigned 3) (fmupd ''name'' (VString ''a'') fmempty)"
  have "validateOptions [example_option] = None"
    by (simp add: validateOptions_def one_problem_def example_option_def validateObjectFields_def field_problem_def
        range_problem_def default_problem_def defs)
  moreover have "sorted_list_of_fset {|''name''|} = [''name'']" by (simp add: sorted_list_of_fset.rep_eq)
  then have run: "NormalizeOption example_option (VList [VMap (fmap_of_list [(''name'', VString ''a'')])]) = Inr (VMaps [?m])"
    by (simp add: example_option_def defs field_named_def fmap_of_list_simps)
  ultimately show ?thesis
    using NormalizeOption_normal [of example_option _ "VMaps [?m]"] by (intro exI [of _ ?m]) simp
qed

end
