(* ===== verification/Registry.thy ===== *)
theory Registry
  imports Options Diagnostic "HOL-Library.Word" "HOL-Library.Finite_Map"
begin

text \<open>
  The registry of rules (\<open>pkg/lint/registry.go\<close>, the types of \<open>pkg/lint/lint.go\<close>): registration, renamed
  rules, lookup and the rules of a profile. A rule is a value of a type parameter with its metadata; what
  the rule does when it runs is the business of the engine.
\<close>

section \<open>Metadata\<close>

datatype analysis_level = SyntaxAnalysis | SemanticAnalysis | ControlFlowAnalysis | ProjectAnalysis

fun level_rank :: "analysis_level \<Rightarrow> nat" where
  "level_rank SyntaxAnalysis = 0"
| "level_rank SemanticAnalysis = 1"
| "level_rank ControlFlowAnalysis = 2"
| "level_rank ProjectAnalysis = 3"

lemma level_rank_inject: "level_rank a = level_rank b \<Longrightarrow> a = b"
  by (cases a; cases b) auto

text \<open>Levels are compared as the numbers they are.\<close>

instantiation analysis_level :: linorder
begin

definition less_eq_analysis_level :: "analysis_level \<Rightarrow> analysis_level \<Rightarrow> bool" where
  "less_eq_analysis_level a b = (level_rank a \<le> level_rank b)"

definition less_analysis_level :: "analysis_level \<Rightarrow> analysis_level \<Rightarrow> bool" where
  "less_analysis_level a b = (level_rank a < level_rank b)"

instance
  by standard (auto simp: less_eq_analysis_level_def less_analysis_level_def dest: level_rank_inject)

end

text \<open>The needs of a rule are bits of a 16-bit word.\<close>

type_synonym requirements = "16 word"

definition NeedSyntax :: requirements where "NeedSyntax = 1"
definition NeedPreprocessor :: requirements where "NeedPreprocessor = 2"
definition NeedLocalSymbols :: requirements where "NeedLocalSymbols = 4"
definition NeedNames :: requirements where "NeedNames = 8"
definition NeedTags :: requirements where "NeedTags = 16"
definition NeedConstants :: requirements where "NeedConstants = 32"
definition NeedControlFlow :: requirements where "NeedControlFlow = 64"
definition NeedAPI :: requirements where "NeedAPI = 128"
definition NeedWorkspace :: requirements where "NeedWorkspace = 256"

definition Has :: "requirements \<Rightarrow> requirements \<Rightarrow> bool" where
  "Has r requirement = (and r requirement \<noteq> 0)"

datatype rule_scope =
    ScopeNone | ScopeToken | ScopeSyntax | ScopeFunction | ScopeDeclaration | ScopeFile | ScopeWorkspace | ScopeExternal

datatype stability = StabilityStable | StabilityPreview | StabilityOther nat

text \<open>The texts of the documentation are left out: nothing here reads them.\<close>

record metadata =
  md_id :: string
  md_category :: category
  md_severity :: severity
  md_level :: analysis_level
  md_requirements :: requirements
  md_scope :: rule_scope
  md_stability :: stability
  md_enabled :: bool
  md_options :: "opt list"

definition requirementsForLevel :: "analysis_level \<Rightarrow> requirements" where
  "requirementsForLevel level =
    or NeedSyntax
     (or (if level \<ge> SemanticAnalysis then or NeedLocalSymbols (or NeedNames NeedTags) else 0)
      (or (if level \<ge> ControlFlowAnalysis then or NeedConstants NeedControlFlow else 0)
        (if level \<ge> ProjectAnalysis then or NeedPreprocessor NeedWorkspace else 0)))"

definition scopeForLevel :: "analysis_level \<Rightarrow> rule_scope" where
  "scopeForLevel level = (if level \<ge> ProjectAnalysis then ScopeWorkspace else ScopeFile)"

section \<open>Profiles\<close>

definition ProfileRecommended :: string where "ProfileRecommended = ''recommended''"
definition ProfileStrict :: string where "ProfileStrict = ''strict''"
definition ProfileAll :: string where "ProfileAll = ''all''"

definition AllProfiles :: "string list" where
  "AllProfiles = [ProfileRecommended, ProfileStrict, ProfileAll]"

definition AllowedProfile :: "string \<Rightarrow> bool" where
  "AllowedProfile p = (p \<in> {ProfileRecommended, ProfileStrict, ProfileAll})"

text \<open>The package variable \<open>curate\<close> is an argument of what reads it, with this value at the start.\<close>

type_synonym curation = "string \<rightharpoonup> string set"

definition curate_strict :: "string list" where
  "curate_strict =
    [''unused-local'', ''unused-parameter'', ''unused-function'', ''unused-global'', ''shadowed-variable'',
    ''unused-label'', ''constant-condition'', ''duplicate-condition'', ''redundant-boolean-comparison'',
    ''identical-branches'', ''dead-write'', ''redundant-initialization'', ''possibly-uninitialized'',
    ''discarded-resource-handle'', ''mismatched-resource-handle'', ''unreleased-resource-handle'',
    ''overwritten-resource-handle'', ''recursive-call'', ''large-local-array'', ''repeated-strlen-in-loop'',
    ''callback-signature'', ''misspelled-callback'', ''unimplemented-function'', ''deprecated-function'',
    ''legacy-include'', ''native-argument-count'', ''deprecated-native'', ''format-argument-count'',
    ''buffer-size'', ''target-native-availability'', ''target-constant-availability'', ''float-equality'',
    ''non-public-callback'', ''invalid-sentinel-comparison'', ''unescaped-sql-format'',
    ''discarded-repeating-timer'', ''raw-tick-subtraction'', ''sscanf-format-argument-count'',
    ''settimerex-format-argument-count'', ''confusable-identifier'', ''inconsistent-enum-prefix'',
    ''cyclomatic-complexity'', ''boolean-complexity'', ''maximum-nesting'', ''too-many-parameters'',
    ''prefer-const'', ''redundant-forward'', ''redundant-tag'', ''redundant-else'',
    ''incomplete-enum-switch'', ''narrowing-conversion'', ''signedness-mismatch'',
    ''macro-repeated-parameter'', ''statement-macro-hazard'', ''loop-invariant-call'', ''overwritten-copy'',
    ''repeated-format-work'', ''string-concatenation-loop'']"

definition curate :: curation where
  "curate = [ProfileStrict \<mapsto> set curate_strict]"

definition profileEnables :: "curation \<Rightarrow> string \<Rightarrow> string \<Rightarrow> metadata \<Rightarrow> bool" where
  "profileEnables cur p ident m =
    (if md_stability m = StabilityPreview then False
     else if p = ProfileAll then True
     else if p = ProfileStrict then
       (case cur ProfileStrict of None \<Rightarrow> md_enabled m | Some ids \<Rightarrow> ident \<in> ids \<or> md_enabled m)
     else md_enabled m)"

definition EnableUnderProfile :: "string \<Rightarrow> string \<Rightarrow> curation \<Rightarrow> curation" where
  "EnableUnderProfile p ident cur =
    (case cur p of None \<Rightarrow> cur | Some ids \<Rightarrow> cur(p \<mapsto> insert ident ids))"

section \<open>Registering\<close>

record 'r registrar =
  rg_entries :: "('r \<times> metadata) list"
  rg_byID :: "string \<rightharpoonup> nat"
  rg_aliases :: "(string \<times> string) list"

datatype registry_error =
    Nil_rule | Missing_ID | Invalid_stability string | Invalid_option string option_problem | Duplicate_ID string
  | Conflicts_with_alias string | Invalid_alias string string | Conflicts_with_rule string | Duplicate_alias string
  | Unknown_target string string

definition NewRegistrar :: "'r registrar" where
  "NewRegistrar = \<lparr>rg_entries = [], rg_byID = Map.empty, rg_aliases = []\<rparr>"

text \<open>The metadata as registered: needs and scope that are not given follow from the level.\<close>

definition completed :: "metadata \<Rightarrow> metadata" where
  "completed m =
    m\<lparr>md_requirements := (if md_requirements m = 0 then requirementsForLevel (md_level m) else md_requirements m),
      md_scope := (if md_scope m = ScopeNone then scopeForLevel (md_level m) else md_scope m)\<rparr>"

definition Register :: "('r \<Rightarrow> metadata) \<Rightarrow> 'r option \<Rightarrow> 'r registrar \<Rightarrow> registry_error + 'r registrar" where
  "Register metadata_of r reg =
    (case r of
      None \<Rightarrow> Inl Nil_rule
    | Some rule \<Rightarrow>
        (let m = metadata_of rule in
         if md_id m = [] then Inl Missing_ID
         else if md_stability m \<notin> {StabilityStable, StabilityPreview} then Inl (Invalid_stability (md_id m))
         else (case validateOptions (md_options m) of
           Some p \<Rightarrow> Inl (Invalid_option (md_id m) p)
         | None \<Rightarrow>
             if rg_byID reg (md_id m) \<noteq> None then Inl (Duplicate_ID (md_id m))
             else if map_of (rg_aliases reg) (md_id m) \<noteq> None then Inl (Conflicts_with_alias (md_id m))
             else Inr (reg\<lparr>rg_byID := (rg_byID reg)(md_id m \<mapsto> length (rg_entries reg)),
               rg_entries := rg_entries reg @ [(rule, completed m)]\<rparr>))))"

definition RegisterAlias :: "string \<Rightarrow> string \<Rightarrow> 'r registrar \<Rightarrow> registry_error + 'r registrar" where
  "RegisterAlias deprecated replacement reg =
    (if deprecated = [] \<or> replacement = [] \<or> deprecated = replacement then Inl (Invalid_alias deprecated replacement)
     else if rg_byID reg deprecated \<noteq> None then Inl (Conflicts_with_rule deprecated)
     else if map_of (rg_aliases reg) deprecated \<noteq> None then Inl (Duplicate_alias deprecated)
     else if rg_byID reg replacement = None then Inl (Unknown_target deprecated replacement)
     else Inr (reg\<lparr>rg_aliases := (deprecated, replacement) # rg_aliases reg\<rparr>))"

section \<open>Looking up\<close>

text \<open>The identifier in use, and whether the given one is a deprecated name of it.\<close>

definition ResolveID :: "'r registrar \<Rightarrow> string \<Rightarrow> (string \<times> bool) option" where
  "ResolveID reg ident =
    (if rg_byID reg ident \<noteq> None then Some (ident, False)
     else map_option (\<lambda>replacement. (replacement, True)) (map_of (rg_aliases reg) ident))"

definition Aliases :: "'r registrar \<Rightarrow> (string \<times> string) list" where
  "Aliases reg = stable_sort (\<lambda>a b. fst a < fst b) (rg_aliases reg)"

definition IDs :: "'r registrar \<Rightarrow> string list" where
  "IDs reg = map (\<lambda>e. md_id (snd e)) (rg_entries reg)"

definition All :: "'r registrar \<Rightarrow> metadata list" where
  "All reg = map snd (rg_entries reg)"

definition registry_entry :: "'r registrar \<Rightarrow> string \<Rightarrow> ('r \<times> metadata) option" where
  "registry_entry reg ident =
    (case ResolveID reg ident of
      None \<Rightarrow> None
    | Some (current, deprecated) \<Rightarrow> map_option (\<lambda>i. rg_entries reg ! i) (rg_byID reg current))"

definition Lookup_rule :: "'r registrar \<Rightarrow> string \<Rightarrow> metadata option" where
  "Lookup_rule reg ident = map_option snd (registry_entry reg ident)"

definition Rule :: "'r registrar \<Rightarrow> string \<Rightarrow> 'r option" where
  "Rule reg ident = map_option fst (registry_entry reg ident)"

definition Sorted :: "'r registrar \<Rightarrow> metadata list" where
  "Sorted reg = stable_sort (\<lambda>a b. md_id a < md_id b) (All reg)"

text \<open>The map of a profile, built by the loop over the entries.\<close>

fun enabled_loop ::
  "curation \<Rightarrow> string \<Rightarrow> ('r \<times> metadata) list \<Rightarrow> (string, severity) fmap \<Rightarrow> (string, severity) fmap" where
  "enabled_loop cur p [] enabled = enabled"
| "enabled_loop cur p (e # es) enabled =
    (if profileEnables cur p (md_id (snd e)) (snd e)
     then enabled_loop cur p es (fmupd (md_id (snd e)) (md_severity (snd e)) enabled)
     else enabled_loop cur p es enabled)"

definition EnabledForProfile :: "curation \<Rightarrow> 'r registrar \<Rightarrow> string \<Rightarrow> (string, severity) fmap" where
  "EnabledForProfile cur reg p = enabled_loop cur p (rg_entries reg) fmempty"


section \<open>What the registry promises\<close>

text \<open>
  The interface the suppression matcher, the configuration and the engine use: identifiers are resolved
  against the registered ones. \<open>known\<close> says that an identifier is registered, \<open>ok\<close> is the provider's
  invariant.
\<close>

locale rule_names =
  fixes ok :: "'s \<Rightarrow> bool"
    and known :: "'s \<Rightarrow> string \<Rightarrow> bool"
    and resolve :: "'s \<Rightarrow> string \<Rightarrow> (string \<times> bool) option"
  assumes resolve_known: "ok s \<Longrightarrow> known s i \<Longrightarrow> resolve s i = Some (i, False)"
    and resolve_target: "ok s \<Longrightarrow> resolve s i = Some (c, d) \<Longrightarrow> known s c"
    and resolve_current: "ok s \<Longrightarrow> resolve s i = Some (c, False) \<Longrightarrow> c = i"
    and resolve_renamed: "ok s \<Longrightarrow> resolve s i = Some (c, True) \<Longrightarrow> \<not> known s i"
begin

lemma resolve_again: "ok s \<Longrightarrow> resolve s i = Some (c, d) \<Longrightarrow> resolve s c = Some (c, False)"
  using resolve_known resolve_target by blast

lemma known_iff: "ok s \<Longrightarrow> known s i \<longleftrightarrow> resolve s i = Some (i, False)"
  using resolve_known resolve_target by blast

lemma deprecated_iff: "ok s \<Longrightarrow> resolve s i = Some (c, d) \<Longrightarrow> d \<longleftrightarrow> c \<noteq> i"
  by (metis (full_types) resolve_current resolve_renamed resolve_target)

end

text \<open>
  The invariant of the registry: \<open>byID\<close> is the index of the entries by identifier, and a renamed
  identifier is no rule of its own and stands for a registered one.
\<close>

definition registrar_ok :: "'r registrar \<Rightarrow> bool" where
  "registrar_ok reg \<longleftrightarrow>
    (\<forall>ident i. rg_byID reg ident = Some i \<longleftrightarrow> i < length (rg_entries reg) \<and> IDs reg ! i = ident) \<and>
    distinct (map fst (rg_aliases reg)) \<and>
    (\<forall>(deprecated, replacement) \<in> set (rg_aliases reg).
      deprecated \<notin> set (IDs reg) \<and> replacement \<in> set (IDs reg))"

text \<open>The registries the program builds: by registering rules and renamed rules, errors leave it as it is.\<close>

inductive built :: "('r \<Rightarrow> metadata) \<Rightarrow> 'r registrar \<Rightarrow> bool" for metadata_of where
  built_new: "built metadata_of NewRegistrar"
| built_rule: "built metadata_of reg \<Longrightarrow> Register metadata_of r reg = Inr reg' \<Longrightarrow> built metadata_of reg'"
| built_alias: "built metadata_of reg \<Longrightarrow> RegisterAlias old new reg = Inr reg' \<Longrightarrow> built metadata_of reg'"

lemma byID_None: "registrar_ok reg \<Longrightarrow> rg_byID reg ident = None \<longleftrightarrow> ident \<notin> set (IDs reg)"
  unfolding registrar_ok_def
  by (metis (no_types, lifting) IDs_def in_set_conv_nth length_map not_None_eq)

lemma Register_Inr:
  assumes "Register metadata_of r reg = Inr reg'"
  obtains rule where "r = Some rule" "md_id (metadata_of rule) \<noteq> []"
    "validateOptions (md_options (metadata_of rule)) = None"
    "rg_byID reg (md_id (metadata_of rule)) = None"
    "map_of (rg_aliases reg) (md_id (metadata_of rule)) = None"
    "reg' = reg\<lparr>rg_byID := (rg_byID reg)(md_id (metadata_of rule) \<mapsto> length (rg_entries reg)),
      rg_entries := rg_entries reg @ [(rule, completed (metadata_of rule))]\<rparr>"
  using assms by (auto simp: Register_def Let_def split: option.splits if_splits)

lemma completed_id [simp]: "md_id (completed m) = md_id m"
  by (simp add: completed_def)

lemma alias_in:
  "registrar_ok reg \<Longrightarrow> (d, r) \<in> set (rg_aliases reg) \<Longrightarrow> d \<notin> set (IDs reg) \<and> r \<in> set (IDs reg)"
  unfolding registrar_ok_def by blast

lemma Register_ok:
  assumes "registrar_ok reg" "Register metadata_of r reg = Inr reg'"
  shows "registrar_ok reg'"
  using assms(2)
proof (rule Register_Inr)
  fix rule
  let ?m = "metadata_of rule"
  assume fresh: "rg_byID reg (md_id ?m) = None" "map_of (rg_aliases reg) (md_id ?m) = None"
    and reg': "reg' = reg\<lparr>rg_byID := (rg_byID reg)(md_id ?m \<mapsto> length (rg_entries reg)),
      rg_entries := rg_entries reg @ [(rule, completed ?m)]\<rparr>"
  have ids: "IDs reg' = IDs reg @ [md_id ?m]" by (simp add: reg' IDs_def)
  have new: "md_id ?m \<notin> set (IDs reg)" using fresh(1) byID_None [OF assms(1)] by blast
  have len: "length (IDs reg) = length (rg_entries reg)" "length (rg_entries reg') = Suc (length (rg_entries reg))"
    by (simp_all add: IDs_def reg')
  have byID: "rg_byID reg' = (rg_byID reg)(md_id ?m \<mapsto> length (rg_entries reg))"
    and aliases: "rg_aliases reg' = rg_aliases reg"
    by (simp_all add: reg')
  have "rg_byID reg' ident = Some i \<longleftrightarrow> i < length (rg_entries reg') \<and> IDs reg' ! i = ident" for ident i
  proof (cases "i = length (rg_entries reg)")
    case True
    with assms(1) show ?thesis by (auto simp: byID ids nth_append len registrar_ok_def)
  next
    case False
    have "IDs reg ! i = md_id ?m \<Longrightarrow> \<not> i < length (rg_entries reg)"
      using new len by (metis nth_mem)
    with False assms(1) show ?thesis by (auto simp: byID ids nth_append len registrar_ok_def)
  qed
  moreover have "md_id ?m \<notin> fst ` set (rg_aliases reg)"
    using fresh(2) by (simp add: map_of_eq_None_iff)
  then have "\<forall>(d, r) \<in> set (rg_aliases reg'). d \<notin> set (IDs reg') \<and> r \<in> set (IDs reg')"
    using alias_in [OF assms(1)] by (force simp: aliases ids)
  moreover have "distinct (map fst (rg_aliases reg'))"
    using assms(1) unfolding registrar_ok_def aliases by blast
  ultimately show "registrar_ok reg'" unfolding registrar_ok_def by blast
qed

lemma RegisterAlias_ok:
  assumes "registrar_ok reg" "RegisterAlias old new reg = Inr reg'"
  shows "registrar_ok reg'"
proof -
  have reg': "reg' = reg\<lparr>rg_aliases := (old, new) # rg_aliases reg\<rparr>"
    and new: "rg_byID reg old = None" "map_of (rg_aliases reg) old = None" "rg_byID reg new \<noteq> None"
    using assms(2) by (auto simp: RegisterAlias_def split: if_splits)
  from new have "old \<notin> set (IDs reg)" "new \<in> set (IDs reg)" "old \<notin> fst ` set (rg_aliases reg)"
    using byID_None [OF assms(1)] by (auto simp: map_of_eq_None_iff)
  then have "distinct (map fst ((old, new) # rg_aliases reg))"
    "\<forall>(d, r) \<in> set ((old, new) # rg_aliases reg). d \<notin> set (IDs reg) \<and> r \<in> set (IDs reg)"
    using assms(1) unfolding registrar_ok_def by simp_all
  moreover have "IDs reg' = IDs reg" "rg_byID reg' = rg_byID reg" "rg_entries reg' = rg_entries reg"
    "rg_aliases reg' = (old, new) # rg_aliases reg" by (simp_all add: reg' IDs_def)
  ultimately show ?thesis using assms(1) unfolding registrar_ok_def by metis
qed

lemma built_ok: "built metadata_of reg \<Longrightarrow> registrar_ok reg"
proof (induction rule: built.induct)
  case built_new
  show ?case by (simp add: registrar_ok_def NewRegistrar_def IDs_def)
qed (blast intro: Register_ok RegisterAlias_ok)+

lemma alias_target:
  "registrar_ok reg \<Longrightarrow> map_of (rg_aliases reg) ident = Some c \<Longrightarrow>
    ident \<notin> set (IDs reg) \<and> c \<in> set (IDs reg)"
  by (rule alias_in) (auto dest: map_of_SomeD)

interpretation names: rule_names registrar_ok "\<lambda>reg i. i \<in> set (IDs reg)" ResolveID
  by unfold_locales
    (auto simp: ResolveID_def byID_None split: if_splits dest: alias_target)

lemma registry_entry_known:
  assumes "registrar_ok reg" "ResolveID reg ident = Some (c, d)"
  shows "\<exists>i < length (rg_entries reg). rg_byID reg c = Some i \<and> md_id (snd (rg_entries reg ! i)) = c \<and>
    registry_entry reg ident = Some (rg_entries reg ! i)"
proof -
  have "c \<in> set (IDs reg)" using names.resolve_target assms by blast
  then obtain i where i: "rg_byID reg c = Some i" using byID_None [OF assms(1)] by auto
  then have "i < length (rg_entries reg)" "IDs reg ! i = c" using assms(1) unfolding registrar_ok_def by blast+
  with i assms(2) show ?thesis by (auto simp: registry_entry_def IDs_def)
qed

lemma built_completed:
  "built metadata_of reg \<Longrightarrow> \<forall>(r, m) \<in> set (rg_entries reg). m = completed (metadata_of r)"
proof (induction rule: built.induct)
  case (built_rule reg r reg')
  obtain rule byID where "reg' = reg\<lparr>rg_byID := byID, rg_entries := rg_entries reg @ [(rule, completed (metadata_of rule))]\<rparr>"
    using Register_Inr [OF built_rule(2)] by metis
  with built_rule(3) show ?case by auto
qed (auto simp: NewRegistrar_def RegisterAlias_def split: if_splits)

text \<open>The loop that collects a profile, and the list of rules by identifier.\<close>

lemma enabled_loop_spec:
  "distinct (map (\<lambda>e. md_id (snd e)) es) \<Longrightarrow>
    fmlookup (enabled_loop cur p es enabled) ident =
      (case find (\<lambda>e. md_id (snd e) = ident) es of
        Some e \<Rightarrow> (if profileEnables cur p ident (snd e) then Some (md_severity (snd e)) else fmlookup enabled ident)
      | None \<Rightarrow> fmlookup enabled ident)"
proof (induction es arbitrary: enabled)
  case (Cons e es)
  have "find (\<lambda>e. md_id (snd e) = ident) es = None" if "md_id (snd e) = ident"
    using Cons.prems that unfolding find_None_iff by (metis (no_types, lifting) distinct.simps(2) image_eqI list.map(2) list.set_map)
  with Cons show ?case by (auto split: option.splits)
qed simp


lemma IDs_distinct: "registrar_ok reg \<Longrightarrow> distinct (IDs reg)"
  unfolding registrar_ok_def distinct_conv_nth by (metis IDs_def length_map option.inject)

lemma find_entry:
  assumes "registrar_ok reg"
  shows "find (\<lambda>e. md_id (snd e) = ident) (rg_entries reg) =
    map_option (\<lambda>i. rg_entries reg ! i) (rg_byID reg ident)"
proof (cases "rg_byID reg ident")
  case None
  then have "ident \<notin> set (IDs reg)" using byID_None [OF assms] by blast
  then have "find (\<lambda>e. md_id (snd e) = ident) (rg_entries reg) = None"
    unfolding find_None_iff IDs_def by force
  with None show ?thesis by simp
next
  case (Some i)
  then have i: "i < length (rg_entries reg)" "IDs reg ! i = ident"
    using assms unfolding registrar_ok_def by blast+
  then have "md_id (snd (rg_entries reg ! i)) = ident" by (simp add: IDs_def)
  have "j = i" if "j < length (rg_entries reg)" "md_id (snd (rg_entries reg ! j)) = ident" for j
    using IDs_distinct [OF assms] i that by (simp add: IDs_def distinct_conv_nth) metis
  then have "j < i \<Longrightarrow> md_id (snd (rg_entries reg ! j)) \<noteq> ident" for j
    using order_less_trans [OF _ i(1), of j] by blast
  then have "find (\<lambda>e. md_id (snd e) = ident) (rg_entries reg) = Some (rg_entries reg ! i)"
    unfolding find_Some_iff using i(1) \<open>md_id (snd (rg_entries reg ! i)) = ident\<close>
    by (intro exI [of _ i] conjI refl allI impI)
  with Some show ?thesis by simp
qed

lemma EnabledForProfile_spec:
  assumes "registrar_ok reg"
  shows "fmlookup (EnabledForProfile cur reg p) ident =
    (case Lookup_rule reg ident of
      Some m \<Rightarrow> if md_id m = ident \<and> profileEnables cur p ident m then Some (md_severity m) else None
    | None \<Rightarrow> None)"
proof (cases "ident \<in> set (IDs reg)")
  case True
  then have res: "ResolveID reg ident = Some (ident, False)" by (rule names.resolve_known [OF assms])
  from registry_entry_known [OF assms res] show ?thesis
    using IDs_distinct [OF assms]
    by (auto simp: EnabledForProfile_def enabled_loop_spec IDs_def find_entry assms Lookup_rule_def)
next
  case False
  then have none: "rg_byID reg ident = None" using byID_None [OF assms] by blast
  have "md_id m \<noteq> ident" if "Lookup_rule reg ident = Some m" for m
  proof (cases "ResolveID reg ident")
    case None
    with that show ?thesis by (simp add: Lookup_rule_def registry_entry_def)
  next
    case (Some r)
    then obtain c d where res: "ResolveID reg ident = Some (c, d)" by (cases r) auto
    from registry_entry_known [OF assms res] that have "md_id m = c" by (auto simp: Lookup_rule_def)
    with names.resolve_target [OF assms res] False show ?thesis by blast
  qed
  with none IDs_distinct [OF assms] show ?thesis
    by (auto simp: EnabledForProfile_def enabled_loop_spec IDs_def find_entry assms split: option.splits)
qed

text \<open>
  C25: In every registry the program can build, by registering rules and renamed rules in any order, the
  identifiers are pairwise different and none is empty; a rule is found under its own identifier; a renamed
  identifier, which is never a rule of its own, stands for one registered rule, and looking it up finds that
  rule; what is found is the metadata the rule declared, completed; and a profile holds exactly the rules it
  selects, at the severity they declare.
\<close>

theorem built_registry_correct:
  assumes "built metadata_of reg"
  shows "distinct (IDs reg) \<and>
    (\<forall>ident c d. ResolveID reg ident = Some (c, d) \<longrightarrow>
      c \<in> set (IDs reg) \<and> ResolveID reg c = Some (c, False) \<and> d = (c \<noteq> ident) \<and>
      Lookup_rule reg ident = Lookup_rule reg c \<and> Rule reg ident = Rule reg c \<and>
      (\<exists>r. Rule reg c = Some r \<and> md_id (metadata_of r) = c \<and> Lookup_rule reg c = Some (completed (metadata_of r)))) \<and>
    (\<forall>ident. ResolveID reg ident = None \<longrightarrow> ident \<notin> set (IDs reg) \<and> Lookup_rule reg ident = None) \<and>
    (\<forall>cur p ident. fmlookup (EnabledForProfile cur reg p) ident =
      (case Lookup_rule reg ident of
        Some m \<Rightarrow> if md_id m = ident \<and> profileEnables cur p ident m then Some (md_severity m) else None
      | None \<Rightarrow> None))"
  (is "?distinct \<and> ?resolve \<and> ?unknown \<and> ?profile")
proof -
  have ok: "registrar_ok reg" using built_ok assms .
  have ?distinct using IDs_distinct ok .
  have ?resolve
  proof (intro allI impI)
    fix ident c d
    assume res: "ResolveID reg ident = Some (c, d)"
    have c: "ResolveID reg c = Some (c, False)" using names.resolve_again ok res .
    obtain i where i: "i < length (rg_entries reg)" "md_id (snd (rg_entries reg ! i)) = c"
      "registry_entry reg ident = Some (rg_entries reg ! i)" "registry_entry reg c = Some (rg_entries reg ! i)"
      using registry_entry_known [OF ok res] registry_entry_known [OF ok c] by (metis option.inject)
    obtain r m where e: "rg_entries reg ! i = (r, m)" by force
    have "m = completed (metadata_of r)" using built_completed [OF assms] i(1) e nth_mem by fastforce
    with i e have "Lookup_rule reg ident = Some m" "Lookup_rule reg c = Some m" "Rule reg ident = Some r"
      "Rule reg c = Some r" "m = completed (metadata_of r)" "md_id (metadata_of r) = c"
      by (simp_all add: Lookup_rule_def Rule_def)
    then have "Lookup_rule reg ident = Lookup_rule reg c \<and> Rule reg ident = Rule reg c \<and>
      (\<exists>r. Rule reg c = Some r \<and> md_id (metadata_of r) = c \<and> Lookup_rule reg c = Some (completed (metadata_of r)))"
      by simp
    with c names.resolve_target [OF ok res] names.deprecated_iff [OF ok res]
    show "c \<in> set (IDs reg) \<and> ResolveID reg c = Some (c, False) \<and> d = (c \<noteq> ident) \<and>
      Lookup_rule reg ident = Lookup_rule reg c \<and> Rule reg ident = Rule reg c \<and>
      (\<exists>r. Rule reg c = Some r \<and> md_id (metadata_of r) = c \<and> Lookup_rule reg c = Some (completed (metadata_of r)))"
      by blast
  qed
  moreover have ?unknown
    using names.resolve_known [OF ok] by (auto simp: Lookup_rule_def registry_entry_def)
  moreover have ?profile using EnabledForProfile_spec [OF ok] by blast
  ultimately show ?thesis using \<open>?distinct\<close> by blast
qed


definition example_rule :: "string \<Rightarrow> metadata" where
  "example_rule name =
    \<lparr>md_id = name, md_category = CategoryStyle, md_severity = SeverityWarning, md_level = SemanticAnalysis,
     md_requirements = 0, md_scope = ScopeNone, md_stability = StabilityStable, md_enabled = True, md_options = []\<rparr>"

definition example_registry :: "string registrar" where
  "example_registry =
    (case Register example_rule (Some ''unused-local'') NewRegistrar of
      Inl e \<Rightarrow> NewRegistrar
    | Inr reg \<Rightarrow> (case RegisterAlias ''unused-variable'' ''unused-local'' reg of Inl e \<Rightarrow> reg | Inr reg \<Rightarrow> reg))"

lemma example_built: "built example_rule example_registry"
  unfolding example_registry_def
  by (auto split: sum.splits intro: built_new built_rule [OF built_new]
      built_alias [OF built_rule [OF built_new]])

theorem built_registry_correct_witness:
  "ResolveID example_registry ''unused-variable'' = Some (''unused-local'', True) \<and>
    Lookup_rule example_registry ''unused-variable'' = Some (completed (example_rule ''unused-local'')) \<and>
    distinct (IDs example_registry)"
proof -
  have r: "ResolveID example_registry ''unused-variable'' = Some (''unused-local'', True)"
    by code_simp
  have e: "Rule example_registry ''unused-local'' = Some ''unused-local''" by code_simp
  from built_registry_correct [OF example_built] r e show ?thesis by fastforce
qed

end
