(* ===== verification/Config.thy ===== *)
theory Config
  imports Registry Glob Go_Paths "HOL-Library.Finite_Map"
begin

text \<open>
  The configuration (\<open>internal/config\<close>): the configuration file and its presets, the resolution of the rules
  a run uses, the overrides of the command line and of single paths. Decoding TOML, JSON and YAML is left to
  libraries: the decoded files are the arguments here.
\<close>

section \<open>The configuration file\<close>

definition TargetOpenMP :: string where "TargetOpenMP = ''openmp''"
definition TargetSAMP :: string where "TargetSAMP = ''samp''"

definition allowedTarget :: "string \<Rightarrow> bool" where
  "allowedTarget t = (t \<in> {TargetOpenMP, TargetSAMP, []})"

record lint_section =
  ls_warningsAsErrors :: bool
  ls_maxDiagnostics :: int

record external_rule =
  er_name :: string
  er_command :: string
  er_arguments :: "string list"
  er_timeoutMS :: int
  er_configuration :: "(string, go_value) fmap"

record file_presence =
  pr_warningsAsErrors :: bool
  pr_maxDiagnostics :: bool

record build =
  bd_name :: string
  bd_entry :: string
  bd_workingDirectory :: string
  bd_files :: "string list"
  bd_exclude :: "string list"
  bd_includePaths :: "string list"
  bd_defines :: "string list"
  bd_target :: string

record variant =
  vr_name :: string
  vr_defines :: "string list"

record override =
  ov_paths :: "string list"
  ov_rules :: "(string, go_value) fmap"

text \<open>Slices that the code compares with \<open>nil\<close> are options; a \<open>nil\<close> map of rules is the empty map.\<close>

record config_file =
  cf_presets :: "string list"
  cf_profile :: string
  cf_target :: string
  cf_include :: "string list option"
  cf_exclude :: "string list option"
  cf_defines :: "string list option"
  cf_includePaths :: "string list option"
  cf_apiMetadata :: "string list option"
  cf_baseline :: string
  cf_cache :: string
  cf_lint :: lint_section
  cf_rules :: "(string, go_value) fmap"
  cf_builds :: "build list option"
  cf_variants :: "variant list option"
  cf_overrides :: "override list option"
  cf_externalRules :: "external_rule list option"
  cf_presence :: file_presence

text \<open>\<open>range\<close> and \<open>len\<close> do not tell a \<open>nil\<close> slice from an empty one; copying with \<open>append\<close> makes the latter \<open>nil\<close>.\<close>

definition elems :: "'a list option \<Rightarrow> 'a list" where
  "elems s = (case s of None \<Rightarrow> [] | Some xs \<Rightarrow> xs)"

definition cloneStrings :: "'a list option \<Rightarrow> 'a list option" where
  "cloneStrings values' = (case values' of None \<Rightarrow> None | Some [] \<Rightarrow> None | Some xs \<Rightarrow> Some xs)"

definition Defaults :: config_file where
  "Defaults =
    \<lparr>cf_presets = [], cf_profile = ProfileRecommended, cf_target = TargetOpenMP,
     cf_include = Some [''gamemodes/**/*.pwn'', ''filterscripts/**/*.pwn'', ''includes/**/*.inc''],
     cf_exclude = Some [''vendor/**'', ''dependencies/**'', ''generated/**''],
     cf_defines = Some [], cf_includePaths = Some [], cf_apiMetadata = Some [], cf_baseline = [], cf_cache = [],
     cf_lint = \<lparr>ls_warningsAsErrors = False, ls_maxDiagnostics = 0\<rparr>, cf_rules = fmempty,
     cf_builds = None, cf_variants = None, cf_overrides = None, cf_externalRules = None,
     cf_presence = \<lparr>pr_warningsAsErrors = False, pr_maxDiagnostics = False\<rparr>\<rparr>"

text \<open>The zero value \<open>File{Rules: map[string]any{}}\<close>.\<close>

definition empty_config :: config_file where
  "empty_config =
    \<lparr>cf_presets = [], cf_profile = [], cf_target = [], cf_include = None, cf_exclude = None, cf_defines = None,
     cf_includePaths = None, cf_apiMetadata = None, cf_baseline = [], cf_cache = [],
     cf_lint = \<lparr>ls_warningsAsErrors = False, ls_maxDiagnostics = 0\<rparr>, cf_rules = fmempty,
     cf_builds = None, cf_variants = None, cf_overrides = None, cf_externalRules = None,
     cf_presence = \<lparr>pr_warningsAsErrors = False, pr_maxDiagnostics = False\<rparr>\<rparr>"

section \<open>Presets\<close>

text \<open>
  \<open>mergeRuleMaps\<close>: a value replaces the one of the same key, two tables are merged. \<open>merge_value value current\<close>
  is what stands at a key afterwards; the copies \<open>clonePresetValue\<close> makes are the values themselves.
\<close>

definition merge_keys ::
  "(string, go_value) fmap \<Rightarrow> (string, go_value option \<Rightarrow> go_value) fmap \<Rightarrow> (string, go_value) fmap" where
  "merge_keys base override = base ++\<^sub>f fmmap_keys (\<lambda>key merge. merge (fmlookup base key)) override"

primrec merge_value :: "go_value \<Rightarrow> go_value option \<Rightarrow> go_value" where
  "merge_value VNil current = VNil"
| "merge_value (VBool b) current = VBool b"
| "merge_value (VSigned i) current = VSigned i"
| "merge_value (VUnsigned n) current = VUnsigned n"
| "merge_value (VFloat r) current = VFloat r"
| "merge_value VNonFinite current = VNonFinite"
| "merge_value (VString s) current = VString s"
| "merge_value (VStrings ss) current = VStrings ss"
| "merge_value (VList vs) current = VList vs"
| "merge_value (VMap override) current =
    (case current of
      Some (VMap base) \<Rightarrow> VMap (merge_keys base (fmmap merge_value override))
    | _ \<Rightarrow> VMap (merge_keys fmempty (fmmap merge_value override)))"
| "merge_value (VMaps ms) current = VMaps ms"

definition mergeRuleMaps ::
  "(string, go_value) fmap \<Rightarrow> (string, go_value) fmap \<Rightarrow> (string, go_value) fmap" where
  "mergeRuleMaps base override = merge_keys base (fmmap merge_value override)"

definition clonePresetValue :: "go_value \<Rightarrow> go_value" where
  "clonePresetValue v = merge_value v None"

definition mergePreset :: "config_file \<Rightarrow> config_file \<Rightarrow> config_file" where
  "mergePreset base override =
    (let result = base;
         result = (if cf_profile override \<noteq> [] then result\<lparr>cf_profile := cf_profile override\<rparr> else result);
         result = (if pr_warningsAsErrors (cf_presence override) \<or> ls_warningsAsErrors (cf_lint override)
           then result\<lparr>cf_lint := (cf_lint result)\<lparr>ls_warningsAsErrors := ls_warningsAsErrors (cf_lint override)\<rparr>,
             cf_presence := (cf_presence result)\<lparr>pr_warningsAsErrors := True\<rparr>\<rparr> else result);
         result = (if pr_maxDiagnostics (cf_presence override) \<or> ls_maxDiagnostics (cf_lint override) \<noteq> 0
           then result\<lparr>cf_lint := (cf_lint result)\<lparr>ls_maxDiagnostics := ls_maxDiagnostics (cf_lint override)\<rparr>,
             cf_presence := (cf_presence result)\<lparr>pr_maxDiagnostics := True\<rparr>\<rparr> else result);
         result = result\<lparr>cf_rules := mergeRuleMaps (cf_rules result) (cf_rules override)\<rparr>;
         result = (if cf_overrides override \<noteq> None
           then result\<lparr>cf_overrides := cloneStrings (cf_overrides override)\<rparr> else result)
     in result\<lparr>cf_target := cf_target override, cf_include := cloneStrings (cf_include override),
       cf_exclude := cloneStrings (cf_exclude override), cf_defines := cloneStrings (cf_defines override),
       cf_includePaths := cloneStrings (cf_includePaths override),
       cf_apiMetadata := cloneStrings (cf_apiMetadata override), cf_baseline := cf_baseline override,
       cf_cache := cf_cache override, cf_builds := cloneStrings (cf_builds override),
       cf_variants := cloneStrings (cf_variants override),
       cf_externalRules := cloneStrings (cf_externalRules override)\<rparr>)"

datatype 'e preset_error =
    Preset_cycle "string list" | Unknown_extension string | Unreadable string | Undecodable 'e
  | Preset_fields string | No_working_directory string

definition validatePreset :: "string \<Rightarrow> config_file \<Rightarrow> 'e preset_error option" where
  "validatePreset path f =
    (if cf_target f \<noteq> [] \<or> cf_include f \<noteq> None \<or> cf_exclude f \<noteq> None \<or> cf_defines f \<noteq> None \<or>
        cf_includePaths f \<noteq> None \<or> cf_apiMetadata f \<noteq> None \<or> cf_baseline f \<noteq> [] \<or> cf_cache f \<noteq> [] \<or>
        cf_builds f \<noteq> None \<or> cf_variants f \<noteq> None \<or> cf_externalRules f \<noteq> None
     then Some (Preset_fields path) else None)"

datatype config_format = FormatTOML | FormatJSON | FormatYAML

definition formatFor :: "string \<Rightarrow> 'e preset_error + config_format" where
  "formatFor path =
    (let ext = map ascii_lower (path_ext path) in
     if ext = ''.toml'' then Inr FormatTOML
     else if ext = ''.json'' then Inr FormatJSON
     else if ext = ''.yaml'' \<or> ext = ''.yml'' then Inr FormatYAML
     else Inl (Unknown_extension (path_ext path)))"

text \<open>
  The disk is a finite map from paths to contents. \<open>decode\<close> stands for the decoders of the three formats:
  libraries, and the removal of fields they do not know.
\<close>

type_synonym 'e decoder = "config_format \<Rightarrow> string \<Rightarrow> 'e + config_file"

definition loadFile :: "'e decoder \<Rightarrow> (string, string) fmap \<Rightarrow> string \<Rightarrow> 'e preset_error + config_file" where
  "loadFile decode disk path =
    (case formatFor path of
      Inl e \<Rightarrow> Inl e
    | Inr format \<Rightarrow>
        (case fmlookup disk path of
          None \<Rightarrow> Inl (Unreadable path)
        | Some b \<Rightarrow> (case decode format b of Inl e \<Rightarrow> Inl (Undecodable e) | Inr f \<Rightarrow> Inr f)))"

definition presetPath :: "string option \<Rightarrow> string \<Rightarrow> string \<Rightarrow> 'e preset_error + string" where
  "presetPath cwd path name =
    (case path_abs cwd (if IsAbs name then name else path_join (path_dir path) name) of
      None \<Rightarrow> Inl (No_working_directory name)
    | Some p \<Rightarrow> Inr (Clean p))"

lemma loadFile_readable: "loadFile decode disk path = Inr f \<Longrightarrow> path \<in> fset (fmdom disk)"
  by (auto simp: loadFile_def fmdom'_alt_def fmlookup_dom_iff split: sum.splits option.splits)

text \<open>A path enters the stack only when it could be read, so the files not on the stack get fewer.\<close>

lemma stack_grows:
  assumes "path \<notin> set stack" "loadFile decode disk path = Inr f"
  shows "card (fset (fmdom disk) - set (stack @ [path])) < card (fset (fmdom disk) - set stack)"
  using assms loadFile_readable [OF assms(2)] by (intro psubset_card_mono) auto

text \<open>The presets of a file are read in turn, each with the files being read as the stack.\<close>

function loadPresets ::
  "'e decoder \<Rightarrow> (string, string) fmap \<Rightarrow> string option \<Rightarrow> string \<Rightarrow> string list \<Rightarrow> 'e preset_error + config_file"
and merge_presets ::
  "'e decoder \<Rightarrow> (string, string) fmap \<Rightarrow> string option \<Rightarrow> string \<Rightarrow> string list \<Rightarrow> string list \<Rightarrow> config_file \<Rightarrow>
    'e preset_error + config_file" where
  "loadPresets decode disk cwd path stack =
    (if path \<in> set stack then Inl (Preset_cycle (stack @ [path]))
     else (case loadFile decode disk path of
       Inl e \<Rightarrow> Inl e
     | Inr f \<Rightarrow>
         (case merge_presets decode disk cwd path (stack @ [path]) (cf_presets f) empty_config of
           Inl e \<Rightarrow> Inl e
         | Inr merged \<Rightarrow> Inr (mergePreset merged (f\<lparr>cf_presets := []\<rparr>)))))"
| "merge_presets decode disk cwd path stack [] merged = Inr merged"
| "merge_presets decode disk cwd path stack (name # names) merged =
    (case presetPath cwd path name of
      Inl e \<Rightarrow> Inl e
    | Inr p \<Rightarrow>
        (case loadPresets decode disk cwd p stack of
          Inl e \<Rightarrow> Inl e
        | Inr preset \<Rightarrow>
            (case validatePreset p preset of
              Some e \<Rightarrow> Inl e
            | None \<Rightarrow> merge_presets decode disk cwd path stack names (mergePreset merged preset))))"
  by pat_completeness auto

termination
  by (relation "measures
      [\<lambda>x. case x of Inl (_, disk, _, _, stack) \<Rightarrow> card (fset (fmdom disk) - set stack)
         | Inr (_, disk, _, _, stack, _) \<Rightarrow> card (fset (fmdom disk) - set stack),
       \<lambda>x. case x of Inl _ \<Rightarrow> 0 | Inr (_, _, _, _, _, names, _) \<Rightarrow> Suc (length names)]")
    (use stack_grows in auto)

declare loadPresets.simps [simp del]

definition Load :: "'e decoder \<Rightarrow> (string, string) fmap \<Rightarrow> string option \<Rightarrow> string \<Rightarrow> 'e preset_error + config_file" where
  "Load decode disk cwd path =
    (case path_abs cwd path of
      None \<Rightarrow> Inl (No_working_directory path)
    | Some p \<Rightarrow> loadPresets decode disk cwd (Clean p) [])"

text \<open>\<open>Discover\<close> goes up from a directory, at most 64 times, to the first one with a configuration.\<close>

definition candidateNames :: "string list" where
  "candidateNames = [''pawnlint.toml'', ''pawnlint.yaml'', ''pawnlint.yml'', ''pawnlint.json'']"

fun discover_loop ::
  "'e decoder \<Rightarrow> (string, string) fmap \<Rightarrow> string option \<Rightarrow> nat \<Rightarrow> string \<Rightarrow>
    (string \<times> 'e preset_error) + string \<times> config_file" where
  "discover_loop decode disk cwd 0 dir = Inr ([], Defaults)"
| "discover_loop decode disk cwd (Suc n) dir =
    (case List.find (\<lambda>c. c \<in> fset (fmdom disk)) (map (path_join dir) candidateNames) of
      Some candidate \<Rightarrow>
        (case Load decode disk cwd candidate of
          Inl e \<Rightarrow> Inl (candidate, e) | Inr f \<Rightarrow> Inr (candidate, f))
    | None \<Rightarrow> if path_dir dir = dir then Inr ([], Defaults) else discover_loop decode disk cwd n (path_dir dir))"

definition Discover ::
  "'e decoder \<Rightarrow> (string, string) fmap \<Rightarrow> string option \<Rightarrow> string \<Rightarrow>
    (string \<times> 'e preset_error) + string \<times> config_file" where
  "Discover decode disk cwd startDir = discover_loop decode disk cwd 64 startDir"


section \<open>Cycles of presets\<close>

definition preset_edge :: "'e decoder \<Rightarrow> (string, string) fmap \<Rightarrow> string option \<Rightarrow> string \<Rightarrow> string \<Rightarrow> bool" where
  "preset_edge decode disk cwd p q \<longleftrightarrow>
    (\<exists>f name. loadFile decode disk p = Inr f \<and> name \<in> set (cf_presets f) \<and>
      presetPath cwd p name = (Inr q :: 'e preset_error + string))"

text \<open>A file that loads has loaded each of its presets below itself.\<close>

lemma merge_presets_Inr:
  "merge_presets decode disk cwd path stack names merged = Inr g \<Longrightarrow> name \<in> set names \<Longrightarrow>
    presetPath cwd path name = (Inr q :: 'e preset_error + string) \<Longrightarrow> \<exists>h. loadPresets decode disk cwd q stack = Inr h"
  for decode :: "'e decoder"
  by (induction names arbitrary: merged) (auto split: sum.splits option.splits)

lemma loadPresets_Inr:
  assumes "loadPresets decode disk cwd path stack = Inr g"
  shows "path \<notin> set stack \<and>
    (\<exists>f merged. loadFile decode disk path = Inr f \<and> g = mergePreset merged (f\<lparr>cf_presets := []\<rparr>) \<and>
      merge_presets decode disk cwd path (stack @ [path]) (cf_presets f) empty_config = Inr merged)"
  using assms by (subst (asm) loadPresets.simps) (auto split: if_splits sum.splits)

lemma loadPresets_edge:
  assumes "loadPresets decode disk cwd p stack = Inr g" "preset_edge decode disk cwd p q"
  shows "\<exists>h. loadPresets decode disk cwd q (stack @ [p]) = Inr h"
  using loadPresets_Inr [OF assms(1)] assms(2) merge_presets_Inr
  unfolding preset_edge_def by (metis sum.inject(2))

lemma loadPresets_reach:
  assumes "(preset_edge decode disk cwd)\<^sup>+\<^sup>+ p q" "loadPresets decode disk cwd p stack = Inr g"
  shows "\<exists>stack' h. loadPresets decode disk cwd q stack' = Inr h \<and> p \<in> set stack'"
  using assms(1)
proof (induction rule: tranclp_induct)
  case (base q)
  with loadPresets_edge [OF assms(2)] show ?case by fastforce
next
  case (step q r)
  then obtain stack' h where "loadPresets decode disk cwd q stack' = Inr h" "p \<in> set stack'" by blast
  with loadPresets_edge [OF _ step(2)] show ?case by fastforce
qed

lemma loadPresets_acyclic:
  assumes "loadPresets decode disk cwd p stack = Inr g" "(preset_edge decode disk cwd)\<^sup>*\<^sup>* p q"
  shows "\<not> (preset_edge decode disk cwd)\<^sup>+\<^sup>+ q q"
proof -
  obtain stack' h where q: "loadPresets decode disk cwd q stack' = Inr h"
    using assms(2) loadPresets_reach [OF _ assms(1)] assms(1) by (metis rtranclpD)
  have "q \<notin> set s" if "loadPresets decode disk cwd q s = Inr i" for s i
    using loadPresets_Inr [OF that] by blast
  with loadPresets_reach [OF _ q] show ?thesis by blast
qed

text \<open>A reported cycle is one: each path of the chain presets the next, and the last is there twice.\<close>

lemma cycle_error:
  shows "loadPresets decode disk cwd path stack = Inl (Preset_cycle c) \<Longrightarrow>
      successively (preset_edge decode disk cwd) (stack @ [path]) \<Longrightarrow>
      successively (preset_edge decode disk cwd) c \<and> c \<noteq> [] \<and> last c \<in> set (butlast c)"
    and "merge_presets decode disk cwd path stack names merged = Inl (Preset_cycle c) \<Longrightarrow>
      successively (preset_edge decode disk cwd) stack \<Longrightarrow> stack \<noteq> [] \<Longrightarrow> last stack = path \<Longrightarrow>
      (\<exists>f. loadFile decode disk path = Inr f \<and> set names \<subseteq> set (cf_presets f)) \<Longrightarrow>
      successively (preset_edge decode disk cwd) c \<and> c \<noteq> [] \<and> last c \<in> set (butlast c)"
proof (induction decode disk cwd path stack and decode disk cwd path stack names merged
    rule: loadPresets_merge_presets.induct)
  case (1 decode disk cwd path stack)
  show ?case
  proof (cases "path \<in> set stack")
    case True
    with "1.prems" show ?thesis by (subst (asm) (1) loadPresets.simps) auto
  next
    case False
    have "merge_presets decode disk cwd path (stack @ [path]) (cf_presets f) empty_config = Inl (Preset_cycle c)"
      if "loadFile decode disk path = Inr f" for f
      using "1.prems"(1) False that
      by (subst (asm) loadPresets.simps) (simp split: sum.splits)
    moreover have "\<exists>f. loadFile decode disk path = Inr f"
      using "1.prems"(1) False
      by (subst (asm) loadPresets.simps)
        (auto simp: loadFile_def formatFor_def Let_def split: sum.splits option.splits if_splits)
    ultimately show ?thesis using "1.IH" [OF False] "1.prems"(2) by fastforce
  qed
next
  case (2 decode disk cwd path stack merged)
  then show ?case by simp
next
  case (3 decode disk cwd path stack name names merged)
  from "3.prems"(1) obtain q where q: "presetPath cwd path name = (Inr q :: 'a preset_error + string)"
    by (auto simp: presetPath_def split: sum.splits option.splits)
  from "3.prems"(5) q have edge: "preset_edge decode disk cwd path q" unfolding preset_edge_def by auto
  show ?case
  proof (cases "loadPresets decode disk cwd q stack")
    case (Inl e)
    with "3.prems" q have "e = Preset_cycle c" by simp
    moreover have "successively (preset_edge decode disk cwd) (stack @ [q])"
      using "3.prems" edge by (auto simp: successively_append_iff)
    ultimately show ?thesis using "3.IH"(1) [OF q] Inl by blast
  next
    case (Inr g)
    with "3.prems"(1) q have none: "validatePreset q g = (None :: 'a preset_error option)"
      by (auto simp: validatePreset_def split: option.splits if_splits)
    with "3.prems"(1) q Inr have
      "merge_presets decode disk cwd path stack names (mergePreset merged g) = Inl (Preset_cycle c)" by simp
    with "3.IH"(2) [OF q Inr none] "3.prems" show ?thesis by fastforce
  qed
qed


lemma mergePreset_fields:
  "cf_presets (mergePreset base own) = cf_presets base" "cf_target (mergePreset base own) = cf_target own"
  "cf_include (mergePreset base own) = cloneStrings (cf_include own)"
  "cf_exclude (mergePreset base own) = cloneStrings (cf_exclude own)"
  "cf_defines (mergePreset base own) = cloneStrings (cf_defines own)"
  "cf_builds (mergePreset base own) = cloneStrings (cf_builds own)"
  "cf_externalRules (mergePreset base own) = cloneStrings (cf_externalRules own)"
  "cf_rules (mergePreset base own) = mergeRuleMaps (cf_rules base) (cf_rules own)"
  "cf_profile (mergePreset base own) = (if cf_profile own = [] then cf_profile base else cf_profile own)"
  by (simp_all add: mergePreset_def Let_def)

lemma merge_presets_no_presets:
  "merge_presets decode disk cwd path stack names merged = Inr g \<Longrightarrow> cf_presets g = cf_presets merged"
  by (induction names arbitrary: merged) (auto simp: mergePreset_fields split: sum.splits option.splits)

text \<open>What stands at a key of two merged tables of rules.\<close>

lemma mergeRuleMaps_lookup:
  "fmlookup (mergeRuleMaps base own) key =
    (case fmlookup own key of
      None \<Rightarrow> fmlookup base key
    | Some (VMap next) \<Rightarrow>
        Some (VMap (case fmlookup base key of Some (VMap current) \<Rightarrow> mergeRuleMaps current next
          | _ \<Rightarrow> mergeRuleMaps fmempty next))
    | Some v \<Rightarrow> Some v)"
proof (cases "fmlookup own key")
  case None
  then show ?thesis by (simp add: mergeRuleMaps_def merge_keys_def fmlookup_dom_iff)
next
  case (Some v)
  then have "fmlookup (mergeRuleMaps base own) key = Some (merge_value v (fmlookup base key))"
    by (simp add: mergeRuleMaps_def merge_keys_def fmlookup_dom_iff)
  with Some show ?thesis by (cases v) (simp_all add: mergeRuleMaps_def split: option.splits go_value.splits)
qed

text \<open>
  C26: Reading a configuration with its presets always ends. When it succeeds, no preset is left open, no file
  that was read presets itself, directly or through others, and everything but the profile, the lint section,
  the rules and the overrides comes from the file itself; a severity the file gives a rule stands. When it
  fails with a cycle, the reported chain of files is one.
\<close>

theorem Load_presets_correct:
  assumes "path_abs cwd path = Some p"
  shows "(\<forall>f. Load decode disk cwd path = Inr f \<longrightarrow>
      (\<exists>own. loadFile decode disk (Clean p) = Inr own \<and> cf_presets f = [] \<and> cf_target f = cf_target own \<and>
        cf_include f = cloneStrings (cf_include own) \<and> cf_builds f = cloneStrings (cf_builds own) \<and>
        cf_externalRules f = cloneStrings (cf_externalRules own) \<and>
        (\<forall>key s. fmlookup (cf_rules own) key = Some (VString s) \<longrightarrow> fmlookup (cf_rules f) key = Some (VString s)) \<and>
        (\<forall>q. (preset_edge decode disk cwd)\<^sup>*\<^sup>* (Clean p) q \<longrightarrow> \<not> (preset_edge decode disk cwd)\<^sup>+\<^sup>+ q q))) \<and>
    (\<forall>c. Load decode disk cwd path = Inl (Preset_cycle c) \<longrightarrow>
      successively (preset_edge decode disk cwd) c \<and> c \<noteq> [] \<and> last c \<in> set (butlast c))"
proof -
  have load: "Load decode disk cwd path = loadPresets decode disk cwd (Clean p) []"
    by (simp add: Load_def assms)
  show ?thesis unfolding load
  proof (intro conjI allI impI)
    fix f
    assume f: "loadPresets decode disk cwd (Clean p) [] = Inr f"
    from loadPresets_Inr [OF f] obtain own merged where
      own: "loadFile decode disk (Clean p) = Inr own" "f = mergePreset merged (own\<lparr>cf_presets := []\<rparr>)"
      "merge_presets decode disk cwd (Clean p) [Clean p] (cf_presets own) empty_config = Inr merged" by auto
    from merge_presets_no_presets [OF own(3)] have "cf_presets merged = []" by (simp add: empty_config_def)
    with own loadPresets_acyclic [OF f] show "\<exists>own. loadFile decode disk (Clean p) = Inr own \<and> cf_presets f = [] \<and>
        cf_target f = cf_target own \<and>
        cf_include f = cloneStrings (cf_include own) \<and> cf_builds f = cloneStrings (cf_builds own) \<and>
        cf_externalRules f = cloneStrings (cf_externalRules own) \<and>
        (\<forall>key s. fmlookup (cf_rules own) key = Some (VString s) \<longrightarrow> fmlookup (cf_rules f) key = Some (VString s)) \<and>
        (\<forall>q. (preset_edge decode disk cwd)\<^sup>*\<^sup>* (Clean p) q \<longrightarrow> \<not> (preset_edge decode disk cwd)\<^sup>+\<^sup>+ q q)"
      by (intro exI [of _ own]) (simp add: mergePreset_fields mergeRuleMaps_lookup)
  qed (use cycle_error(1) [of decode disk cwd "Clean p" "[]"] in auto)
qed

definition example_decode :: "string decoder" where
  "example_decode format b = Inr (empty_config\<lparr>cf_presets := if b = [] then [] else [b], cf_target := b\<rparr>)"

theorem Load_presets_correct_witness:
  "(preset_edge example_decode (fmap_of_list [(''/p/a.toml'', ''b.toml''), (''/p/b.toml'', ''../p/a.toml'')]) None)
    ''/p/a.toml'' ''/p/b.toml''"
proof -
  let ?disk = "fmap_of_list [(''/p/a.toml'', ''b.toml''), (''/p/b.toml'', ''../p/a.toml'')]"
  have "Load example_decode ?disk None ''/p/a.toml'' = Inl (Preset_cycle [''/p/a.toml'', ''/p/b.toml'', ''/p/a.toml''])"
    by code_simp
  moreover have "path_abs None ''/p/a.toml'' = Some ''/p/a.toml''" by code_simp
  ultimately show ?thesis
    using Load_presets_correct [of None "''/p/a.toml''" "''/p/a.toml''" example_decode ?disk] by simp
qed

end
