(* ===== verification/Resolve.thy ===== *)
theory Resolve
  imports Config
begin

text \<open>
  Resolving a configuration (\<open>internal/config/resolve.go\<close>), the overrides of the command line
  (\<open>cli_overrides.go\<close>), what is enabled for a path (\<open>config.go\<close>) and the project facts the enabled rules need
  (\<open>features.go\<close>, \<open>pkg/project/features.go\<close>).
\<close>

section \<open>Tables of rules\<close>

text \<open>
  The messages are values. The code joins the messages of all rules, sorted as texts; here they stand in the
  order in which the tables are read.
\<close>

datatype 'e config_error =
    Unknown_profile string | Unknown_target string | Api_error 'e | Negative_maximum
  | Variant_without_name | Duplicate_variant string | Builds_and_variants
  | External_without_name nat | External_bad_name string | Duplicate_external string | External_without_command string
  | External_timeout string | Build_without_name | Duplicate_build string | Build_without_entry string
  | Build_target string string | Rule_errors "'e config_error list"
  | Unknown_rule string | Configured_twice string string string | Invalid_severity string string
  | Invalid_rule_value string | Unknown_option string string | Invalid_option_value string string option_error
  | Override_without_paths nat | Override_without_rules nat | Unknown_rule_argument string string

type_synonym migration = "string \<times> string"

fun append_migrations :: "string list \<Rightarrow> migration list \<Rightarrow> migration list \<Rightarrow> migration list" where
  "append_migrations seen existing [] = existing"
| "append_migrations seen existing (m # additions) =
    (if fst m \<in> set seen then append_migrations seen existing additions
     else append_migrations (fst m # seen) (existing @ [m]) additions)"

definition appendRuleMigrations :: "migration list \<Rightarrow> migration list \<Rightarrow> migration list" where
  "appendRuleMigrations existing additions =
    stable_sort (\<lambda>a b. fst a < fst b) (append_migrations (map fst existing) existing additions)"

text \<open>The loops over the names of a table go through them in sorted order.\<close>

definition sorted_keys :: "(string, 'a) fmap \<Rightarrow> string list" where
  "sorted_keys m = sorted_list_of_fset (fmdom m)"

definition value_of :: "(string, go_value) fmap \<Rightarrow> string \<Rightarrow> go_value" where
  "value_of m key = (case fmlookup m key of None \<Rightarrow> VNil | Some v \<Rightarrow> v)"

fun validate_names ::
  "string \<Rightarrow> opt list \<Rightarrow> string list \<Rightarrow> (string, go_value) fmap \<Rightarrow> 'e config_error list \<Rightarrow>
    (string, go_value) fmap \<times> 'e config_error list" where
  "validate_names ruleID options [] values' errs = (values', errs)"
| "validate_names ruleID options (name # names) values' errs =
    (case field_named options name of
      None \<Rightarrow> validate_names ruleID options names values' (errs @ [Unknown_option ruleID name])
    | Some option \<Rightarrow>
        (case NormalizeOption option (value_of values' name) of
          Inl e \<Rightarrow> validate_names ruleID options names values' (errs @ [Invalid_option_value ruleID name e])
        | Inr normalized \<Rightarrow> validate_names ruleID options names (fmupd name normalized values') errs))"

definition validateRuleOptions ::
  "string \<Rightarrow> (string, go_value) fmap \<Rightarrow> opt list \<Rightarrow> (string, go_value) fmap \<times> 'e config_error list" where
  "validateRuleOptions ruleID values' options = validate_names ruleID options (sorted_keys values') values' []"

record 'e rule_table =
  rt_enabled :: "(string, severity) fmap"
  rt_disabled :: "string set"
  rt_config :: "(string, (string, go_value) fmap) fmap"
  rt_migrations :: "migration list"
  rt_errs :: "'e config_error list"
  rt_seen :: "(string, string) fmap"

definition empty_table :: "'e rule_table" where
  "empty_table =
    \<lparr>rt_enabled = fmempty, rt_disabled = {}, rt_config = fmempty, rt_migrations = [], rt_errs = [], rt_seen = fmempty\<rparr>"

definition table_error :: "'e config_error \<Rightarrow> 'e rule_table \<Rightarrow> 'e rule_table" where
  "table_error e t = t\<lparr>rt_errs := rt_errs t @ [e]\<rparr>"

definition set_severity :: "string \<Rightarrow> string \<Rightarrow> string \<Rightarrow> 'e rule_table \<Rightarrow> 'e rule_table" where
  "set_severity configuredID ident name t =
    (case ParseSeverity name of
      None \<Rightarrow> table_error (Invalid_severity configuredID name) t
    | Some SeverityOff \<Rightarrow> t\<lparr>rt_disabled := insert ident (rt_disabled t)\<rparr>
    | Some sev \<Rightarrow> t\<lparr>rt_enabled := fmupd ident sev (rt_enabled t)\<rparr>)"

definition parse_value ::
  "string \<Rightarrow> string \<Rightarrow> opt list \<Rightarrow> go_value \<Rightarrow> 'e rule_table \<Rightarrow> 'e rule_table" where
  "parse_value configuredID ident options v t =
    (case v of
      VString name \<Rightarrow> set_severity configuredID ident name t
    | VMap cfg \<Rightarrow>
        (let t = (case fmlookup cfg ''severity'' of
               None \<Rightarrow> t
             | Some raw \<Rightarrow> set_severity configuredID ident (case raw of VString name \<Rightarrow> name | _ \<Rightarrow> []) t);
             (cfg', errs) = validateRuleOptions configuredID (fmdrop ''severity'' cfg) options
         in t\<lparr>rt_errs := rt_errs t @ errs, rt_config := fmupd ident cfg' (rt_config t)\<rparr>)
    | _ \<Rightarrow> table_error (Invalid_rule_value configuredID) t)"

definition parse_entry :: "'r registrar \<Rightarrow> string \<Rightarrow> go_value \<Rightarrow> 'e rule_table \<Rightarrow> 'e rule_table" where
  "parse_entry reg configuredID v t =
    (case ResolveID reg configuredID of
      None \<Rightarrow> table_error (Unknown_rule configuredID) t
    | Some (ident, deprecated) \<Rightarrow>
        (case fmlookup (rt_seen t) ident of
          Some previous \<Rightarrow> table_error (Configured_twice ident previous configuredID) t
        | None \<Rightarrow>
            (let t = t\<lparr>rt_seen := fmupd ident configuredID (rt_seen t)\<rparr>;
                 t = (if deprecated then t\<lparr>rt_migrations := rt_migrations t @ [(configuredID, ident)]\<rparr> else t);
                 options = (case Lookup_rule reg ident of None \<Rightarrow> [] | Some m \<Rightarrow> md_options m)
             in parse_value configuredID ident options v t)))"

fun parse_rules ::
  "'r registrar \<Rightarrow> (string, go_value) fmap \<Rightarrow> string list \<Rightarrow> 'e rule_table \<Rightarrow> 'e rule_table" where
  "parse_rules reg rules [] t = t"
| "parse_rules reg rules (key # keys) t = parse_rules reg rules keys (parse_entry reg key (value_of rules key) t)"

definition parseRuleTable :: "(string, go_value) fmap \<Rightarrow> 'r registrar \<Rightarrow> 'e rule_table" where
  "parseRuleTable rules reg = parse_rules reg rules (sorted_keys rules) empty_table"

section \<open>Resolving\<close>

record resolved_override =
  ro_paths :: "string list"
  ro_enabled :: "(string, severity) fmap"
  ro_disabled :: "string set"
  ro_ruleConfig :: "(string, (string, go_value) fmap) fmap"

record 'm resolved =
  r_source :: config_file
  r_sourcePath :: string
  r_profile :: string
  r_target :: string
  r_enabled :: "(string, severity) fmap"
  r_ruleConfig :: "(string, (string, go_value) fmap) fmap"
  r_api :: 'm
  r_allKnown :: "string set"
  r_overrides :: "resolved_override list"
  r_migrations :: "migration list"
  r_cliForced :: "(string, severity) fmap"

text \<open>
  Reading and merging the tables of the server API (\<open>internal/api\<close>) are arguments: \<open>load\<close> reads one file,
  \<open>merge\<close> puts the built-in table of a target and the files together.
\<close>

fun load_api_files :: "(string \<Rightarrow> 'e + 'm) \<Rightarrow> string \<Rightarrow> string list \<Rightarrow> 'e + 'm list" where
  "load_api_files load base [] = Inr []"
| "load_api_files load base (path # paths) =
    (case load (Clean (if IsAbs path then path else path_join base path)) of
      Inl e \<Rightarrow> Inl e
    | Inr m \<Rightarrow> map_sum id ((#) m) (load_api_files load base paths))"

definition loadAPIMetadata ::
  "(string \<Rightarrow> 'e + 'm) \<Rightarrow> (string \<Rightarrow> 'm list \<Rightarrow> 'e + 'm) \<Rightarrow> string list \<Rightarrow> string \<Rightarrow> string \<Rightarrow> 'e config_error + 'm" where
  "loadAPIMetadata load merge paths sourcePath target =
    (case load_api_files load (if sourcePath = [] then ''.'' else path_dir sourcePath) paths of
      Inl e \<Rightarrow> Inl (Api_error e)
    | Inr custom \<Rightarrow> map_sum Api_error id (merge target custom))"

fun check_variants :: "string list \<Rightarrow> variant list \<Rightarrow> 'e config_error option" where
  "check_variants seen [] = None"
| "check_variants seen (v # vs) =
    (let name = trim_space (vr_name v) in
     if name = [] then Some Variant_without_name
     else if name \<in> set seen then Some (Duplicate_variant name)
     else check_variants (name # seen) vs)"

text \<open>The pattern \<open>^[A-Za-z0-9][A-Za-z0-9_.-]*$\<close>.\<close>

definition alphanumeric :: "char \<Rightarrow> bool" where
  "alphanumeric c = (CHR ''0'' \<le> c \<and> c \<le> CHR ''9'' \<or> CHR ''A'' \<le> c \<and> c \<le> CHR ''Z'' \<or> CHR ''a'' \<le> c \<and> c \<le> CHR ''z'')"

definition externalRuleNamePattern :: "string \<Rightarrow> bool" where
  "externalRuleNamePattern name =
    (case name of [] \<Rightarrow> False | c # cs \<Rightarrow> alphanumeric c \<and> list_all (\<lambda>c. alphanumeric c \<or> c \<in> set ''_.-'') cs)"

fun check_external ::
  "nat \<Rightarrow> string list \<Rightarrow> external_rule list \<Rightarrow> 'e config_error + external_rule list" where
  "check_external index seen [] = Inr []"
| "check_external index seen (x # xs) =
    (let name = trim_space (er_name x) in
     if name = [] then Inl (External_without_name index)
     else if \<not> externalRuleNamePattern name then Inl (External_bad_name name)
     else if name \<in> set seen then Inl (Duplicate_external name)
     else if trim_space (er_command x) = [] then Inl (External_without_command name)
     else if er_timeoutMS x < 0 \<or> er_timeoutMS x > 300000 then Inl (External_timeout name)
     else map_sum id ((#) (x\<lparr>er_name := name, er_command := trim_space (er_command x)\<rparr>))
       (check_external (Suc index) (name # seen) xs))"

fun check_builds :: "string list \<Rightarrow> build list \<Rightarrow> 'e config_error option" where
  "check_builds seen [] = None"
| "check_builds seen (b # bs) =
    (let name = trim_space (bd_name b) in
     if name = [] then Some Build_without_name
     else if name \<in> set seen then Some (Duplicate_build name)
     else if trim_space (bd_entry b) = [] then Some (Build_without_entry name)
     else if \<not> allowedTarget (bd_target b) then Some (Build_target name (bd_target b))
     else check_builds (name # seen) bs)"

text \<open>The overrides, with the renamed rules and the errors found in them.\<close>

fun resolve_overrides ::
  "'r registrar \<Rightarrow> nat \<Rightarrow> override list \<Rightarrow> migration list \<Rightarrow>
    resolved_override list \<times> migration list \<times> 'e config_error list" where
  "resolve_overrides reg i [] migrations = ([], migrations, [])"
| "resolve_overrides reg i (ov # ovs) migrations =
    (if ov_paths ov = [] then
       (let (os, ms, errs) = resolve_overrides reg (Suc i) ovs migrations in (os, ms, Override_without_paths i # errs))
     else if ov_rules ov = fmempty then
       (let (os, ms, errs) = resolve_overrides reg (Suc i) ovs migrations in (os, ms, Override_without_rules i # errs))
     else
       (let t = parseRuleTable (ov_rules ov) reg;
            (os, ms, errs) = resolve_overrides reg (Suc i) ovs (appendRuleMigrations migrations (rt_migrations t))
        in (\<lparr>ro_paths = ov_paths ov, ro_enabled = rt_enabled t, ro_disabled = rt_disabled t, ro_ruleConfig = rt_config t\<rparr>
            # os, ms, rt_errs t @ errs)))"

definition without :: "string set \<Rightarrow> (string, 'a) fmap \<Rightarrow> (string, 'a) fmap" where
  "without ids m = fmfilter (\<lambda>ident. ident \<notin> ids) m"

definition resolve_rules ::
  "curation \<Rightarrow> 'r registrar \<Rightarrow> config_file \<Rightarrow> 'm resolved \<Rightarrow> 'e config_error + 'm resolved" where
  "resolve_rules cur reg f r =
    (let t = parseRuleTable (cf_rules f) reg;
         enabled = without (rt_disabled t) (EnabledForProfile cur reg (r_profile r) ++\<^sub>f rt_enabled t);
         (overrides, migrations, errs) =
           resolve_overrides reg 0 (elems (cf_overrides f)) (appendRuleMigrations (r_migrations r) (rt_migrations t));
         errs = rt_errs t @ errs
     in if errs \<noteq> [] then Inl (Rule_errors errs)
        else Inr (r\<lparr>r_enabled := enabled, r_ruleConfig := rt_config t, r_overrides := overrides,
          r_migrations := migrations\<rparr>))"

definition known_ids :: "'r registrar \<Rightarrow> string set" where
  "known_ids reg = set (IDs reg) \<union> fst ` set (Aliases reg)"

definition Resolve ::
  "(string \<Rightarrow> 'e + 'm) \<Rightarrow> (string \<Rightarrow> 'm list \<Rightarrow> 'e + 'm) \<Rightarrow> curation \<Rightarrow> config_file \<Rightarrow> string \<Rightarrow> 'r registrar \<Rightarrow>
    'e config_error + 'm resolved" where
  "Resolve load merge cur f sourcePath reg =
    (let profile = (if trim_space (cf_profile f) = [] then ProfileRecommended else trim_space (cf_profile f));
         target = (if cf_target f = [] then TargetOpenMP else cf_target f) in
     if \<not> AllowedProfile profile then Inl (Unknown_profile profile)
     else if \<not> allowedTarget target then Inl (Unknown_target target)
     else (case loadAPIMetadata load merge (elems (cf_apiMetadata f)) sourcePath target of
       Inl e \<Rightarrow> Inl e
     | Inr metadata \<Rightarrow>
         if ls_maxDiagnostics (cf_lint f) < 0 then Inl Negative_maximum
         else (case check_variants [] (elems (cf_variants f)) of
           Some e \<Rightarrow> Inl e
         | None \<Rightarrow>
             if elems (cf_builds f) \<noteq> [] \<and> elems (cf_variants f) \<noteq> [] then Inl Builds_and_variants
             else (case check_external 0 [] (elems (cf_externalRules f)) of
               Inl e \<Rightarrow> Inl e
             | Inr externals \<Rightarrow>
                 (case check_builds [] (elems (cf_builds f)) of
                   Some e \<Rightarrow> Inl e
                 | None \<Rightarrow>
                     resolve_rules cur reg f
                       \<lparr>r_source = f\<lparr>cf_target := target,
                          cf_externalRules := map_option (\<lambda>_. externals) (cf_externalRules f)\<rparr>,
                        r_sourcePath = sourcePath, r_profile = profile, r_target = target, r_enabled = fmempty,
                        r_ruleConfig = fmempty, r_api = metadata, r_allKnown = known_ids reg, r_overrides = [],
                        r_migrations = [], r_cliForced = fmempty\<rparr>)))))"

section \<open>The command line\<close>

definition configuredSeverity :: "go_value \<Rightarrow> severity option" where
  "configuredSeverity v =
    (case v of
      VString name \<Rightarrow> ParseSeverity name
    | VMap m \<Rightarrow> (case fmlookup m ''severity'' of Some (VString name) \<Rightarrow> ParseSeverity name | _ \<Rightarrow> None)
    | _ \<Rightarrow> None)"

definition note_renamed :: "bool \<Rightarrow> string \<Rightarrow> string \<Rightarrow> 'm resolved \<Rightarrow> 'm resolved" where
  "note_renamed deprecated configuredID ident r =
    (if deprecated then r\<lparr>r_migrations := appendRuleMigrations (r_migrations r) [(configuredID, ident)]\<rparr> else r)"

text \<open>The rules of the file on top of the profile; Go goes through the table in any order.\<close>

fun reapply_rules ::
  "'r registrar \<Rightarrow> string list \<Rightarrow> (string, severity) fmap \<times> 'm resolved \<Rightarrow> (string, severity) fmap \<times> 'm resolved" where
  "reapply_rules reg [] (enabled, r) = (enabled, r)"
| "reapply_rules reg (key # keys) (enabled, r) =
    (case ResolveID reg key of
      None \<Rightarrow> reapply_rules reg keys (enabled, r)
    | Some (ident, deprecated) \<Rightarrow>
        (let r = note_renamed deprecated key ident r in
         case configuredSeverity (value_of (cf_rules (r_source r)) key) of
           None \<Rightarrow> reapply_rules reg keys (enabled, r)
         | Some SeverityOff \<Rightarrow> reapply_rules reg keys (fmdrop ident enabled, r)
         | Some sev \<Rightarrow> reapply_rules reg keys (fmupd ident sev enabled, r)))"

definition apply_profile ::
  "curation \<Rightarrow> 'r registrar \<Rightarrow> string \<Rightarrow> 'm resolved \<Rightarrow> 'm resolved \<times> 'e config_error option" where
  "apply_profile cur reg profile r =
    (if profile = [] then (r, None)
     else if \<not> AllowedProfile profile then (r, Some (Unknown_profile profile))
     else (let r = r\<lparr>r_profile := profile, r_source := (r_source r)\<lparr>cf_profile := profile\<rparr>\<rparr>;
               (enabled, r) = reapply_rules reg (sorted_keys (cf_rules (r_source r))) (EnabledForProfile cur reg profile, r)
           in (r\<lparr>r_enabled := enabled\<rparr>, None)))"

definition apply_target ::
  "(string \<Rightarrow> 'e + 'm) \<Rightarrow> (string \<Rightarrow> 'm list \<Rightarrow> 'e + 'm) \<Rightarrow> string \<Rightarrow> 'm resolved \<Rightarrow> 'm resolved \<times> 'e config_error option" where
  "apply_target load merge target r =
    (if target = [] then (r, None)
     else if \<not> allowedTarget target then (r, Some (Unknown_target target))
     else (case loadAPIMetadata load merge (elems (cf_apiMetadata (r_source r))) (r_sourcePath r) target of
       Inl e \<Rightarrow> (r, Some e)
     | Inr metadata \<Rightarrow>
         (r\<lparr>r_target := target, r_api := metadata,
            r_source := (r_source r)\<lparr>cf_target := target,
              cf_builds := map_option (map (\<lambda>b. b\<lparr>bd_target := target\<rparr>)) (cf_builds (r_source r))\<rparr>\<rparr>, None)))"

fun enable_rules :: "'r registrar \<Rightarrow> string list \<Rightarrow> 'm resolved \<Rightarrow> 'm resolved \<times> 'e config_error option" where
  "enable_rules reg [] r = (r, None)"
| "enable_rules reg (configuredID # rest) r =
    (case ResolveID reg configuredID of
      None \<Rightarrow> (r, Some (Unknown_rule_argument ''--enable'' configuredID))
    | Some (ident, deprecated) \<Rightarrow>
        (let r = note_renamed deprecated configuredID ident r;
             sev = (case Lookup_rule reg ident of None \<Rightarrow> SeverityOff | Some m \<Rightarrow> md_severity m)
         in enable_rules reg rest
           (r\<lparr>r_enabled := fmupd ident sev (r_enabled r), r_cliForced := fmupd ident sev (r_cliForced r)\<rparr>)))"

fun disable_rules :: "'r registrar \<Rightarrow> string list \<Rightarrow> 'm resolved \<Rightarrow> 'm resolved \<times> 'e config_error option" where
  "disable_rules reg [] r = (r, None)"
| "disable_rules reg (configuredID # rest) r =
    (case ResolveID reg configuredID of
      None \<Rightarrow> (r, Some (Unknown_rule_argument ''--disable'' configuredID))
    | Some (ident, deprecated) \<Rightarrow>
        (let r = note_renamed deprecated configuredID ident r
         in disable_rules reg rest
           (r\<lparr>r_enabled := fmdrop ident (r_enabled r), r_cliForced := fmupd ident SeverityOff (r_cliForced r)\<rparr>)))"

text \<open>The steps in order; an error ends them and leaves what was done before.\<close>

definition and_then :: "'s \<times> 'e option \<Rightarrow> ('s \<Rightarrow> 's \<times> 'e option) \<Rightarrow> 's \<times> 'e option" where
  "and_then p f = (case p of (s, None) \<Rightarrow> f s | (s, Some e) \<Rightarrow> (s, Some e))"

definition ApplyCLIOverrides ::
  "(string \<Rightarrow> 'e + 'm) \<Rightarrow> (string \<Rightarrow> 'm list \<Rightarrow> 'e + 'm) \<Rightarrow> curation \<Rightarrow> string \<Rightarrow> string \<Rightarrow> string list \<Rightarrow> string list \<Rightarrow>
    'r registrar \<Rightarrow> 'm resolved \<Rightarrow> 'm resolved \<times> 'e config_error option" where
  "ApplyCLIOverrides load merge cur profile target enable disable reg r =
    and_then (apply_profile cur reg profile r)
      (\<lambda>r. and_then (apply_target load merge target r)
        (\<lambda>r. and_then (enable_rules reg enable r) (disable_rules reg disable)))"

section \<open>Paths\<close>

definition matchesAnyGlob :: "string list \<Rightarrow> string \<Rightarrow> bool" where
  "matchesAnyGlob patterns path = list_ex (\<lambda>p. MatchGlob p path) patterns"

fun override_loop :: "string \<Rightarrow> resolved_override list \<Rightarrow> (string, severity) fmap \<Rightarrow> (string, severity) fmap" where
  "override_loop path [] merged = merged"
| "override_loop path (ov # ovs) merged =
    (if \<not> matchesAnyGlob (ro_paths ov) path then override_loop path ovs merged
     else override_loop path ovs (without (ro_disabled ov) (merged ++\<^sub>f ro_enabled ov)))"

definition force :: "(string, severity) fmap \<Rightarrow> (string, severity) fmap \<Rightarrow> (string, severity) fmap" where
  "force forced merged = fmfilter (\<lambda>ident. fmlookup forced ident \<noteq> Some SeverityOff) (merged ++\<^sub>f forced)"

definition EnabledForPath :: "'m resolved \<Rightarrow> string \<Rightarrow> (string, severity) fmap" where
  "EnabledForPath r path =
    (if r_overrides r = [] then r_enabled r
     else force (r_cliForced r) (override_loop path (r_overrides r) (r_enabled r)))"

fun config_loop ::
  "string \<Rightarrow> resolved_override list \<Rightarrow> (string, (string, go_value) fmap) fmap \<Rightarrow> (string, (string, go_value) fmap) fmap" where
  "config_loop path [] merged = merged"
| "config_loop path (ov # ovs) merged =
    (if \<not> matchesAnyGlob (ro_paths ov) path then config_loop path ovs merged
     else config_loop path ovs (merged ++\<^sub>f ro_ruleConfig ov))"

definition RuleConfigForPath :: "'m resolved \<Rightarrow> string \<Rightarrow> (string, (string, go_value) fmap) fmap" where
  "RuleConfigForPath r path = config_loop path (r_overrides r) (r_ruleConfig r)"

definition IsEnabled :: "'m resolved \<Rightarrow> string \<Rightarrow> bool" where
  "IsEnabled r ident = (case fmlookup (r_enabled r) ident of None \<Rightarrow> False | Some s \<Rightarrow> s \<noteq> SeverityOff)"

definition SeverityFor :: "'m resolved \<Rightarrow> 'r registrar \<Rightarrow> string \<Rightarrow> severity" where
  "SeverityFor r reg ident =
    (case fmlookup (r_enabled r) ident of
      Some s \<Rightarrow> s
    | None \<Rightarrow> (case Lookup_rule reg ident of Some m \<Rightarrow> md_severity m | None \<Rightarrow> SeverityOff))"

end
