(* ===== verification/Effective_Rules.thy ===== *)
theory Effective_Rules
  imports Resolve
begin

text \<open>
  What the configuration promises about the rules in force: what a table of rules says about a rule, the
  precedence of profile, tables, overrides and command line, and the project facts the rules in force need.
\<close>

section \<open>What a table says about a rule\<close>

text \<open>The severity a table gives a rule, under its identifier or a deprecated one.\<close>

definition names_rule :: "'r registrar \<Rightarrow> string \<Rightarrow> string \<Rightarrow> bool" where
  "names_rule reg ident key = (map_option fst (ResolveID reg key) = Some ident)"

definition configured_in :: "'r registrar \<Rightarrow> (string, go_value) fmap \<Rightarrow> string \<Rightarrow> severity option" where
  "configured_in reg rules ident =
    (case List.find (names_rule reg ident) (sorted_keys rules) of
      None \<Rightarrow> None | Some key \<Rightarrow> configuredSeverity (value_of rules key))"

text \<open>The severity in force when the table speaks last.\<close>

definition speak :: "severity option \<Rightarrow> severity option \<Rightarrow> severity option" where
  "speak said before =
    (case said of None \<Rightarrow> before | Some SeverityOff \<Rightarrow> None | Some s \<Rightarrow> Some s)"

lemma speak_simps [simp]:
  "speak None before = before" "speak (Some SeverityOff) before = None"
  "s \<noteq> SeverityOff \<Longrightarrow> speak (Some s) before = Some s"
  by (auto simp: speak_def split: severity.splits)

definition said :: "'r registrar \<Rightarrow> (string, go_value) fmap \<Rightarrow> string list \<Rightarrow> string \<Rightarrow> severity option" where
  "said reg rules keys ident =
    (case List.find (names_rule reg ident) keys of
      None \<Rightarrow> None | Some key \<Rightarrow> configuredSeverity (value_of rules key))"

lemma configured_in_said: "configured_in reg rules = said reg rules (sorted_keys rules)"
  by (simp add: configured_in_def said_def fun_eq_iff)

lemma said_Cons:
  "said reg rules (key # keys) ident =
    (if names_rule reg ident key then configuredSeverity (value_of rules key) else said reg rules keys ident)"
  by (simp add: said_def)

lemma said_Nil [simp]: "said reg rules [] ident = None"
  by (simp add: said_def)

text \<open>The errors only grow, so an error-free table has had no error on the way.\<close>

lemma table_error_errs [simp]: "rt_errs (table_error e t) = rt_errs t @ [e]"
  by (simp add: table_error_def)

lemma set_severity_spec:
  "rt_errs (set_severity c i name t) = [] \<longleftrightarrow> rt_errs t = [] \<and> ParseSeverity name \<noteq> None"
  "ParseSeverity name = Some sev \<Longrightarrow>
    set_severity c i name t = (if sev = SeverityOff then t\<lparr>rt_disabled := insert i (rt_disabled t)\<rparr>
      else t\<lparr>rt_enabled := fmupd i sev (rt_enabled t)\<rparr>)"
  by (cases "ParseSeverity name"; auto simp: set_severity_def split: severity.splits)
    (cases sev; simp add: set_severity_def)

lemma ParseSeverity_Nil [simp]: "ParseSeverity [] = None"
  by (simp add: ParseSeverity_def)

text \<open>How the tables look at one rule: its severity, whether it is disabled, and what is in force.\<close>

definition table_severity :: "'e rule_table \<Rightarrow> string \<Rightarrow> severity option \<Rightarrow> severity option" where
  "table_severity t ident before =
    (if ident \<in> rt_disabled t then None
     else case fmlookup (rt_enabled t) ident of None \<Rightarrow> before | Some s \<Rightarrow> Some s)"

lemma without_table_severity:
  "fmlookup (without (rt_disabled t) (base ++\<^sub>f rt_enabled t)) ident = table_severity t ident (fmlookup base ident)"
  by (auto simp: without_def table_severity_def fmlookup_dom_iff split: option.splits)

definition untouched :: "'e rule_table \<Rightarrow> string \<Rightarrow> bool" where
  "untouched t ident = (ident \<notin> rt_disabled t \<and> fmlookup (rt_enabled t) ident = None)"

lemma set_severity_other:
  "rt_seen (set_severity c i name t) = rt_seen t"
  "j \<noteq> i \<Longrightarrow> j \<in> rt_disabled (set_severity c i name t) \<longleftrightarrow> j \<in> rt_disabled t"
  "j \<noteq> i \<Longrightarrow> fmlookup (rt_enabled (set_severity c i name t)) j = fmlookup (rt_enabled t) j"
  by (simp_all add: set_severity_def table_error_def split: option.splits severity.splits)

lemma parse_value_other:
  "rt_seen (parse_value c i options v t) = rt_seen t"
  "j \<noteq> i \<Longrightarrow> j \<in> rt_disabled (parse_value c i options v t) \<longleftrightarrow> j \<in> rt_disabled t"
  "j \<noteq> i \<Longrightarrow> fmlookup (rt_enabled (parse_value c i options v t)) j = fmlookup (rt_enabled t) j"
  by (auto simp: parse_value_def table_error_def Let_def set_severity_other
      split: go_value.splits option.splits prod.splits)

lemma parse_value_errs: "rt_errs (parse_value c i options v t) = [] \<Longrightarrow> rt_errs t = []"
  by (auto simp: parse_value_def Let_def set_severity_spec split: go_value.splits option.splits prod.splits)

lemma parse_value_severity:
  assumes "rt_errs (parse_value c i options v t) = []" "untouched t i"
  shows "table_severity (parse_value c i options v t) i before = speak (configuredSeverity v) before"
proof (cases v)
  case (VString name)
  with assms obtain sev where "ParseSeverity name = Some sev"
    by (auto simp: parse_value_def set_severity_spec)
  with VString assms(2) show ?thesis
    by (cases "sev = SeverityOff")
      (simp_all add: parse_value_def set_severity_spec table_severity_def configuredSeverity_def untouched_def)
next
  case (VMap cfg)
  show ?thesis
  proof (cases "fmlookup cfg ''severity''")
    case None
    with VMap assms(2) show ?thesis
      by (auto simp: parse_value_def table_severity_def configuredSeverity_def untouched_def split: prod.splits)
  next
    case (Some raw)
    with assms VMap obtain name sev where "raw = VString name" "ParseSeverity name = Some sev"
      by (cases raw) (auto simp: parse_value_def Let_def set_severity_spec split: prod.splits)
    with VMap Some assms(2) show ?thesis
      by (cases "sev = SeverityOff")
        (auto simp: parse_value_def set_severity_spec table_severity_def configuredSeverity_def untouched_def
          split: prod.splits)
  qed
qed (use assms in \<open>simp_all add: parse_value_def\<close>)

lemma table_severity_cong:
  "(i \<in> rt_disabled t \<longleftrightarrow> i \<in> rt_disabled u) \<Longrightarrow> fmlookup (rt_enabled t) i = fmlookup (rt_enabled u) i \<Longrightarrow>
    table_severity t i before = table_severity u i before"
  by (simp add: table_severity_def)

lemma parse_entry_errs: "rt_errs (parse_entry reg key v t) = [] \<Longrightarrow> rt_errs t = []"
  by (auto simp: parse_entry_def Let_def dest!: parse_value_errs split: option.splits prod.splits if_splits)

text \<open>An entry without errors names one rule, not named before, and what it says is what is recorded.\<close>

definition fresh_table :: "'e rule_table \<Rightarrow> bool" where
  "fresh_table t = (\<forall>i. fmlookup (rt_seen t) i = None \<longrightarrow> untouched t i)"

lemma parse_entry_spec:
  assumes "rt_errs (parse_entry reg key v t) = []" "fresh_table t"
  obtains ident where "names_rule reg ident key" "fmlookup (rt_seen t) ident = None"
    "fmlookup (rt_seen (parse_entry reg key v t)) = (fmlookup (rt_seen t))(ident \<mapsto> key)"
    "fresh_table (parse_entry reg key v t)"
    "\<And>i before. table_severity (parse_entry reg key v t) i before =
      (if i = ident then speak (configuredSeverity v) before else table_severity t i before)"
proof -
  from assms(1) obtain ident deprecated where res: "ResolveID reg key = Some (ident, deprecated)"
    by (auto simp: parse_entry_def split: option.splits)
  with assms(1) have new: "fmlookup (rt_seen t) ident = None"
    by (auto simp: parse_entry_def split: option.splits)
  define u where "u = (let t = t\<lparr>rt_seen := fmupd ident key (rt_seen t)\<rparr> in
    if deprecated then t\<lparr>rt_migrations := rt_migrations t @ [(key, ident)]\<rparr> else t)"
  define options where "options = (case Lookup_rule reg ident of None \<Rightarrow> [] | Some m \<Rightarrow> md_options m)"
  have entry: "parse_entry reg key v t = parse_value key ident options v u"
    using res new by (simp add: parse_entry_def u_def options_def Let_def)
  have u: "rt_seen u = fmupd ident key (rt_seen t)" "rt_disabled u = rt_disabled t" "rt_enabled u = rt_enabled t"
    by (simp_all add: u_def Let_def)
  have un: "untouched u ident" using assms(2) new by (simp add: fresh_table_def untouched_def u)
  show ?thesis
  proof (rule that [of ident])
    show "names_rule reg ident key" using res by (simp add: names_rule_def)
    show "fmlookup (rt_seen t) ident = None" using new .
    show "fmlookup (rt_seen (parse_entry reg key v t)) = (fmlookup (rt_seen t))(ident \<mapsto> key)"
      by (auto simp: entry parse_value_other u)
    show "fresh_table (parse_entry reg key v t)"
      using assms(2) unfolding fresh_table_def
      by (auto simp: entry parse_value_other u untouched_def split: if_splits)
    show "table_severity (parse_entry reg key v t) i before =
      (if i = ident then speak (configuredSeverity v) before else table_severity t i before)" for i before
    proof (cases "i = ident")
      case True
      with parse_value_severity [OF _ un] assms(1) show ?thesis by (simp add: entry)
    next
      case False
      then have "table_severity (parse_entry reg key v t) i before = table_severity u i before"
        by (intro table_severity_cong) (simp_all add: entry parse_value_other)
      with False show ?thesis by (simp add: table_severity_def u)
    qed
  qed
qed


lemma names_rule_unique: "names_rule reg i key \<Longrightarrow> names_rule reg j key \<Longrightarrow> i = j"
  by (auto simp: names_rule_def)

lemma said_unnamed: "filter (names_rule reg i) keys = [] \<Longrightarrow> said reg rules keys i = None"
  unfolding said_def by (metis filter_empty_conv find_None_iff option.simps(4))

lemma parse_rules_errs: "rt_errs (parse_rules reg rules keys t) = [] \<Longrightarrow> rt_errs t = []"
  by (induction keys arbitrary: t) (auto dest: parse_entry_errs)

lemma parse_rules_spec:
  "rt_errs (parse_rules reg rules keys t) = [] \<Longrightarrow> fresh_table t \<Longrightarrow>
    rt_errs t = [] \<and>
    (\<forall>i before. table_severity (parse_rules reg rules keys t) i before =
      (if fmlookup (rt_seen t) i = None then speak (said reg rules keys i) before else table_severity t i before)) \<and>
    (\<forall>i. length (filter (names_rule reg i) keys) \<le> 1 \<and>
      (fmlookup (rt_seen t) i \<noteq> None \<longrightarrow> filter (names_rule reg i) keys = []))"
proof (induction keys arbitrary: t)
  case Nil
  then show ?case by (auto simp: fresh_table_def untouched_def table_severity_def)
next
  case (Cons key keys)
  let ?v = "value_of rules key"
  let ?t = "parse_entry reg key ?v t"
  have errs: "rt_errs (parse_rules reg rules keys ?t) = []" using Cons.prems by simp
  have step: "rt_errs ?t = []" using parse_rules_errs [OF errs] .
  from step Cons.prems(2) obtain ident where ident: "names_rule reg ident key" "fmlookup (rt_seen t) ident = None"
    and seen: "fmlookup (rt_seen ?t) = (fmlookup (rt_seen t))(ident \<mapsto> key)"
    and fresh: "fresh_table ?t"
    and sev: "\<And>i before. table_severity ?t i before =
      (if i = ident then speak (configuredSeverity ?v) before else table_severity t i before)"
    by (rule parse_entry_spec) blast
  note IH = Cons.IH [OF errs fresh]
  have other: "names_rule reg i key \<longleftrightarrow> i = ident" for i using ident(1) names_rule_unique by blast
  have "filter (names_rule reg ident) keys = []" using IH seen by auto
  then have "length (filter (names_rule reg i) (key # keys)) \<le> 1 \<and>
      (fmlookup (rt_seen t) i \<noteq> None \<longrightarrow> filter (names_rule reg i) (key # keys) = [])" for i
    using IH ident(2) seen other by auto
  moreover have "table_severity (parse_rules reg rules keys ?t) i before =
      (if fmlookup (rt_seen t) i = None then speak (said reg rules (key # keys) i) before else table_severity t i before)"
    for i before
    using IH sev seen ident(2) other by (auto simp: said_Cons)
  ultimately show ?case using parse_entry_errs [OF step] by simp
qed

lemma parseRuleTable_spec:
  assumes t: "t = parseRuleTable rules reg" and "rt_errs t = []"
  shows "table_severity t i before = speak (configured_in reg rules i) before"
    and "length (filter (names_rule reg i) (sorted_keys rules)) \<le> 1"
proof -
  have "fresh_table empty_table" by (simp add: fresh_table_def untouched_def empty_table_def)
  from parse_rules_spec [OF _ this, of reg rules "sorted_keys rules"] assms show
    "table_severity t i before = speak (configured_in reg rules i) before"
    "length (filter (names_rule reg i) (sorted_keys rules)) \<le> 1"
    by (auto simp: parseRuleTable_def configured_in_said empty_table_def)
qed

section \<open>Resolved configurations\<close>

text \<open>A resolved override says what its table says.\<close>

definition override_of :: "'r registrar \<Rightarrow> override \<Rightarrow> resolved_override \<Rightarrow> bool" where
  "override_of reg ov ro \<longleftrightarrow> ro_paths ro = ov_paths ov \<and>
    (\<forall>m i. fmlookup (without (ro_disabled ro) (m ++\<^sub>f ro_enabled ro)) i =
      speak (configured_in reg (ov_rules ov) i) (fmlookup m i))"

lemma resolve_overrides_spec:
  "resolve_overrides reg n ovs ms = (os, ms', [] :: 'e config_error list) \<Longrightarrow> list_all2 (override_of reg) ovs os"
proof (induction ovs arbitrary: n ms os)
  case (Cons ov ovs)
  define t where "t = (parseRuleTable (ov_rules ov) reg :: 'e rule_table)"
  from Cons.prems obtain os' where "rt_errs t = []" "list_all2 (override_of reg) ovs os'"
    "os = \<lparr>ro_paths = ov_paths ov, ro_enabled = rt_enabled t, ro_disabled = rt_disabled t, ro_ruleConfig = rt_config t\<rparr> # os'"
    using Cons.IH by (auto simp: Let_def t_def split: prod.splits if_splits)
  moreover have "override_of reg ov
    \<lparr>ro_paths = ov_paths ov, ro_enabled = rt_enabled t, ro_disabled = rt_disabled t, ro_ruleConfig = rt_config t\<rparr>"
    using parseRuleTable_spec(1) [OF t_def \<open>rt_errs t = []\<close>]
    unfolding override_of_def by (simp add: without_table_severity)
  ultimately show ?case by simp
qed simp

lemma resolve_rules_spec:
  assumes "resolve_rules cur reg f r0 = (Inr r :: 'e config_error + 'm resolved)"
  shows "fmlookup (r_enabled r) i =
      speak (configured_in reg (cf_rules f) i) (fmlookup (EnabledForProfile cur reg (r_profile r0)) i)"
    and "length (filter (names_rule reg i) (sorted_keys (cf_rules f))) \<le> 1"
    and "list_all2 (override_of reg) (elems (cf_overrides f)) (r_overrides r)"
    and "r_profile r = r_profile r0" "r_cliForced r = r_cliForced r0" "r_source r = r_source r0"
proof -
  define t where "t = (parseRuleTable (cf_rules f) reg :: 'e rule_table)"
  obtain os ms errs where over: "resolve_overrides reg 0 (elems (cf_overrides f))
    (appendRuleMigrations (r_migrations r0) (rt_migrations t)) = (os, ms, errs :: 'e config_error list)"
    by (metis prod_cases3)
  with assms have ok: "rt_errs t = []" "errs = []"
    and r: "r = r0\<lparr>r_enabled := without (rt_disabled t) (EnabledForProfile cur reg (r_profile r0) ++\<^sub>f rt_enabled t),
      r_ruleConfig := rt_config t, r_overrides := os, r_migrations := ms\<rparr>"
    by (auto simp: resolve_rules_def Let_def t_def split: if_splits)
  note table = parseRuleTable_spec [OF t_def ok(1)]
  show "fmlookup (r_enabled r) i =
      speak (configured_in reg (cf_rules f) i) (fmlookup (EnabledForProfile cur reg (r_profile r0)) i)"
    using table(1) by (simp add: r without_table_severity)
  show "length (filter (names_rule reg i) (sorted_keys (cf_rules f))) \<le> 1" using table(2) .
  show "list_all2 (override_of reg) (elems (cf_overrides f)) (r_overrides r)"
    using resolve_overrides_spec over ok by (simp add: r)
  show "r_profile r = r_profile r0" "r_cliForced r = r_cliForced r0" "r_source r = r_source r0"
    by (simp_all add: r)
qed

lemma Resolve_Inr:
  "Resolve load merge cur f sp reg = (Inr r :: 'e config_error + 'm resolved) \<Longrightarrow>
    \<exists>r0. resolve_rules cur reg f r0 = (Inr r :: 'e config_error + 'm resolved) \<and> r_cliForced r0 = fmempty \<and> cf_rules (r_source r0) = cf_rules f"
  unfolding Resolve_def Let_def
  by (simp split: if_split_asm sum.split_asm option.split_asm) (rule exI, rule conjI, assumption, simp)+

lemma Resolve_spec:
  assumes "Resolve load merge cur f sp reg = (Inr r :: 'e config_error + 'm resolved)"
  shows "fmlookup (r_enabled r) i =
      speak (configured_in reg (cf_rules f) i) (fmlookup (EnabledForProfile cur reg (r_profile r)) i)"
    and "length (filter (names_rule reg i) (sorted_keys (cf_rules f))) \<le> 1"
    and "list_all2 (override_of reg) (elems (cf_overrides f)) (r_overrides r)"
    and "r_cliForced r = fmempty" "cf_rules (r_source r) = cf_rules f"
proof -
  obtain r0 where r0: "resolve_rules cur reg f r0 = (Inr r :: 'e config_error + 'm resolved)" "r_cliForced r0 = fmempty"
    "cf_rules (r_source r0) = cf_rules f"
    using Resolve_Inr [OF assms] by blast
  note spec = resolve_rules_spec [OF r0(1)]
  show "fmlookup (r_enabled r) i =
      speak (configured_in reg (cf_rules f) i) (fmlookup (EnabledForProfile cur reg (r_profile r)) i)"
    using spec(1) by (simp add: spec(4))
  show "length (filter (names_rule reg i) (sorted_keys (cf_rules f))) \<le> 1"
    "list_all2 (override_of reg) (elems (cf_overrides f)) (r_overrides r)"
    "r_cliForced r = fmempty" "cf_rules (r_source r) = cf_rules f"
    using spec r0 by simp_all
qed


section \<open>The command line\<close>

definition default_severity :: "'r registrar \<Rightarrow> string \<Rightarrow> severity" where
  "default_severity reg ident = (case Lookup_rule reg ident of None \<Rightarrow> SeverityOff | Some m \<Rightarrow> md_severity m)"

text \<open>\<open>SeverityOff\<close> counts like no severity wherever the severities are used.\<close>

definition drop_off :: "severity option \<Rightarrow> severity option" where
  "drop_off s = (if s = Some SeverityOff then None else s)"

lemma drop_off_simps [simp]:
  "drop_off None = None" "drop_off (Some SeverityOff) = None" "s \<noteq> SeverityOff \<Longrightarrow> drop_off (Some s) = Some s"
  by (simp_all add: drop_off_def)

lemma drop_off_speak: "drop_off (speak s before) = speak s (drop_off before)"
  by (cases s) (auto simp: speak_def split: severity.splits)

lemma note_renamed_fields [simp]:
  "r_enabled (note_renamed d c i r) = r_enabled r" "r_cliForced (note_renamed d c i r) = r_cliForced r"
  "r_overrides (note_renamed d c i r) = r_overrides r" "r_source (note_renamed d c i r) = r_source r"
  "r_profile (note_renamed d c i r) = r_profile r"
  by (simp_all add: note_renamed_def)

lemma enable_rules_spec:
  "enable_rules reg ids r = (r', None) \<Longrightarrow>
    r_overrides r' = r_overrides r \<and>
    fmlookup (r_enabled r') i =
      (if \<exists>c\<in>set ids. names_rule reg i c then Some (default_severity reg i) else fmlookup (r_enabled r) i) \<and>
    fmlookup (r_cliForced r') i =
      (if \<exists>c\<in>set ids. names_rule reg i c then Some (default_severity reg i) else fmlookup (r_cliForced r) i)"
proof (induction ids arbitrary: r)
  case (Cons c ids)
  then obtain j d where "ResolveID reg c = Some (j, d)" by (cases "ResolveID reg c") auto
  with Cons.prems Cons.IH show ?case by (fastforce simp: Let_def names_rule_def default_severity_def)
qed simp

lemma disable_rules_spec:
  "disable_rules reg ids r = (r', None) \<Longrightarrow>
    r_overrides r' = r_overrides r \<and>
    fmlookup (r_enabled r') i =
      (if \<exists>c\<in>set ids. names_rule reg i c then None else fmlookup (r_enabled r) i) \<and>
    fmlookup (r_cliForced r') i =
      (if \<exists>c\<in>set ids. names_rule reg i c then Some SeverityOff else fmlookup (r_cliForced r) i)"
proof (induction ids arbitrary: r)
  case (Cons c ids)
  then obtain j d where "ResolveID reg c = Some (j, d)" by (cases "ResolveID reg c") auto
  with Cons.prems Cons.IH show ?case by (fastforce simp: Let_def names_rule_def)
qed simp

text \<open>Applying the rules of the file to a profile, in any order of the table without a rule named twice.\<close>

lemma reapply_rules_spec:
  "\<forall>i. length (filter (names_rule reg i) keys) \<le> 1 \<Longrightarrow> reapply_rules reg keys (enabled, r) = (enabled', r') \<Longrightarrow>
    fmlookup enabled' i = speak (said reg (cf_rules (r_source r)) keys i) (fmlookup enabled i) \<and>
    r_overrides r' = r_overrides r \<and> r_cliForced r' = r_cliForced r \<and> r_source r' = r_source r \<and>
    r_profile r' = r_profile r"
proof (induction keys arbitrary: enabled r)
  case (Cons key keys)
  have once: "\<forall>i. length (filter (names_rule reg i) keys) \<le> 1"
  proof
    fix i
    have "length (filter (names_rule reg i) keys) \<le> length (filter (names_rule reg i) (key # keys))" by simp
    with Cons.prems(1) show "length (filter (names_rule reg i) keys) \<le> 1" using order_trans by blast
  qed
  note IH = Cons.IH [OF once]
  show ?case
  proof (cases "ResolveID reg key")
    case None
    then have "\<not> names_rule reg i key" by (simp add: names_rule_def)
    with None Cons.prems(2) IH show ?thesis by (simp add: said_Cons)
  next
    case (Some p)
    then obtain ident d where res: "ResolveID reg key = Some (ident, d)" by (cases p) auto
    then have named: "names_rule reg i key \<longleftrightarrow> i = ident" by (auto simp: names_rule_def)
    have "filter (names_rule reg ident) keys = []"
      using Cons.prems(1) [rule_format, of ident] res by (simp add: names_rule_def)
    then have alone: "said reg rules keys ident = None" for rules by (rule said_unnamed)
    define u where "u = note_renamed d key ident r"
    define e where "e = (case configuredSeverity (value_of (cf_rules (r_source r)) key) of
      None \<Rightarrow> enabled | Some SeverityOff \<Rightarrow> fmdrop ident enabled | Some sev \<Rightarrow> fmupd ident sev enabled)"
    have run: "reapply_rules reg keys (e, u) = (enabled', r')"
      using Cons.prems(2) res by (simp add: Let_def u_def e_def split: option.splits severity.splits)
    have "fmlookup e i = (if i = ident then speak (configuredSeverity (value_of (cf_rules (r_source r)) key)) (fmlookup enabled i)
        else fmlookup enabled i)"
      by (simp add: e_def speak_def split: option.splits severity.splits)
    with IH [OF run] named alone show ?thesis by (simp add: said_Cons u_def)
  qed
qed simp


lemma apply_profile_spec:
  assumes "apply_profile cur reg profile r = (r', None)"
    and "\<forall>i. length (filter (names_rule reg i) (sorted_keys (cf_rules (r_source r)))) \<le> 1"
    and base: "\<And>i. fmlookup (r_enabled r) i =
      speak (configured_in reg (cf_rules (r_source r)) i) (fmlookup (EnabledForProfile cur reg (r_profile r)) i)"
  shows "fmlookup (r_enabled r') i = speak (configured_in reg (cf_rules (r_source r)) i)
      (fmlookup (EnabledForProfile cur reg (if profile = [] then r_profile r else profile)) i)"
    and "r_overrides r' = r_overrides r" "r_cliForced r' = r_cliForced r"
proof -
  have all: "fmlookup (r_enabled r') i = speak (configured_in reg (cf_rules (r_source r)) i)
      (fmlookup (EnabledForProfile cur reg (if profile = [] then r_profile r else profile)) i) \<and>
      r_overrides r' = r_overrides r \<and> r_cliForced r' = r_cliForced r"
  proof (cases "profile = []")
    case True
    with assms(1) base show ?thesis by (simp add: apply_profile_def)
  next
    case False
    define u where "u = r\<lparr>r_profile := profile, r_source := (r_source r)\<lparr>cf_profile := profile\<rparr>\<rparr>"
    obtain e v where run: "reapply_rules reg (sorted_keys (cf_rules (r_source u)))
      (EnabledForProfile cur reg profile, u) = (e, v)" by force
    with assms(1) False have "r' = v\<lparr>r_enabled := e\<rparr>"
      by (simp add: apply_profile_def u_def split: if_splits)
    with reapply_rules_spec [OF _ run, of i] assms(2) False show ?thesis
      by (simp add: u_def configured_in_said)
  qed
  then show "fmlookup (r_enabled r') i = speak (configured_in reg (cf_rules (r_source r)) i)
      (fmlookup (EnabledForProfile cur reg (if profile = [] then r_profile r else profile)) i)"
    "r_overrides r' = r_overrides r" "r_cliForced r' = r_cliForced r" by simp_all
qed

lemma apply_target_spec:
  "apply_target load merge target r = (r', None) \<Longrightarrow>
    r_enabled r' = r_enabled r \<and> r_overrides r' = r_overrides r \<and> r_cliForced r' = r_cliForced r"
  by (auto simp: apply_target_def split: if_splits sum.splits)

lemma and_then_None:
  "and_then p f = (s, None) \<Longrightarrow> \<exists>s'. p = (s', None) \<and> f s' = (s, None)"
  by (auto simp: and_then_def split: prod.splits option.splits)

section \<open>Precedence\<close>

text \<open>What the overrides of a path make of a severity: the last one that matches and names the rule wins.\<close>

fun overridden :: "'r registrar \<Rightarrow> string \<Rightarrow> override list \<Rightarrow> string \<Rightarrow> severity option \<Rightarrow> severity option" where
  "overridden reg path [] ident before = before"
| "overridden reg path (ov # ovs) ident before =
    overridden reg path ovs ident
      (if matchesAnyGlob (ov_paths ov) path then speak (configured_in reg (ov_rules ov) ident) before else before)"

lemma override_loop_spec:
  "list_all2 (override_of reg) ovs os \<Longrightarrow>
    fmlookup (override_loop path os m) i = overridden reg path ovs i (fmlookup m i)"
  by (induction ovs os arbitrary: m rule: list_all2_induct) (auto simp: override_of_def)

lemma drop_off_overridden:
  "drop_off (overridden reg path ovs i before) = overridden reg path ovs i (drop_off before)"
  by (induction ovs arbitrary: before) (auto simp: drop_off_speak)



text \<open>A file that names the rule by its deprecated name, and switches it off in include files.\<close>

definition example_config :: config_file where
  "example_config = empty_config\<lparr>cf_rules := fmap_of_list [(''unused-variable'', VString ''hint'')],
    cf_overrides := Some [\<lparr>ov_paths = [''*.inc''], ov_rules = fmap_of_list [(''unused-local'', VString ''off'')]\<rparr>]\<rparr>"

definition example_resolve :: "unit config_error + unit resolved" where
  "example_resolve = Resolve (\<lambda>_. Inr ()) (\<lambda>_ _. Inr ()) Map.empty example_config [] example_registry"

definition example_cli :: "unit resolved \<times> unit config_error option" where
  "example_cli = ApplyCLIOverrides (\<lambda>_. Inr ()) (\<lambda>_ _. Inr ()) Map.empty ''all'' [] [] [] example_registry
    (projr example_resolve)"


end
