(* ===== verification/Project_Features.thy ===== *)
theory Project_Features
  imports Effective_Rules
begin

unbundle bit_operations_syntax

text \<open>
  The project facts to collect (\<open>pkg/project/features.go\<close>) and the ones the rules in force need
  (\<open>internal/config/features.go\<close>).
\<close>

section \<open>Sets of features\<close>

type_synonym features = "16 word"

definition FeatureDefinedNames :: features where "FeatureDefinedNames = 1"
definition FeatureDuplicates :: features where "FeatureDuplicates = 2"
definition FeatureConflicts :: features where "FeatureConflicts = 4"
definition FeatureIncludeCycles :: features where "FeatureIncludeCycles = 8"
definition FeatureIncludeIssues :: features where "FeatureIncludeIssues = 16"
definition FeatureReferences :: features where "FeatureReferences = 32"
definition FeatureUnusedIncludes :: features where "FeatureUnusedIncludes = 64"
definition FeatureCallGraph :: features where "FeatureCallGraph = 128"
definition FeatureRuntimeCalls :: features where "FeatureRuntimeCalls = 256"
definition FeatureFunctionEffects :: features where "FeatureFunctionEffects = 512"
definition FeatureTrivia :: features where "FeatureTrivia = 1024"

lemmas feature_defs =
  FeatureDefinedNames_def FeatureDuplicates_def FeatureConflicts_def FeatureIncludeCycles_def FeatureIncludeIssues_def
  FeatureReferences_def FeatureUnusedIncludes_def FeatureCallGraph_def FeatureRuntimeCalls_def
  FeatureFunctionEffects_def FeatureTrivia_def

definition feature_list :: "features list" where
  "feature_list =
    [FeatureDefinedNames, FeatureDuplicates, FeatureConflicts, FeatureIncludeCycles, FeatureIncludeIssues,
     FeatureReferences, FeatureUnusedIncludes, FeatureCallGraph, FeatureRuntimeCalls, FeatureFunctionEffects,
     FeatureTrivia]"

definition AllFeatures :: features where
  "AllFeatures = foldr (OR) feature_list 0"

definition HasFeature :: "features \<Rightarrow> features \<Rightarrow> bool" where
  "HasFeature f feature = (f AND feature \<noteq> 0)"

definition withDependencies :: "features \<Rightarrow> features" where
  "withDependencies f =
    (let f = (if HasFeature f FeatureUnusedIncludes then f OR (FeatureIncludeIssues OR FeatureReferences) else f);
         f = (if HasFeature f FeatureFunctionEffects then f OR FeatureCallGraph else f);
         f = (if HasFeature f FeatureRuntimeCalls then f OR FeatureCallGraph else f)
     in if HasFeature f FeatureCallGraph then f OR FeatureReferences else f)"

definition NewFeatures :: "features list \<Rightarrow> features" where
  "NewFeatures fs = withDependencies (foldl (OR) 0 fs)"

definition NewFeaturesFromSet :: "features \<Rightarrow> features" where
  "NewFeaturesFromSet f = withDependencies f"

section \<open>The features the rules need\<close>

definition ruleProjectFeatures :: "string \<Rightarrow> features" where
  "ruleProjectFeatures ident =
    (if ident \<in> {''duplicate-function-definition'', ''duplicate-global-definition''} then NewFeatures [FeatureDuplicates]
     else if ident = ''conflicting-include-symbol'' then NewFeatures [FeatureConflicts]
     else if ident = ''include-cycle'' then NewFeatures [FeatureIncludeCycles]
     else if ident \<in> {''missing-include'', ''ambiguous-include'', ''duplicate-include'', ''forbidden-include'',
       ''include-layering''} then NewFeatures [FeatureIncludeIssues]
     else if ident = ''unused-include'' then NewFeatures [FeatureUnusedIncludes]
     else if ident \<in> {''unconditional-recursion'', ''recursive-call''} then NewFeatures [FeatureCallGraph]
     else if ident = ''tainted-data-to-sink'' then NewFeatures [FeatureCallGraph, FeatureRuntimeCalls]
     else if ident \<in> {''unused-function'', ''unused-global''} then NewFeatures [FeatureReferences]
     else if ident \<in> {''argument-tag-mismatch'', ''incomplete-enum-switch'', ''unsafe-string-termination'',
       ''restricted-syntax'', ''target-native-availability'', ''overwritten-copy'', ''repeated-format-work'',
       ''repeated-strlen'', ''string-concatenation-loop''} then NewFeatures [FeatureReferences]
     else if ident = ''possibly-uninitialized'' then NewFeatures [FeatureReferences, FeatureFunctionEffects]
     else if ident \<in> {''redundant-initialization'', ''duplicate-condition'', ''resource-shared''}
     then NewFeatures [FeatureFunctionEffects]
     else if ident \<in> {''deprecated-function'', ''unimplemented-function''}
     then NewFeatures [FeatureReferences, FeatureDefinedNames]
     else if ident \<in> {''format-argument-count'', ''deprecated-native'', ''discarded-repeating-timer'',
       ''format-argument-tag'', ''required-call-order'', ''native-argument-count'', ''argument-value-range'',
       ''settimerex-format-argument-count'', ''swapped-arguments'', ''buffer-size'', ''ignored-return-value''}
     then NewFeatures [FeatureDefinedNames]
     else if ident \<in> {''public-documentation'', ''todo-policy''} then NewFeatures [FeatureTrivia]
     else 0)"

text \<open>The identifiers with a severity in one of the maps, as the three loops collect them.\<close>

definition enabled_ids :: "string set \<Rightarrow> (string, severity) fmap \<Rightarrow> string list" where
  "enabled_ids excluded m =
    filter (\<lambda>ident. fmlookup m ident \<noteq> Some SeverityOff \<and> ident \<notin> excluded) (sorted_keys m)"

definition ProjectFeaturesExcluding :: "string set \<Rightarrow> 'm resolved option \<Rightarrow> features" where
  "ProjectFeaturesExcluding excluded config =
    (case config of
      None \<Rightarrow> AllFeatures
    | Some r \<Rightarrow>
        if elems (cf_externalRules (r_source r)) \<noteq> [] then AllFeatures
        else
          (let ids = remdups (enabled_ids excluded (r_enabled r) @
                 concat (map (\<lambda>ov. enabled_ids excluded (ro_enabled ov)) (r_overrides r)) @
                 enabled_ids excluded (r_cliForced r))
           in NewFeaturesFromSet (foldl (\<lambda>features ident. features OR ruleProjectFeatures ident) 0 ids)))"

definition ProjectFeatures :: "'m resolved option \<Rightarrow> features" where
  "ProjectFeatures config = ProjectFeaturesExcluding {} config"

section \<open>Inclusion\<close>

definition included :: "features \<Rightarrow> features \<Rightarrow> bool" where
  "included f g = (f AND g = f)"

lemma included_bit: "included f g \<longleftrightarrow> (\<forall>n. bit f n \<longrightarrow> bit g n)"
proof -
  have "bit f n \<Longrightarrow> n < 16" for n using bit_imp_le_length [of f n] by simp
  then show ?thesis unfolding included_def bit_eq_iff by (auto simp: bit_and_iff)
qed

lemma included_or: "included f g \<Longrightarrow> included f (g OR h)" "included f (f OR h)" "included h (f OR h)"
  by (auto simp: included_bit bit_or_iff)

lemma included_trans: "included f g \<Longrightarrow> included g h \<Longrightarrow> included f h"
  by (simp add: included_bit)

lemma included_withDependencies: "included f (withDependencies f)"
  by (auto simp: withDependencies_def Let_def included_bit bit_or_iff)

lemma included_foldl:
  "included f g \<Longrightarrow> included f (foldl (\<lambda>features ident. features OR need ident) g ids)"
  by (induction ids arbitrary: g) (auto intro: included_or)

lemma included_foldl_mem:
  "ident \<in> set ids \<Longrightarrow> included (need ident) (foldl (\<lambda>features ident. features OR need ident) g ids)"
  by (induction ids arbitrary: g) (auto intro: included_foldl included_or)

lemma HasFeature_or: "HasFeature (f OR g) x \<longleftrightarrow> HasFeature f x \<or> HasFeature g x"
  unfolding HasFeature_def bit.conj_disj_distrib2 by (simp add: or_eq_0_iff)

lemma feature_table:
  "HasFeature FeatureIncludeIssues FeatureIncludeIssues" "HasFeature FeatureReferences FeatureReferences"
  "HasFeature FeatureCallGraph FeatureCallGraph"
  "\<not> HasFeature FeatureIncludeIssues FeatureUnusedIncludes" "\<not> HasFeature FeatureReferences FeatureUnusedIncludes"
  "\<not> HasFeature FeatureCallGraph FeatureUnusedIncludes" "\<not> HasFeature FeatureIncludeIssues FeatureFunctionEffects"
  "\<not> HasFeature FeatureReferences FeatureFunctionEffects" "\<not> HasFeature FeatureCallGraph FeatureFunctionEffects"
  "\<not> HasFeature FeatureIncludeIssues FeatureRuntimeCalls" "\<not> HasFeature FeatureReferences FeatureRuntimeCalls"
  "\<not> HasFeature FeatureCallGraph FeatureRuntimeCalls" "\<not> HasFeature FeatureIncludeIssues FeatureCallGraph"
  "\<not> HasFeature FeatureReferences FeatureCallGraph"
  by (simp_all add: HasFeature_def feature_defs)

text \<open>The order of the four tests is enough: no later one makes an earlier one true.\<close>

definition dependencies_met :: "features \<Rightarrow> bool" where
  "dependencies_met f \<longleftrightarrow>
    (HasFeature f FeatureUnusedIncludes \<longrightarrow> HasFeature f FeatureIncludeIssues \<and> HasFeature f FeatureReferences) \<and>
    (HasFeature f FeatureFunctionEffects \<or> HasFeature f FeatureRuntimeCalls \<longrightarrow> HasFeature f FeatureCallGraph) \<and>
    (HasFeature f FeatureCallGraph \<longrightarrow> HasFeature f FeatureReferences)"

lemma withDependencies_met: "dependencies_met (withDependencies f)"
  by (auto simp: dependencies_met_def withDependencies_def Let_def HasFeature_or feature_table)

lemma enabled_ids_mem:
  "fmlookup m ident = Some s \<Longrightarrow> s \<noteq> SeverityOff \<Longrightarrow> ident \<notin> excluded \<Longrightarrow> ident \<in> set (enabled_ids excluded m)"
  by (auto simp: enabled_ids_def sorted_keys_def sorted_list_of_fset.rep_eq fmlookup_dom_iff)

lemma override_loop_source:
  "fmlookup (override_loop path os m) i = Some s \<Longrightarrow>
    fmlookup m i = Some s \<or> (\<exists>ro\<in>set os. fmlookup (ro_enabled ro) i = Some s)"
proof (induction os arbitrary: m)
  case (Cons ro os)
  show ?case
  proof (cases "matchesAnyGlob (ro_paths ro) path")
    case True
    from Cons.IH [of "without (ro_disabled ro) (m ++\<^sub>f ro_enabled ro)"] Cons.prems True show ?thesis
      by (auto simp: without_def split: if_splits)
  next
    case False
    with Cons show ?thesis by auto
  qed
qed simp

lemma EnabledForPath_source:
  assumes "fmlookup (EnabledForPath r path) i = Some s"
  shows "fmlookup (r_enabled r) i = Some s \<or> (\<exists>ro\<in>set (r_overrides r). fmlookup (ro_enabled ro) i = Some s) \<or>
    fmlookup (r_cliForced r) i = Some s"
  using assms override_loop_source [of path "r_overrides r" "r_enabled r" i s]
  by (auto simp: EnabledForPath_def force_def split: if_splits)

lemma all_features: "included (ruleProjectFeatures ident) AllFeatures" "dependencies_met AllFeatures"
proof -
  have all: "AllFeatures = 2047" by (simp add: AllFeatures_def feature_list_def feature_defs)
  show "dependencies_met AllFeatures" unfolding all by (simp add: dependencies_met_def HasFeature_def feature_defs)
  show "included (ruleProjectFeatures ident) AllFeatures"
    unfolding all ruleProjectFeatures_def included_def
    by (simp add: NewFeatures_def withDependencies_def HasFeature_def feature_defs)
qed

text \<open>
  C28: Whatever file a rule is run on, the project facts collected beforehand contain all the facts that rule
  reads and the facts these are built from: no override or command line option can enable a rule whose facts
  are missing.
\<close>

theorem ProjectFeatures_sufficient:
  assumes "fmlookup (EnabledForPath r path) ident = Some s" "s \<noteq> SeverityOff" "ident \<notin> excluded"
  shows "included (ruleProjectFeatures ident) (ProjectFeaturesExcluding excluded (Some r)) \<and>
    dependencies_met (ProjectFeaturesExcluding excluded (Some r))"
proof (cases "elems (cf_externalRules (r_source r)) = []")
  case True
  let ?ids = "remdups (enabled_ids excluded (r_enabled r) @
    concat (map (\<lambda>ov. enabled_ids excluded (ro_enabled ov)) (r_overrides r)) @ enabled_ids excluded (r_cliForced r))"
  have "ident \<in> set ?ids"
    using EnabledForPath_source [OF assms(1)] enabled_ids_mem [OF _ assms(2,3)] by auto
  with True included_foldl_mem [of ident ?ids ruleProjectFeatures 0] show ?thesis
    using included_trans [OF _ included_withDependencies]
    by (simp add: ProjectFeaturesExcluding_def Let_def NewFeaturesFromSet_def withDependencies_met del: set_remdups)
next
  case False
  then show ?thesis using all_features by (simp add: ProjectFeaturesExcluding_def)
qed


theorem ProjectFeatures_sufficient_witness:
  "included FeatureReferences (ProjectFeaturesExcluding {}
    (Some ((projr example_resolve)\<lparr>r_enabled := fmap_of_list [(''unused-function'', SeverityHint)], r_overrides := []\<rparr>)))"
proof -
  let ?r = "(projr example_resolve)\<lparr>r_enabled := fmap_of_list [(''unused-function'', SeverityHint)], r_overrides := []\<rparr>"
  have "fmlookup (EnabledForPath ?r ''a.pwn'') ''unused-function'' = Some SeverityHint"
    by (simp add: EnabledForPath_def)
  moreover have "ruleProjectFeatures ''unused-function'' = FeatureReferences"
    by (simp add: ruleProjectFeatures_def NewFeatures_def withDependencies_def HasFeature_def feature_defs)
  ultimately show ?thesis
    using ProjectFeatures_sufficient [of ?r "''a.pwn''" "''unused-function''" SeverityHint "{}"] by simp
qed

end
