(* ===== verification/Graph_Search.thy ===== *)
theory Graph_Search
  imports Prelude
begin

text \<open>
  Depth-first search over nodes numbered from 0, as the include and call graphs of a project use it. The
  nodes still to visit are a stack: visiting a node puts its successors on top, in order. Nodes from \<open>n\<close> on
  do not exist and have no successors.
\<close>

definition succs_below :: "nat \<Rightarrow> (nat \<Rightarrow> nat list) \<Rightarrow> nat \<Rightarrow> nat list" where
  "succs_below n succs i = (if i < n then succs i else [])"

definition unvisited :: "nat \<Rightarrow> nat list \<Rightarrow> nat" where
  "unvisited n visited = card {j. j < n \<and> j \<notin> set visited}"

lemma unvisited_less: "i < n \<Longrightarrow> i \<notin> set visited \<Longrightarrow> unvisited n (visited @ [i]) < unvisited n visited"
  unfolding unvisited_def by (rule psubset_card_mono) auto

lemma unvisited_same: "\<not> i < n \<Longrightarrow> unvisited n (visited @ [i]) = unvisited n visited"
  unfolding unvisited_def by (rule arg_cong [of _ _ card]) auto

function dfs :: "nat \<Rightarrow> (nat \<Rightarrow> nat list) \<Rightarrow> nat list \<Rightarrow> nat list \<Rightarrow> nat list" where
  "dfs n succs [] visited = visited"
| "dfs n succs (i # pending) visited =
    (if i \<in> set visited then dfs n succs pending visited
     else dfs n succs (succs_below n succs i @ pending) (visited @ [i]))"
  by pat_completeness auto

termination
  by (relation "measures
      [\<lambda>(n, succs, pending, visited). unvisited n visited, \<lambda>(n, succs, pending, visited). length pending]")
    (auto simp: succs_below_def unvisited_same dest: unvisited_less)

declare dfs.simps(2) [simp del]

definition edge_below :: "nat \<Rightarrow> (nat \<Rightarrow> nat list) \<Rightarrow> nat \<Rightarrow> nat \<Rightarrow> bool" where
  "edge_below n succs i j = (j \<in> set (succs_below n succs i))"

text \<open>A search from closed ground visits exactly what its pending nodes reach, each node once.\<close>

lemma dfs_invariant:
  assumes "\<forall>i\<in>set visited. \<forall>j. edge_below n succs i j \<longrightarrow> j \<in> set visited \<union> set pending"
    and "distinct visited"
  shows "distinct (dfs n succs pending visited) \<and>
    set visited \<union> set pending \<subseteq> set (dfs n succs pending visited) \<and>
    (\<forall>j\<in>set (dfs n succs pending visited). j \<in> set visited \<or> (\<exists>i\<in>set pending. (edge_below n succs)\<^sup>*\<^sup>* i j)) \<and>
    (\<forall>i\<in>set (dfs n succs pending visited). \<forall>j. edge_below n succs i j \<longrightarrow> j \<in> set (dfs n succs pending visited))"
  using assms
proof (induction n succs pending visited rule: dfs.induct)
  case (1 n succs visited)
  then show ?case by simp
next
  case (2 n succs i pending visited)
  show ?case
  proof (cases "i \<in> set visited")
    case True
    have "\<forall>i\<in>set visited. \<forall>j. edge_below n succs i j \<longrightarrow> j \<in> set visited \<union> set pending"
      using "2.prems"(1) True by auto
    from "2.IH"(1) [OF True this "2.prems"(2)] True show ?thesis by (simp add: dfs.simps(2)) blast
  next
    case False
    let ?d = "dfs n succs (succs_below n succs i @ pending) (visited @ [i])"
    have run: "dfs n succs (i # pending) visited = ?d" using False by (simp add: dfs.simps(2))
    have "\<forall>k\<in>set (visited @ [i]). \<forall>j. edge_below n succs k j \<longrightarrow>
        j \<in> set (visited @ [i]) \<union> set (succs_below n succs i @ pending)"
      using "2.prems"(1) by (auto simp: edge_below_def)
    note IH = "2.IH"(2) [OF False this]
    have "distinct (visited @ [i])" using "2.prems"(2) False by simp
    note IH = IH [OF this]
    have "j \<in> set visited \<or> (\<exists>k\<in>set (i # pending). (edge_below n succs)\<^sup>*\<^sup>* k j)" if "j \<in> set ?d" for j
    proof -
      from IH that consider "j \<in> set visited" | "j = i"
        | k where "k \<in> set (succs_below n succs i)" "(edge_below n succs)\<^sup>*\<^sup>* k j"
        | k where "k \<in> set pending" "(edge_below n succs)\<^sup>*\<^sup>* k j" by auto
      then show ?thesis
      proof cases
        case 3
        then have "(edge_below n succs)\<^sup>*\<^sup>* i j"
          by (intro converse_rtranclp_into_rtranclp [of _ i k]) (simp_all add: edge_below_def)
        then show ?thesis by auto
      qed auto
    qed
    with IH show ?thesis unfolding run by auto
  qed
qed

lemma reach_closed:
  assumes "r\<^sup>*\<^sup>* i j" "i \<in> A" "\<And>i j. i \<in> A \<Longrightarrow> r i j \<Longrightarrow> j \<in> A"
  shows "j \<in> A"
  using assms by (induction rule: rtranclp_induct) auto

lemma dfs_correct:
  "distinct (dfs n succs [i] []) \<and> set (dfs n succs [i] []) = {j. (edge_below n succs)\<^sup>*\<^sup>* i j}"
proof -
  let ?d = "dfs n succs [i] []"
  have inv: "distinct ?d" "i \<in> set ?d" "\<forall>j\<in>set ?d. (edge_below n succs)\<^sup>*\<^sup>* i j"
    "\<And>k j. k \<in> set ?d \<Longrightarrow> edge_below n succs k j \<Longrightarrow> j \<in> set ?d"
    using dfs_invariant [of "[]" n succs "[i]"] by auto
  have "j \<in> set ?d" if "(edge_below n succs)\<^sup>*\<^sup>* i j" for j
    using reach_closed [OF that inv(2)] inv(4) by blast
  with inv show ?thesis by blast
qed

text \<open>The root comes first.\<close>

lemma dfs_prefix: "\<exists>new. dfs n succs pending visited = visited @ new"
proof (induction n succs pending visited rule: dfs.induct)
  case (2 n succs i pending visited)
  then show ?case by (auto simp: dfs.simps(2) [of n succs i])
qed simp

lemma dfs_root: "\<exists>rest. dfs n succs [i] [] = i # rest"
  using dfs_prefix [of n succs "succs_below n succs i" "[i]"] by (simp add: dfs.simps(2))

text \<open>The search that stops at a target and says whether it found it.\<close>

function dfs_finds :: "nat \<Rightarrow> (nat \<Rightarrow> nat list) \<Rightarrow> nat \<Rightarrow> nat list \<Rightarrow> nat list \<Rightarrow> bool" where
  "dfs_finds n succs target [] visited = False"
| "dfs_finds n succs target (i # pending) visited =
    (if i \<in> set visited then dfs_finds n succs target pending visited
     else if i = target then True
     else dfs_finds n succs target (succs_below n succs i @ pending) (visited @ [i]))"
  by pat_completeness auto

termination
  by (relation "measures
      [\<lambda>(n, succs, target, pending, visited). unvisited n visited,
       \<lambda>(n, succs, target, pending, visited). length pending]")
    (auto simp: succs_below_def unvisited_same dest: unvisited_less)

declare dfs_finds.simps(2) [simp del]

lemma dfs_finds_dfs:
  "target \<notin> set visited \<Longrightarrow>
    dfs_finds n succs target pending visited = (target \<in> set (dfs n succs pending visited))"
proof (induction n succs target pending visited rule: dfs_finds.induct)
  case (2 n succs target i pending visited)
  have "target \<in> set (dfs n succs ps (visited @ [target]))" for ps
    using dfs_prefix [of n succs ps "visited @ [target]"] by auto
  with 2 show ?case by (auto simp: dfs.simps(2) [of n succs i] dfs_finds.simps(2))
qed simp

lemma dfs_finds_correct: "dfs_finds n succs target [i] [] = (edge_below n succs)\<^sup>*\<^sup>* i target"
  using dfs_correct [of n succs i] by (simp add: dfs_finds_dfs)

end
