(* ===== verification/Include_Graph.thy ===== *)
theory Include_Graph
  imports Graph_Search Go_Paths Go_Strings Project_Features
begin

text \<open>
  The include graph of a project (\<open>pkg/project\<close>): compilation units (\<open>units.go\<close>), include cycles
  (\<open>cycles.go\<close>), include problems (\<open>include_issues.go\<close>), what an include makes reachable
  (\<open>unused_includes.go\<close>), and the phases of \<open>BuildContext\<close> (\<open>model.go\<close>) that build them. A file is its
  place in \<open>Model.Files\<close>; parsing and include resolution have filled in the files before.
\<close>

section \<open>Files and includes\<close>

record include_ref =
  in_path :: string
  in_resolved :: "nat option"
  in_candidates :: "string list"
  in_optional :: bool
  in_uncertain :: bool
  in_valid :: bool
  in_start :: nat

record project_file =
  pf_path :: string
  pf_canonical :: string
  pf_provided :: bool
  pf_includes :: "include_ref list"

type_synonym project = "project_file list"

definition file_includes :: "project \<Rightarrow> nat \<Rightarrow> include_ref list" where
  "file_includes files i = (if i < length files then pf_includes (files ! i) else [])"

definition canonical_of :: "project \<Rightarrow> nat \<Rightarrow> string" where
  "canonical_of files i = (if i < length files then pf_canonical (files ! i) else [])"

text \<open>The file a certain include leads to.\<close>

definition include_target :: "include_ref \<Rightarrow> nat option" where
  "include_target inc = (if in_uncertain inc then None else in_resolved inc)"

definition included_files :: "project \<Rightarrow> nat \<Rightarrow> nat list" where
  "included_files files i = List.map_filter include_target (file_includes files i)"

definition includes_file :: "project \<Rightarrow> nat \<Rightarrow> nat \<Rightarrow> bool" where
  "includes_file files = edge_below (length files) (included_files files)"

lemma includes_file_iff:
  "includes_file files i j \<longleftrightarrow> (\<exists>inc\<in>set (file_includes files i). include_target inc = Some j)"
  by (force simp: includes_file_def edge_below_def succs_below_def included_files_def file_includes_def
      List.map_filter_def)

section \<open>Units\<close>

record comp_unit =
  un_root :: nat
  un_files :: "nat list"

definition unit_members :: "comp_unit \<Rightarrow> nat set" where
  "unit_members u = set (un_files u)"

definition is_program :: "project \<Rightarrow> nat \<Rightarrow> bool" where
  "is_program files i = (map ascii_lower (path_ext (pf_path (files ! i))) = ''.pwn'')"

definition unit_roots :: "project \<Rightarrow> nat list" where
  "unit_roots files =
    (let roots = filter (\<lambda>i. pf_provided (files ! i) \<and> is_program files i) [0..<length files] in
     if roots = [] then filter (\<lambda>i. pf_provided (files ! i)) [0..<length files] else roots)"

definition buildUnits :: "project \<Rightarrow> comp_unit list" where
  "buildUnits files =
    map (\<lambda>root. \<lparr>un_root = root, un_files = dfs (length files) (included_files files) [root] []\<rparr>) (unit_roots files)"

definition InProgram :: "project \<Rightarrow> comp_unit list \<Rightarrow> nat \<Rightarrow> bool" where
  "InProgram files units i = list_ex (\<lambda>u. is_program files (un_root u) \<and> i \<in> set (un_files u)) units"

section \<open>Cycles\<close>

record include_edge =
  ie_from :: nat
  ie_include :: include_ref
  ie_to :: nat

record include_cycle =
  ic_owner :: nat
  ic_edges :: "include_edge list"

definition offsetText :: "include_ref \<Rightarrow> string" where
  "offsetText inc = (if \<not> in_valid inc then ''0'' else in_path inc @ '':'' @ itoa (in_start inc))"

definition edge_part :: "project \<Rightarrow> include_edge \<Rightarrow> string" where
  "edge_part files e =
    canonical_of files (ie_from e) @ '':'' @ offsetText (ie_include e) @ ''->'' @ canonical_of files (ie_to e)"

fun best_rotation :: "string list \<Rightarrow> nat list \<Rightarrow> string \<Rightarrow> string" where
  "best_rotation parts [] best = best"
| "best_rotation parts (i # is) best =
    (let candidate = join_with [CHR 0x00] (drop i parts @ take i parts)
     in best_rotation parts is (if candidate < best then candidate else best))"

definition includeCycleKey :: "project \<Rightarrow> include_edge list \<Rightarrow> string" where
  "includeCycleKey files edges =
    (if edges = [] then []
     else (let parts = map (edge_part files) edges
           in best_rotation parts [1..<length parts] (join_with [CHR 0x00] parts)))"

text \<open>
  The recursive \<open>visit\<close> as frames: each file being visited with the includes it has left. \<open>sr_state\<close> is 0
  before, 1 during and 2 after the visit of a file; \<open>sr_edges\<close> leads from the root to the innermost frame.
\<close>

record cycle_search =
  sr_state :: "nat \<Rightarrow> nat"
  sr_positions :: "nat \<rightharpoonup> nat"
  sr_files :: "nat list"
  sr_edges :: "include_edge list"
  sr_seen :: "string set"
  sr_cycles :: "include_cycle list"

definition enter_file :: "nat \<Rightarrow> cycle_search \<Rightarrow> cycle_search" where
  "enter_file i s = s\<lparr>sr_state := (sr_state s)(i := 1), sr_positions := (sr_positions s)(i \<mapsto> length (sr_files s)),
    sr_files := sr_files s @ [i]\<rparr>"

definition leave_file :: "nat \<Rightarrow> cycle_search \<Rightarrow> cycle_search" where
  "leave_file i s = s\<lparr>sr_files := butlast (sr_files s), sr_positions := (sr_positions s)(i := None),
    sr_state := (sr_state s)(i := 2), sr_edges := butlast (sr_edges s)\<rparr>"

definition note_cycle :: "project \<Rightarrow> nat \<Rightarrow> include_edge \<Rightarrow> cycle_search \<Rightarrow> cycle_search" where
  "note_cycle files owner e s =
    (let start = (case sr_positions s (ie_to e) of Some p \<Rightarrow> p | None \<Rightarrow> 0);
         cycleEdges = drop start (sr_edges s) @ [e];
         key = includeCycleKey files cycleEdges
     in if key \<in> sr_seen s then s
        else s\<lparr>sr_seen := insert key (sr_seen s),
          sr_cycles := sr_cycles s @ [\<lparr>ic_owner = owner, ic_edges = cycleEdges\<rparr>]\<rparr>)"

definition unentered :: "project \<Rightarrow> cycle_search \<Rightarrow> nat" where
  "unentered files s = card {j. j < length files \<and> sr_state s j = 0}"

definition frames_size :: "(nat \<times> include_ref list) list \<Rightarrow> nat" where
  "frames_size frames = sum_list (map (\<lambda>(i, incs). Suc (2 * length incs)) frames)"

lemma sr_state_simps [simp]:
  "sr_state (leave_file i s) = (sr_state s)(i := 2)" "sr_state (enter_file i s) = (sr_state s)(i := 1)"
  "sr_state (note_cycle files owner e s) = sr_state s"
  by (simp_all add: leave_file_def enter_file_def note_cycle_def Let_def)

lemma unentered_less: "j < length files \<Longrightarrow> sr_state s j = 0 \<Longrightarrow> sr_state s' = (sr_state s)(j := Suc 0) \<Longrightarrow>
    unentered files s' < unentered files s"
  unfolding unentered_def by (rule psubset_card_mono) auto

lemma unentered_le: "sr_state s' = (sr_state s)(j := Suc k) \<Longrightarrow> unentered files s' \<le> unentered files s"
  unfolding unentered_def by (rule card_mono) auto

lemma unentered_same: "sr_state s' = sr_state s \<Longrightarrow> unentered files s' = unentered files s"
  by (simp add: unentered_def)

function cycle_visit ::
  "project \<Rightarrow> nat \<Rightarrow> (nat \<times> include_ref list) list \<Rightarrow> cycle_search \<Rightarrow> cycle_search" where
  "cycle_visit files owner [] s = s"
| "cycle_visit files owner ((i, []) # frames) s = cycle_visit files owner frames (leave_file i s)"
| "cycle_visit files owner ((i, inc # incs) # frames) s =
    (case include_target inc of
      None \<Rightarrow> cycle_visit files owner ((i, incs) # frames) s
    | Some j \<Rightarrow>
        (let e = \<lparr>ie_from = i, ie_include = inc, ie_to = j\<rparr> in
         if sr_state s j = 0
         then cycle_visit files owner ((j, file_includes files j) # (i, incs) # frames)
           (enter_file j (s\<lparr>sr_edges := sr_edges s @ [e]\<rparr>))
         else if sr_state s j = 1
         then cycle_visit files owner ((i, incs) # frames) (note_cycle files owner e s)
         else cycle_visit files owner ((i, incs) # frames) s))"
  by pat_completeness auto

termination
proof (relation "measures
      [\<lambda>(files, owner, frames, s). unentered files s, \<lambda>(files, owner, frames, s). frames_size frames]", goal_cases)
  case (2 files owner i frames s)
  have "unentered files (leave_file i s) \<le> unentered files s"
    by (rule unentered_le [of _ _ i 1]) (simp add: numeral_2_eq_2)
  then show ?case by (auto simp: frames_size_def)
next
  case (4 files owner i inc incs frames s j e)
  let ?s = "enter_file j (s\<lparr>sr_edges := sr_edges s @ [e]\<rparr>)"
  show ?case
  proof (cases "j < length files")
    case True
    with 4 have "unentered files ?s < unentered files s" by (intro unentered_less) auto
    then show ?thesis by simp
  next
    case False
    moreover have "unentered files ?s \<le> unentered files s" by (rule unentered_le [of _ _ j 0]) simp
    ultimately show ?thesis by (auto simp: frames_size_def file_includes_def)
  qed
next
  case 1
  show ?case by simp
next
  case (3 files owner i inc incs frames s)
  show ?case by (simp add: frames_size_def)
next
  case (5 files owner i inc incs frames s j e)
  have "unentered files (note_cycle files owner e s) = unentered files s"
    by (rule unentered_same) simp
  then show ?case by (simp add: frames_size_def)
next
  case (6 files owner i inc incs frames s j e)
  show ?case by (simp add: frames_size_def)
qed

declare cycle_visit.simps(3) [simp del]

definition unit_cycles :: "project \<Rightarrow> comp_unit \<Rightarrow> string set \<times> include_cycle list \<Rightarrow> string set \<times> include_cycle list" where
  "unit_cycles files u acc =
    (let root = un_root u;
         s = cycle_visit files root [(root, file_includes files root)]
           (enter_file root \<lparr>sr_state = \<lambda>_. 0, sr_positions = Map.empty, sr_files = [], sr_edges = [],
             sr_seen = fst acc, sr_cycles = snd acc\<rparr>)
     in (sr_seen s, sr_cycles s))"

definition buildIncludeCycles :: "project \<Rightarrow> comp_unit list \<Rightarrow> include_cycle list" where
  "buildIncludeCycles files units =
    stable_sort (\<lambda>a b. includeCycleKey files (ic_edges a) < includeCycleKey files (ic_edges b))
      (snd (fold (unit_cycles files) units ({}, [])))"

section \<open>Include problems\<close>

text \<open>Each file belongs to the unit that reaches it first, a provided file outside all units to itself.\<close>

function assign_owner ::
  "project \<Rightarrow> nat \<Rightarrow> nat list \<Rightarrow> (nat \<times> nat) list \<Rightarrow> (nat \<times> nat) list" where
  "assign_owner files owner [] owners = owners"
| "assign_owner files owner (i # pending) owners =
    (if i \<in> fst ` set owners then assign_owner files owner pending owners
     else assign_owner files owner (succs_below (length files) (included_files files) i @ pending)
       (owners @ [(i, owner)]))"
  by pat_completeness auto

termination
proof (relation "measures
      [\<lambda>(files, owner, pending, owners). unvisited (length files) (map fst owners),
       \<lambda>(files, owner, pending, owners). length pending]", goal_cases)
  case (3 files owner i pending owners)
  then show ?case
    using unvisited_less [of i "length files" "map fst owners"] unvisited_same [of i "length files" "map fst owners"]
    by (auto simp: succs_below_def)
qed auto

declare assign_owner.simps(2) [simp del]

definition file_owners :: "project \<Rightarrow> comp_unit list \<Rightarrow> (nat \<times> nat) list" where
  "file_owners files units =
    fold (\<lambda>i owners. assign_owner files i [i] owners)
      (map un_root units @ filter (\<lambda>i. pf_provided (files ! i)) [0..<length files]) []"

record include_issue =
  ii_owner :: nat
  ii_file :: nat
  ii_include :: include_ref

record include_issues =
  is_directives :: "include_issue list"
  is_missing :: "include_issue list"
  is_ambiguous :: "include_issue list"
  is_duplicate :: "include_issue list"
  is_missingSeen :: "string set"
  is_ambiguousSeen :: "string set"
  is_duplicateSeen :: "string set"

definition issue_key :: "project \<Rightarrow> nat \<Rightarrow> include_ref \<Rightarrow> string" where
  "issue_key files i inc = canonical_of files i @ '':'' @ offsetText inc"

definition one_include ::
  "project \<Rightarrow> nat \<Rightarrow> nat \<Rightarrow> include_ref \<Rightarrow> string set \<times> include_issues \<Rightarrow> string set \<times> include_issues" where
  "one_include files owner i inc acc =
    (let (resolved, r) = acc in
     if \<not> in_valid inc \<or> in_path inc = [] \<or> in_uncertain inc then acc
     else
       (let key = issue_key files i inc;
            issue = \<lparr>ii_owner = owner, ii_file = i, ii_include = inc\<rparr>;
            r = r\<lparr>is_directives := is_directives r @ [issue]\<rparr>;
            r = (if in_resolved inc = None \<and> \<not> in_optional inc \<and> key \<notin> is_missingSeen r
              then r\<lparr>is_missingSeen := insert key (is_missingSeen r), is_missing := is_missing r @ [issue]\<rparr> else r);
            r = (if length (in_candidates inc) > 1 \<and> key \<notin> is_ambiguousSeen r
              then r\<lparr>is_ambiguousSeen := insert key (is_ambiguousSeen r), is_ambiguous := is_ambiguous r @ [issue]\<rparr>
              else r)
        in case in_resolved inc of
             None \<Rightarrow> (resolved, r)
           | Some j \<Rightarrow>
               (let target = canonical_of files j in
                if target \<in> resolved then
                  (if key \<in> is_duplicateSeen r then (resolved, r)
                   else (resolved, r\<lparr>is_duplicateSeen := insert key (is_duplicateSeen r),
                     is_duplicate := is_duplicate r @ [issue]\<rparr>))
                else (insert target resolved, r))))"

definition file_issues :: "project \<Rightarrow> (nat \<times> nat) list \<Rightarrow> nat \<Rightarrow> include_issues \<Rightarrow> include_issues" where
  "file_issues files owners i r =
    (case map_of owners i of
      None \<Rightarrow> r
    | Some owner \<Rightarrow> snd (fold (one_include files owner i) (file_includes files i) ({}, r)))"

definition issue_less :: "project \<Rightarrow> include_issue \<Rightarrow> include_issue \<Rightarrow> bool" where
  "issue_less files a b =
    (if canonical_of files (ii_file a) \<noteq> canonical_of files (ii_file b)
     then canonical_of files (ii_file a) < canonical_of files (ii_file b)
     else in_start (ii_include a) < in_start (ii_include b))"

definition sortIncludeIssues :: "project \<Rightarrow> include_issue list \<Rightarrow> include_issue list" where
  "sortIncludeIssues files issues = stable_sort (issue_less files) issues"

definition no_issues :: include_issues where
  "no_issues = \<lparr>is_directives = [], is_missing = [], is_ambiguous = [], is_duplicate = [],
    is_missingSeen = {}, is_ambiguousSeen = {}, is_duplicateSeen = {}\<rparr>"

definition buildIncludeIssues :: "project \<Rightarrow> comp_unit list \<Rightarrow> include_issues" where
  "buildIncludeIssues files units =
    (let r = fold (file_issues files (file_owners files units)) [0..<length files] no_issues
     in r\<lparr>is_directives := sortIncludeIssues files (is_directives r), is_missing := sortIncludeIssues files (is_missing r),
       is_ambiguous := sortIncludeIssues files (is_ambiguous r),
       is_duplicate := sortIncludeIssues files (is_duplicate r)\<rparr>)"

section \<open>What an include makes reachable\<close>

definition includeClosure :: "project \<Rightarrow> nat \<Rightarrow> nat set" where
  "includeClosure files i = set (dfs (length files) (included_files files) [i] [])"

text \<open>The includes but one: number \<open>k\<close> of file \<open>skip\<close>.\<close>

definition other_includes :: "project \<Rightarrow> nat \<Rightarrow> nat \<Rightarrow> nat \<Rightarrow> nat list" where
  "other_includes files skip k i =
    List.map_filter (\<lambda>(j, inc). if i = skip \<and> j = k then None else include_target inc)
      (enumerate 0 (file_includes files i))"

definition reachableWithout :: "project \<Rightarrow> nat \<Rightarrow> nat \<Rightarrow> nat \<Rightarrow> nat option \<Rightarrow> bool" where
  "reachableWithout files owner skip k target =
    (case target of
      None \<Rightarrow> False
    | Some t \<Rightarrow> dfs_finds (length files) (other_includes files skip k) t [owner] [])"

section \<open>Phases\<close>

definition needsDeclarations :: "features \<Rightarrow> bool" where
  "needsDeclarations f = (HasFeature f FeatureReferences \<or> HasFeature f FeatureDuplicates \<or> HasFeature f FeatureConflicts)"

definition needsUnits :: "features \<Rightarrow> bool" where
  "needsUnits f = (needsDeclarations f \<or> HasFeature f FeatureCallGraph)"

definition project_units :: "features \<Rightarrow> project \<Rightarrow> comp_unit list" where
  "project_units f files = (if needsUnits f then buildUnits files else [])"

record include_model =
  im_units :: "comp_unit list"
  im_cycles :: "include_cycle list"
  im_issues :: include_issues

definition build_include_model :: "features \<Rightarrow> project \<Rightarrow> include_model" where
  "build_include_model features files =
    (let features = withDependencies features;
         units = project_units features files
     in \<lparr>im_units = units,
         im_cycles = (if HasFeature features FeatureIncludeCycles then buildIncludeCycles files units else []),
         im_issues = (if HasFeature features FeatureIncludeIssues then buildIncludeIssues files units else no_issues)\<rparr>)"


section \<open>Reachability\<close>

definition includes_without :: "project \<Rightarrow> nat \<Rightarrow> nat \<Rightarrow> nat \<Rightarrow> nat \<Rightarrow> bool" where
  "includes_without files skip k i j \<longleftrightarrow>
    (\<exists>n<length (file_includes files i). \<not> (i = skip \<and> n = k) \<and> include_target (file_includes files i ! n) = Some j)"

lemma other_includes_edge:
  "edge_below (length files) (other_includes files skip k) = includes_without files skip k"
proof (intro ext)
  fix i j
  have "j \<in> set (other_includes files skip k i) \<longleftrightarrow>
      (\<exists>(n, inc)\<in>set (enumerate 0 (file_includes files i)). \<not> (i = skip \<and> n = k) \<and> include_target inc = Some j)"
    by (force simp: other_includes_def List.map_filter_def split: if_splits)
  also have "\<dots> \<longleftrightarrow> includes_without files skip k i j"
    unfolding includes_without_def by (auto simp: in_set_enumerate_eq)
  finally have "j \<in> set (other_includes files skip k i) \<longleftrightarrow> includes_without files skip k i j" .
  then show "edge_below (length files) (other_includes files skip k) i j = includes_without files skip k i j"
    by (auto simp: edge_below_def succs_below_def includes_without_def file_includes_def)
qed

text \<open>
  C31: A unit holds exactly the files its root reaches through certain includes, the root first and each file
  once; so does the closure of an include; and the test whether a file stays reachable without one include
  decides just that.
\<close>

theorem include_reachability_correct:
  "map (\<lambda>u. (un_root u, hd (un_files u), distinct (un_files u), set (un_files u))) (buildUnits files) =
      map (\<lambda>r. (r, r, True, {j. (includes_file files)\<^sup>*\<^sup>* r j})) (unit_roots files) \<and>
    includeClosure files i = {j. (includes_file files)\<^sup>*\<^sup>* i j} \<and>
    reachableWithout files owner skip k (Some t) = (includes_without files skip k)\<^sup>*\<^sup>* owner t"
proof -
  note dfs = dfs_correct [of "length files" "included_files files", folded includes_file_def]
  have "hd (dfs (length files) (included_files files) [r] []) = r" for r
    using dfs_root [of "length files" "included_files files" r] by auto
  with dfs show ?thesis
    by (simp add: buildUnits_def includeClosure_def reachableWithout_def dfs_finds_correct other_includes_edge)
qed

end
