(* ===== verification/Include_Cycles.thy ===== *)
theory Include_Cycles
  imports Include_Graph
begin

text \<open>
  The search for include cycles finds a cycle exactly when there is one, and reports only cycles; the phases
  of a project model can leave it without the units it searches.
\<close>

section \<open>Walks\<close>

definition edge_at :: "project \<Rightarrow> include_edge \<Rightarrow> nat \<Rightarrow> nat \<Rightarrow> bool" where
  "edge_at files e i j \<longleftrightarrow> ie_from e = i \<and> ie_to e = j \<and> ie_include e \<in> set (file_includes files i) \<and>
    include_target (ie_include e) = Some j"

text \<open>The edges lead along the files, one after the other.\<close>

fun chain :: "project \<Rightarrow> nat list \<Rightarrow> include_edge list \<Rightarrow> bool" where
  "chain files [] es = (es = [])"
| "chain files [i] es = (es = [])"
| "chain files (i # j # is) [] = False"
| "chain files (i # j # is) (e # es) = (edge_at files e i j \<and> chain files (j # is) es)"

lemma chain_length: "chain files is es \<Longrightarrow> length es = length is - 1"
  by (induction files "is" es rule: chain.induct) auto

lemma walk_snoc: "chain files (is @ [i]) es \<Longrightarrow> edge_at files e i j \<Longrightarrow> chain files (is @ [i, j]) (es @ [e])"
proof (induction "is" arbitrary: es)
  case (Cons k "is")
  then show ?case by (cases "is"; cases es) auto
qed simp

lemma chain_butlast: "chain files is es \<Longrightarrow> chain files (butlast is) (butlast es)"
proof (induction files "is" es rule: chain.induct)
  case (4 files i j "is" e es)
  then show ?case by (cases "is"; cases es) auto
qed auto

lemma chain_drop: "chain files is es \<Longrightarrow> p < length is \<Longrightarrow> chain files (drop p is) (drop p es)"
proof (induction files "is" es arbitrary: p rule: chain.induct)
  case (4 files i j "is" e es)
  then show ?case by (cases p) auto
qed auto

lemma chain_head: "chain files (i # is) es \<Longrightarrow> is \<noteq> [] \<Longrightarrow> ie_from (hd es) = i"
  by (cases "is"; cases es) (auto simp: edge_at_def)

lemma chain_reaches: "chain files (i # is) es \<Longrightarrow> is \<noteq> [] \<Longrightarrow> (includes_file files)\<^sup>+\<^sup>+ i (last is)"
proof (induction "is" arbitrary: i es)
  case (Cons j "is")
  then obtain e es' where es: "es = e # es'" "edge_at files e i j" "chain files (j # is) es'" by (cases es) auto
  then have step: "includes_file files i j" by (auto simp: edge_at_def includes_file_iff)
  show ?case
  proof (cases "is = []")
    case True
    with step show ?thesis by auto
  next
    case False
    with Cons.IH [OF es(3)] step show ?thesis by (auto intro: tranclp_into_tranclp2)
  qed
qed simp

text \<open>A reported cycle is a closed walk of certain includes.\<close>

definition closed_walk :: "project \<Rightarrow> include_edge list \<Rightarrow> bool" where
  "closed_walk files es \<longleftrightarrow> (\<exists>i is. chain files (i # is @ [i]) es)"

lemma closed_walk_cycle:
  assumes "closed_walk files es"
  shows "es \<noteq> [] \<and> (includes_file files)\<^sup>+\<^sup>+ (ie_from (hd es)) (ie_from (hd es))"
proof -
  obtain i "is" where c: "chain files (i # is @ [i]) es" using assms unfolding closed_walk_def by blast
  then obtain e es' where "es = e # es'" "ie_from e = i"
    by (cases es; cases "is") (auto simp: edge_at_def)
  with chain_reaches [OF c] show ?thesis by auto
qed

section \<open>The state of the search\<close>

definition path_ok :: "project \<Rightarrow> nat \<Rightarrow> (nat \<times> include_ref list) list \<Rightarrow> cycle_search \<Rightarrow> bool" where
  "path_ok files owner frames s \<longleftrightarrow>
    map fst frames = rev (sr_files s) \<and> distinct (sr_files s) \<and>
    (\<forall>x. sr_state s x = 1 \<longleftrightarrow> x \<in> set (sr_files s)) \<and> (\<forall>x. sr_state s x \<le> 2) \<and>
    (\<forall>p<length (sr_files s). sr_positions s (sr_files s ! p) = Some p) \<and>
    chain files (sr_files s) (sr_edges s) \<and>
    (\<forall>(i, incs)\<in>set frames. set incs \<subseteq> set (file_includes files i)) \<and>
    (\<forall>x\<in>set (sr_files s). (includes_file files)\<^sup>*\<^sup>* owner x)"

definition cycles_ok :: "project \<Rightarrow> nat set \<Rightarrow> string set \<times> include_cycle list \<Rightarrow> bool" where
  "cycles_ok files owners acc \<longleftrightarrow>
    (\<forall>c\<in>set (snd acc). closed_walk files (ic_edges c) \<and> ic_owner c \<in> owners \<and>
      (includes_file files)\<^sup>*\<^sup>* (ic_owner c) (ie_from (hd (ic_edges c)))) \<and>
    fst acc = (\<lambda>c. includeCycleKey files (ic_edges c)) ` set (snd acc) \<and>
    distinct (map (\<lambda>c. includeCycleKey files (ic_edges c)) (snd acc))"

lemma path_files:
  "path_ok files owner ((i, incs) # frames) s \<Longrightarrow> sr_files s = rev (map fst frames) @ [i]"
  unfolding path_ok_def by (metis fst_conv list.simps(9) rev.simps(2) rev_rev_ident)

lemma path_skip:
  "path_ok files owner ((i, inc # incs) # frames) s \<Longrightarrow> path_ok files owner ((i, incs) # frames) s"
  unfolding path_ok_def by auto

lemma path_leave:
  assumes "path_ok files owner ((i, []) # frames) s"
  shows "path_ok files owner frames (leave_file i s)"
proof -
  note fs = path_files [OF assms]
  have dist: "distinct (rev (map fst frames) @ [i])" using assms unfolding path_ok_def fs by blast
  have "sr_positions (leave_file i s) (rev (map fst frames) ! p) = Some p" if "p < length frames" for p
  proof -
    have "sr_positions s ((rev (map fst frames) @ [i]) ! p) = Some p"
      using assms that unfolding path_ok_def fs by simp
    moreover have "rev (map fst frames) ! p \<in> set (rev (map fst frames))" using that by (intro nth_mem) simp
    ultimately show ?thesis using dist that by (auto simp: leave_file_def nth_append)
  qed
  moreover have "chain files (rev (map fst frames)) (butlast (sr_edges s))"
    using assms chain_butlast unfolding path_ok_def fs by (metis butlast_snoc)
  moreover have "sr_files (leave_file i s) = rev (map fst frames)" "sr_edges (leave_file i s) = butlast (sr_edges s)"
    by (simp_all add: leave_file_def fs)
  moreover have "\<forall>x. sr_state (leave_file i s) x = 1 \<longleftrightarrow> x \<in> set (rev (map fst frames))"
    "\<forall>x. sr_state (leave_file i s) x \<le> 2"
    using assms dist unfolding path_ok_def fs by auto
  ultimately show ?thesis using assms dist unfolding path_ok_def fs by auto
qed

lemma path_enter:
  assumes path: "path_ok files owner ((i, inc # incs) # frames) s"
    and j: "include_target inc = Some j" "sr_state s j = 0"
    and e: "e = \<lparr>ie_from = i, ie_include = inc, ie_to = j\<rparr>"
  shows "path_ok files owner ((j, file_includes files j) # (i, incs) # frames)
    (enter_file j (s\<lparr>sr_edges := sr_edges s @ [e]\<rparr>))"
proof -
  note fs = path_files [OF path]
  let ?s = "enter_file j (s\<lparr>sr_edges := sr_edges s @ [e]\<rparr>)"
  have inc: "inc \<in> set (file_includes files i)" using path unfolding path_ok_def by auto
  have new: "j \<notin> set (sr_files s)" using path j(2) unfolding path_ok_def by (metis zero_neq_one)
  have s': "sr_files ?s = sr_files s @ [j]" "sr_edges ?s = sr_edges s @ [e]"
    "sr_positions ?s = (sr_positions s)(j \<mapsto> length (sr_files s))" by (simp_all add: enter_file_def)
  have "edge_at files e i j" using inc j(1) by (simp add: e edge_at_def)
  with walk_snoc have "chain files (sr_files ?s) (sr_edges ?s)"
    using path unfolding path_ok_def s' fs by force
  moreover have "sr_positions ?s (sr_files ?s ! p) = Some p" if "p < length (sr_files ?s)" for p
  proof (cases "p < length (sr_files s)")
    case True
    then have "sr_files s ! p \<noteq> j" using new nth_mem by blast
    with True path show ?thesis unfolding path_ok_def by (simp add: s' nth_append)
  next
    case False
    with that show ?thesis by (simp add: s' nth_append)
  qed
  moreover have "(includes_file files)\<^sup>*\<^sup>* owner j"
  proof -
    have "(includes_file files)\<^sup>*\<^sup>* owner i" using path unfolding path_ok_def fs by simp
    moreover have "includes_file files i j" using inc j(1) by (auto simp: includes_file_iff)
    ultimately show ?thesis by (rule rtranclp.rtrancl_into_rtrancl)
  qed
  ultimately show ?thesis using path new unfolding path_ok_def s' by auto
qed

lemma path_note: "path_ok files owner frames s \<Longrightarrow> path_ok files owner frames (note_cycle files o' e s)"
  unfolding path_ok_def note_cycle_def Let_def by simp


lemma path_found:
  assumes path: "path_ok files owner ((i, inc # incs) # frames) s"
    and j: "include_target inc = Some j" "sr_state s j = 1"
    and e: "e = \<lparr>ie_from = i, ie_include = inc, ie_to = j\<rparr>"
  shows "\<exists>p. sr_positions s j = Some p \<and> closed_walk files (drop p (sr_edges s) @ [e]) \<and>
    (includes_file files)\<^sup>*\<^sup>* owner (ie_from (hd (drop p (sr_edges s) @ [e])))"
proof -
  note fs = path_files [OF path]
  have inc: "inc \<in> set (file_includes files i)" using path unfolding path_ok_def by auto
  have mem: "j \<in> set (sr_files s)" using path j(2) unfolding path_ok_def by blast
  then obtain p where p: "p < length (sr_files s)" "sr_files s ! p = j" by (auto simp: in_set_conv_nth)
  have pos: "sr_positions s j = Some p" using path p unfolding path_ok_def by blast
  have chain: "chain files (drop p (sr_files s)) (drop p (sr_edges s))"
    using path p(1) chain_drop unfolding path_ok_def by blast
  obtain ks where tail: "drop p (sr_files s) = ks @ [i]"
  proof -
    have "p \<le> length frames" using p(1) by (simp add: fs)
    then show ?thesis using that [of "drop p (rev (map fst frames))"] by (simp add: fs)
  qed
  have head: "hd (ks @ [i]) = j" using p by (metis hd_drop_conv_nth tail)
  have "edge_at files e i j" using inc j(1) by (simp add: e edge_at_def)
  with walk_snoc chain have walk: "chain files (ks @ [i, j]) (drop p (sr_edges s) @ [e])"
    unfolding tail by blast
  have "closed_walk files (drop p (sr_edges s) @ [e])"
  proof (cases "ks")
    case Nil
    with walk head show ?thesis unfolding closed_walk_def by (intro exI [of _ i] exI [of _ "[]"]) simp
  next
    case (Cons k ks')
    with walk head show ?thesis
      unfolding closed_walk_def by (intro exI [of _ j] exI [of _ "ks' @ [i]"]) simp
  qed
  moreover have "ie_from (hd (drop p (sr_edges s) @ [e])) = j"
    using chain_head [of files j "tl (ks @ [i, j])"] walk head by (cases ks) simp_all
  moreover have "(includes_file files)\<^sup>*\<^sup>* owner j" using path mem unfolding path_ok_def by blast
  ultimately show ?thesis using pos by auto
qed

lemma cycles_note:
  assumes path: "path_ok files owner ((i, inc # incs) # frames) s"
    and j: "include_target inc = Some j" "sr_state s j = 1"
    and e: "e = \<lparr>ie_from = i, ie_include = inc, ie_to = j\<rparr>"
    and cycles: "cycles_ok files owners (sr_seen s, sr_cycles s)" "owner \<in> owners"
  shows "cycles_ok files owners (sr_seen (note_cycle files owner e s), sr_cycles (note_cycle files owner e s)) \<and>
    sr_cycles (note_cycle files owner e s) \<noteq> []"
proof -
  from path_found [OF path j e] obtain p where p: "sr_positions s j = Some p"
    "closed_walk files (drop p (sr_edges s) @ [e])"
    "(includes_file files)\<^sup>*\<^sup>* owner (ie_from (hd (drop p (sr_edges s) @ [e])))" by blast
  let ?key = "includeCycleKey files (drop p (sr_edges s) @ [e])"
  have note': "note_cycle files owner e s = (if ?key \<in> sr_seen s then s
    else s\<lparr>sr_seen := insert ?key (sr_seen s),
      sr_cycles := sr_cycles s @ [\<lparr>ic_owner = owner, ic_edges = drop p (sr_edges s) @ [e]\<rparr>]\<rparr>)"
    using p(1) by (simp add: note_cycle_def e Let_def)
  show ?thesis
  proof (cases "?key \<in> sr_seen s")
    case True
    with cycles(1) have "sr_cycles s \<noteq> []" unfolding cycles_ok_def by auto
    with True cycles(1) show ?thesis by (simp add: note')
  next
    case False
    with cycles p(2,3) show ?thesis unfolding note' cycles_ok_def by simp
  qed
qed

section \<open>Completeness\<close>

definition settled :: "cycle_search \<Rightarrow> nat set" where
  "settled s = {x. sr_state s x = 2}"

text \<open>The settled files in the order of their end: each includes only earlier ones.\<close>

definition ordered :: "project \<Rightarrow> nat list \<Rightarrow> bool" where
  "ordered files ord \<longleftrightarrow> (\<forall>k<length ord. \<forall>t. includes_file files (ord ! k) t \<longrightarrow> t \<in> set (take k ord))"

text \<open>The includes a frame is done with lead to settled files, or to the frame above.\<close>

fun frames_done :: "project \<Rightarrow> nat option \<Rightarrow> (nat \<times> include_ref list) list \<Rightarrow> nat set \<Rightarrow> bool" where
  "frames_done files child [] black = True"
| "frames_done files child ((i, incs) # frames) black =
    ((\<exists>pre. file_includes files i = pre @ incs \<and>
      (\<forall>inc\<in>set pre. \<forall>t. include_target inc = Some t \<longrightarrow> t \<in> black \<or> child = Some t)) \<and>
    frames_done files (Some i) frames black)"

definition done_ok :: "project \<Rightarrow> (nat \<times> include_ref list) list \<Rightarrow> cycle_search \<Rightarrow> bool" where
  "done_ok files frames s \<longleftrightarrow> (sr_cycles s = [] \<longrightarrow>
    (\<exists>ord. set ord = settled s \<and> ordered files ord) \<and> frames_done files None frames (settled s))"

lemma frames_done_mono:
  "frames_done files child frames black \<Longrightarrow> black \<subseteq> black' \<Longrightarrow> (\<forall>t. child = Some t \<longrightarrow> t \<in> black' \<or> child' = Some t) \<Longrightarrow>
    frames_done files child' frames black'"
  by (induction files child frames black arbitrary: child' rule: frames_done.induct) fastforce+

lemma ordered_snoc:
  "ordered files ord \<Longrightarrow> (\<And>t. includes_file files i t \<Longrightarrow> t \<in> set ord) \<Longrightarrow> ordered files (ord @ [i])"
  unfolding ordered_def by (auto simp: less_Suc_eq nth_append)

lemma done_leave:
  assumes "done_ok files ((i, []) # frames) s"
  shows "done_ok files frames (leave_file i s)"
  unfolding done_ok_def
proof
  have s': "settled (leave_file i s) = insert i (settled s)" by (auto simp: settled_def)
  assume "sr_cycles (leave_file i s) = []"
  then have "sr_cycles s = []" by (simp add: leave_file_def)
  with assms obtain ord where ord: "set ord = settled s" "ordered files ord"
    and frames: "frames_done files None ((i, []) # frames) (settled s)" unfolding done_ok_def by blast
  have "\<And>t. includes_file files i t \<Longrightarrow> t \<in> set ord" using frames ord(1) by (auto simp: includes_file_iff)
  with ordered_snoc ord have "ordered files (ord @ [i])" by blast
  moreover have "frames_done files None frames (insert i (settled s))"
    by (rule frames_done_mono [of files "Some i" frames "settled s"]) (use frames in auto)
  ultimately show "(\<exists>ord. set ord = settled (leave_file i s) \<and> ordered files ord) \<and>
      frames_done files None frames (settled (leave_file i s))"
    using ord(1) by (intro conjI exI [of _ "ord @ [i]"]) (simp_all add: s')
qed

lemma done_skip:
  assumes "done_ok files ((i, inc # incs) # frames) s"
    and "\<And>t. include_target inc = Some t \<Longrightarrow> sr_state s t = 2"
  shows "done_ok files ((i, incs) # frames) s"
  unfolding done_ok_def
proof
  assume "sr_cycles s = []"
  with assms(1) have d: "\<exists>ord. set ord = settled s \<and> ordered files ord"
    "frames_done files None ((i, inc # incs) # frames) (settled s)" unfolding done_ok_def by blast+
  then obtain pre where "file_includes files i = (pre @ [inc]) @ incs"
    "\<forall>inc\<in>set pre. \<forall>t. include_target inc = Some t \<longrightarrow> t \<in> settled s" by auto
  moreover have "\<And>t. include_target inc = Some t \<Longrightarrow> t \<in> settled s" using assms(2) by (simp add: settled_def)
  ultimately have "\<exists>pre. file_includes files i = pre @ incs \<and>
      (\<forall>inc\<in>set pre. \<forall>t. include_target inc = Some t \<longrightarrow> t \<in> settled s \<or> None = Some t)"
    by (intro exI [of _ "pre @ [inc]"]) auto
  with d show "(\<exists>ord. set ord = settled s \<and> ordered files ord) \<and> frames_done files None ((i, incs) # frames) (settled s)"
    by auto
qed

lemma done_enter:
  assumes "done_ok files ((i, inc # incs) # frames) s" and j: "include_target inc = Some j" "sr_state s j = 0"
  shows "done_ok files ((j, file_includes files j) # (i, incs) # frames) (enter_file j (s\<lparr>sr_edges := es\<rparr>))"
    (is "done_ok _ _ ?s")
  unfolding done_ok_def
proof
  have s': "settled ?s = settled s" using j(2) by (auto simp: settled_def)
  assume "sr_cycles ?s = []"
  then have "sr_cycles s = []" by (simp add: enter_file_def)
  with assms(1) have d: "\<exists>ord. set ord = settled s \<and> ordered files ord"
    "frames_done files None ((i, inc # incs) # frames) (settled s)" unfolding done_ok_def by blast+
  then obtain pre where pre: "file_includes files i = (pre @ [inc]) @ incs"
    "\<forall>inc\<in>set pre. \<forall>t. include_target inc = Some t \<longrightarrow> t \<in> settled s" by auto
  then have "\<exists>pre. file_includes files i = pre @ incs \<and>
      (\<forall>inc\<in>set pre. \<forall>t. include_target inc = Some t \<longrightarrow> t \<in> settled s \<or> Some j = Some t)"
    using j(1) by (intro exI [of _ "pre @ [inc]"]) auto
  with d show "(\<exists>ord. set ord = settled ?s \<and> ordered files ord) \<and>
      frames_done files None ((j, file_includes files j) # (i, incs) # frames) (settled ?s)"
    unfolding s' by auto
qed

text \<open>The whole search from a consistent state.\<close>

lemma cycles_kept: "sr_cycles s \<noteq> [] \<Longrightarrow> sr_cycles (note_cycle files owner e s) \<noteq> []"
  by (simp add: note_cycle_def Let_def)

lemma visit_spec:
  assumes "path_ok files owner frames s" "cycles_ok files owners (sr_seen s, sr_cycles s)" "owner \<in> owners"
    and "done_ok files frames s"
  defines "s' \<equiv> cycle_visit files owner frames s"
  shows "path_ok files owner [] s' \<and> cycles_ok files owners (sr_seen s', sr_cycles s') \<and> done_ok files [] s' \<and>
    (\<forall>x. sr_state s x \<noteq> 0 \<longrightarrow> sr_state s' x \<noteq> 0) \<and> (sr_cycles s \<noteq> [] \<longrightarrow> sr_cycles s' \<noteq> [])"
  using assms(1-4) unfolding s'_def
proof (induction files owner frames s rule: cycle_visit.induct)
  case (1 files owner s)
  then show ?case by simp
next
  case (2 files owner i frames s)
  from "2.IH" [OF path_leave [OF "2.prems"(1)] _ "2.prems"(3) done_leave [OF "2.prems"(4)]] "2.prems"(2)
  show ?case by (auto simp: leave_file_def split: if_splits)
next
  case (3 files owner i inc incs frames s)
  show ?case
  proof (cases "include_target inc")
    case None
    from "3.IH"(1) [OF None path_skip [OF "3.prems"(1)] "3.prems"(2,3) done_skip [OF "3.prems"(4)]] None
    show ?thesis by (simp add: cycle_visit.simps(3))
  next
    case (Some j)
    define e where "e = \<lparr>ie_from = i, ie_include = inc, ie_to = j\<rparr>"
    consider "sr_state s j = 0" | "sr_state s j = 1" | "sr_state s j = 2"
      using "3.prems"(1) unfolding path_ok_def by (metis le_SucE le_zero_eq numeral_2_eq_2 One_nat_def)
    then show ?thesis
    proof cases
      case 1
      let ?s = "enter_file j (s\<lparr>sr_edges := sr_edges s @ [e]\<rparr>)"
      have "cycle_visit files owner ((i, inc # incs) # frames) s =
          cycle_visit files owner ((j, file_includes files j) # (i, incs) # frames) ?s"
        using Some 1 by (simp add: cycle_visit.simps(3) e_def)
      moreover have "cycles_ok files owners (sr_seen ?s, sr_cycles ?s)" using "3.prems"(2) by (simp add: enter_file_def)
      ultimately show ?thesis
        using "3.IH"(2) [OF Some e_def 1 path_enter [OF "3.prems"(1) Some 1 e_def] _ "3.prems"(3)
            done_enter [OF "3.prems"(4) Some 1]]
        by (auto simp: enter_file_def split: if_splits)
    next
      case 2
      let ?s = "note_cycle files owner e s"
      have run: "cycle_visit files owner ((i, inc # incs) # frames) s = cycle_visit files owner ((i, incs) # frames) ?s"
        using Some 2 by (simp add: cycle_visit.simps(3) e_def)
      note found = cycles_note [OF "3.prems"(1) Some 2 e_def "3.prems"(2,3)]
      then have "done_ok files ((i, incs) # frames) ?s" by (simp add: done_ok_def)
      with "3.IH"(3) [OF Some e_def _ 2 path_note [OF path_skip [OF "3.prems"(1)]] _ "3.prems"(3)] found 2
      show ?thesis unfolding run by simp
    next
      case 3
      have "cycle_visit files owner ((i, inc # incs) # frames) s = cycle_visit files owner ((i, incs) # frames) s"
        using Some 3 by (simp add: cycle_visit.simps(3))
      with "3.IH"(4) [OF Some e_def _ _ path_skip [OF "3.prems"(1)] "3.prems"(2,3) done_skip [OF "3.prems"(4)]] 3 Some
      show ?thesis by simp
    qed
  qed
qed


lemma ordered_acyclic:
  assumes "ordered files ord" "i \<in> set ord"
  shows "\<not> (includes_file files)\<^sup>+\<^sup>+ i i"
proof
  have later: "\<exists>l<k. ord ! l = j" if "(includes_file files)\<^sup>+\<^sup>+ (ord ! k) j" "k < length ord" for j k
    using that
  proof (induction rule: tranclp_induct)
    case (base j)
    then show ?case using assms(1) unfolding ordered_def by (metis in_set_conv_nth length_take min_less_iff_conj nth_take)
  next
    case (step j t)
    then obtain l where l: "l < k" "ord ! l = j" by blast
    then have "t \<in> set (take l ord)" using assms(1) step unfolding ordered_def by force
    then obtain m where "m < l" "ord ! m = t" by (auto simp: in_set_conv_nth)
    with l show ?case by (intro exI [of _ m]) simp
  qed
  obtain k where k: "k < length ord" "ord ! k = i" "\<forall>l<k. ord ! l \<noteq> i"
  proof -
    let ?P = "\<lambda>k. k < length ord \<and> ord ! k = i"
    have "\<exists>k. ?P k" using assms(2) by (auto simp: in_set_conv_nth)
    then have "?P (LEAST k. ?P k)" by (rule LeastI_ex)
    moreover have "\<forall>l<(LEAST k. ?P k). \<not> ?P l" using not_less_Least by blast
    ultimately show ?thesis using that by (meson order_less_trans)
  qed
  assume "(includes_file files)\<^sup>+\<^sup>+ i i"
  with later [of k i] k show False by auto
qed

lemma ordered_closed: "ordered files ord \<Longrightarrow> i \<in> set ord \<Longrightarrow> includes_file files i j \<Longrightarrow> j \<in> set ord"
  unfolding ordered_def by (metis in_set_conv_nth in_set_takeD)

lemma unit_cycles_spec:
  assumes "cycles_ok files owners acc" "un_root u \<in> owners"
  defines "acc' \<equiv> unit_cycles files u acc"
  shows "cycles_ok files owners acc' \<and> (snd acc \<noteq> [] \<longrightarrow> snd acc' \<noteq> []) \<and>
    (snd acc' = [] \<longrightarrow> (\<forall>i. (includes_file files)\<^sup>*\<^sup>* (un_root u) i \<longrightarrow> \<not> (includes_file files)\<^sup>+\<^sup>+ i i))"
proof -
  define s where "s = enter_file (un_root u) \<lparr>sr_state = \<lambda>_. 0, sr_positions = Map.empty, sr_files = [], sr_edges = [],
    sr_seen = fst acc, sr_cycles = snd acc\<rparr>"
  define s' where "s' = cycle_visit files (un_root u) [(un_root u, file_includes files (un_root u))] s"
  have acc': "acc' = (sr_seen s', sr_cycles s')" by (simp add: acc'_def unit_cycles_def s'_def s_def Let_def)
  have "path_ok files (un_root u) [(un_root u, file_includes files (un_root u))] s"
    by (simp add: path_ok_def s_def enter_file_def)
  moreover have "cycles_ok files owners (sr_seen s, sr_cycles s)" using assms(1) by (simp add: s_def enter_file_def)
  moreover have "settled s = {}" by (auto simp: settled_def s_def enter_file_def)
  then have "done_ok files [(un_root u, file_includes files (un_root u))] s"
    by (auto simp: done_ok_def ordered_def intro!: exI [of _ "[]"])
  ultimately have spec: "path_ok files (un_root u) [] s'" "cycles_ok files owners (sr_seen s', sr_cycles s')"
    "done_ok files [] s'" "sr_state s (un_root u) \<noteq> 0 \<longrightarrow> sr_state s' (un_root u) \<noteq> 0"
    "sr_cycles s \<noteq> [] \<longrightarrow> sr_cycles s' \<noteq> []"
    using visit_spec [of files "un_root u" _ s owners] assms(2) unfolding s'_def by blast+
  have "\<not> (includes_file files)\<^sup>+\<^sup>+ i i"
    if none: "sr_cycles s' = []" and reach: "(includes_file files)\<^sup>*\<^sup>* (un_root u) i" for i
  proof -
    from spec(3) none obtain ord where ord: "set ord = settled s'" "ordered files ord" unfolding done_ok_def by blast
    have "sr_state s' (un_root u) = 2"
    proof -
      have "sr_state s' (un_root u) \<noteq> 0" using spec(4) by (simp add: s_def)
      moreover have "sr_state s' (un_root u) \<noteq> 1" "sr_state s' (un_root u) \<le> 2"
        using spec(1) unfolding path_ok_def by auto
      ultimately show ?thesis by linarith
    qed
    then have "un_root u \<in> set ord" by (simp add: ord(1) settled_def)
    with reach_closed [OF reach] ordered_closed [OF ord(2)] have "i \<in> set ord" by blast
    with ordered_acyclic [OF ord(2)] show ?thesis .
  qed
  with spec show ?thesis unfolding acc' by (simp add: s_def enter_file_def)
qed

lemma fold_cycles_spec:
  assumes "cycles_ok files owners acc" "un_root ` set units \<subseteq> owners"
  defines "acc' \<equiv> fold (unit_cycles files) units acc"
  shows "cycles_ok files owners acc' \<and> (snd acc \<noteq> [] \<longrightarrow> snd acc' \<noteq> []) \<and>
    (snd acc' = [] \<longrightarrow> (\<forall>u\<in>set units. \<forall>i. (includes_file files)\<^sup>*\<^sup>* (un_root u) i \<longrightarrow>
      \<not> (includes_file files)\<^sup>+\<^sup>+ i i))"
  using assms(1,2) unfolding acc'_def
proof (induction units arbitrary: acc)
  case (Cons u units)
  then have "un_root u \<in> owners" by simp
  note one = unit_cycles_spec [OF Cons.prems(1) this]
  from Cons.IH [of "unit_cycles files u acc"] one Cons.prems(2)
  show ?case by auto
qed simp

text \<open>The key of a cycle is the least of the texts of its rotations, so it does not depend on the first file.\<close>

lemma if_less_min: "(if a < b then a else b) = min a (b :: 'a :: linorder)"
  by (auto simp: min_def dest: less_imp_le)

lemma best_rotation_Min:
  "best_rotation parts is best = Min (insert best ((\<lambda>i. join_with [CHR 0x00] (drop i parts @ take i parts)) ` set is))"
proof (induction "is" arbitrary: best)
  case (Cons i "is")
  let ?f = "\<lambda>i. join_with [CHR 0x00] (drop i parts @ take i parts)"
  have "Min (insert (min (?f i) best) (?f ` set is)) = Min (insert best (insert (?f i) (?f ` set is)))"
    by (cases "is = []") (simp_all add: min.commute min.left_commute min.assoc)
  moreover have "(if ?f i < best then ?f i else best) = min (?f i) best" by (rule if_less_min)
  ultimately show ?case using Cons [of "min (?f i) best"] by (simp add: Let_def)
qed simp

lemma includeCycleKey_Min:
  assumes "es \<noteq> []"
  shows "includeCycleKey files es =
    Min ((\<lambda>i. join_with [CHR 0x00] (rotate i (map (edge_part files) es))) ` {..<length es})"
proof -
  let ?p = "map (edge_part files) es"
  have "insert (join_with [CHR 0x00] ?p) ((\<lambda>i. join_with [CHR 0x00] (drop i ?p @ take i ?p)) ` set [1..<length ?p]) =
      (\<lambda>i. join_with [CHR 0x00] (drop i ?p @ take i ?p)) ` {..<length es}"
  proof -
    have "{..<length es} = insert 0 (set [1..<length ?p])" using assms by auto
    then show ?thesis by simp
  qed
  also have "\<dots> = (\<lambda>i. join_with [CHR 0x00] (rotate i ?p)) ` {..<length es}"
    by (rule image_cong) (simp_all add: rotate_drop_take)
  finally show ?thesis using assms by (simp add: includeCycleKey_def best_rotation_Min Let_def)
qed

lemma includeCycleKey_rotate: "includeCycleKey files (rotate k es) = includeCycleKey files es"
proof (cases "es = []")
  case False
  let ?p = "map (edge_part files) es"
  have "(\<lambda>i. rotate i (rotate k ?p)) ` {..<length es} = (\<lambda>i. rotate i ?p) ` {..<length es}"
  proof -
    have mod: "rotate i ?p = rotate (i mod length es) ?p" for i using rotate_conv_mod [of i ?p] by simp
    have pos: "0 < length es" using False by simp
    have "rotate i (rotate k ?p) \<in> (\<lambda>i. rotate i ?p) ` {..<length es}" for i
      using mod [of "i + k"] pos by (auto simp: rotate_rotate intro!: image_eqI [of _ _ "(i + k) mod length es"])
    moreover have "rotate i ?p \<in> (\<lambda>i. rotate i (rotate k ?p)) ` {..<length es}" if "i < length es" for i
    proof -
      let ?j = "(i + (length es - k mod length es)) mod length es"
      have "(?j + k) mod length es = (i + (length es - k mod length es) + k mod length es) mod length es"
        by (simp add: mod_simps)
      also have "\<dots> = (i + length es) mod length es"
        using mod_less_divisor [OF pos, of k] by (intro arg_cong [of _ _ "\<lambda>n. n mod length es"]) linarith
      finally have "rotate ?j (rotate k ?p) = rotate i ?p" using mod [of "?j + k"] that by (simp add: rotate_rotate)
      with pos show ?thesis by (intro image_eqI [of _ _ ?j]) simp_all
    qed
    ultimately show ?thesis by blast
  qed
  then have "(\<lambda>i. join_with [CHR 0x00] (rotate i (rotate k ?p))) ` {..<length es} =
      (\<lambda>i. join_with [CHR 0x00] (rotate i ?p)) ` {..<length es}"
    by (metis (no_types) image_image)
  with False show ?thesis by (simp add: includeCycleKey_Min rotate_map)
qed simp

lemma search_complete:
  assumes "u \<in> set units" "(includes_file files)\<^sup>*\<^sup>* (un_root u) i" "(includes_file files)\<^sup>+\<^sup>+ i i"
  shows "buildIncludeCycles files units \<noteq> []"
proof -
  have "cycles_ok files (un_root ` set units) ({}, [])" by (simp add: cycles_ok_def)
  from fold_cycles_spec [OF this subset_refl] assms show ?thesis by (auto simp: buildIncludeCycles_def)
qed

text \<open>
  C29: The search for include cycles reports a cycle exactly when some file that a unit includes, directly or
  through others, includes itself through certain includes; every report is a closed walk of such includes
  that its owner reaches; and no two reports are the same cycle entered at different files.
\<close>

theorem buildIncludeCycles_correct:
  "(buildIncludeCycles files units \<noteq> [] \<longleftrightarrow>
      (\<exists>u\<in>set units. \<exists>i. (includes_file files)\<^sup>*\<^sup>* (un_root u) i \<and> (includes_file files)\<^sup>+\<^sup>+ i i)) \<and>
    (\<forall>c\<in>set (buildIncludeCycles files units). closed_walk files (ic_edges c) \<and>
      (\<exists>u\<in>set units. ic_owner c = un_root u) \<and>
      (includes_file files)\<^sup>*\<^sup>* (ic_owner c) (ie_from (hd (ic_edges c)))) \<and>
    distinct (buildIncludeCycles files units) \<and>
    (\<forall>c\<in>set (buildIncludeCycles files units). \<forall>d\<in>set (buildIncludeCycles files units). \<forall>k.
      ic_edges d = rotate k (ic_edges c) \<longrightarrow> c = d)"
proof -
  define acc where "acc = fold (unit_cycles files) units ({}, [])"
  have "cycles_ok files (un_root ` set units) ({}, [])" by (simp add: cycles_ok_def)
  note spec = fold_cycles_spec [OF this subset_refl, folded acc_def]
  let ?r = "buildIncludeCycles files units"
  have r: "set ?r = set (snd acc)" "?r = [] \<longleftrightarrow> snd acc = []" "mset ?r = mset (snd acc)"
    by (simp_all add: buildIncludeCycles_def acc_def)
  have walks: "\<forall>c\<in>set ?r. closed_walk files (ic_edges c) \<and> (\<exists>u\<in>set units. ic_owner c = un_root u) \<and>
      (includes_file files)\<^sup>*\<^sup>* (ic_owner c) (ie_from (hd (ic_edges c)))"
    using spec unfolding r(1) cycles_ok_def by auto
  have "mset (map (\<lambda>c. includeCycleKey files (ic_edges c)) ?r) = mset (map (\<lambda>c. includeCycleKey files (ic_edges c)) (snd acc))"
    by (simp add: r(3))
  then have keys: "distinct (map (\<lambda>c. includeCycleKey files (ic_edges c)) ?r)"
    using spec mset_eq_imp_distinct_iff unfolding cycles_ok_def by blast
  have "c = d" if "c \<in> set ?r" "d \<in> set ?r" "ic_edges d = rotate k (ic_edges c)" for c d k
    using that keys includeCycleKey_rotate [of files k "ic_edges c"] unfolding distinct_map inj_on_def by metis
  moreover have "distinct ?r" using keys by (simp add: distinct_map)
  moreover have "\<exists>u\<in>set units. \<exists>i. (includes_file files)\<^sup>*\<^sup>* (un_root u) i \<and> (includes_file files)\<^sup>+\<^sup>+ i i" if "?r \<noteq> []"
  proof -
    from that have "hd ?r \<in> set ?r" by simp
    then obtain c where "c \<in> set ?r" ..
    with walks closed_walk_cycle show ?thesis by metis
  qed
  ultimately show ?thesis using walks search_complete by blast
qed


definition example_include :: "nat \<Rightarrow> include_ref" where
  "example_include i = \<lparr>in_path = ''a'', in_resolved = Some i, in_candidates = [], in_optional = False,
    in_uncertain = False, in_valid = True, in_start = 0\<rparr>"

definition example_project :: project where
  "example_project =
    [\<lparr>pf_path = ''main.pwn'', pf_canonical = ''/p/main.pwn'', pf_provided = True, pf_includes = [example_include 1]\<rparr>,
     \<lparr>pf_path = ''a.inc'', pf_canonical = ''/p/a.inc'', pf_provided = False, pf_includes = [example_include 1]\<rparr>]"

lemma example_includes:
  "includes_file example_project i j \<longleftrightarrow> i < 2 \<and> j = 1"
  by (auto simp: includes_file_iff file_includes_def example_project_def example_include_def include_target_def
      less_2_cases_iff nth_Cons')

theorem buildIncludeCycles_correct_witness:
  "\<exists>c. c \<in> set (buildIncludeCycles example_project [\<lparr>un_root = 0, un_files = [0, 1]\<rparr>]) \<and> ic_owner c = 0"
proof -
  have "includes_file example_project 0 1" "includes_file example_project 1 1" by (simp_all add: example_includes)
  then have "(includes_file example_project)\<^sup>*\<^sup>* 0 1" "(includes_file example_project)\<^sup>+\<^sup>+ 1 1" by auto
  with buildIncludeCycles_correct [of example_project "[\<lparr>un_root = 0, un_files = [0, 1]\<rparr>]"] show ?thesis
    by (auto simp: neq_Nil_conv)
qed

text \<open>
  C30: When include-cycle is the only rule in force, no include cycle is ever found, in any project: the
  features of that rule do not make \<open>BuildContext\<close> build the units that the search goes through. With all
  features there are projects in which it finds one.
\<close>

theorem include_cycle_alone_finds_nothing:
  "im_cycles (build_include_model (ruleProjectFeatures ''include-cycle'') files) = [] \<and>
    (\<exists>files. im_cycles (build_include_model AllFeatures files) \<noteq> [])"
proof
  have "\<not> needsUnits (withDependencies (ruleProjectFeatures ''include-cycle''))"
    by (simp add: ruleProjectFeatures_def NewFeatures_def withDependencies_def needsUnits_def needsDeclarations_def
        HasFeature_def feature_defs)
  then show "im_cycles (build_include_model (ruleProjectFeatures ''include-cycle'') files) = []"
    by (simp add: build_include_model_def project_units_def Let_def buildIncludeCycles_def)
  have "unit_roots example_project = [0]" by code_simp
  then obtain u where "u \<in> set (buildUnits example_project)" "un_root u = 0" by (auto simp: buildUnits_def)
  moreover have "(includes_file example_project)\<^sup>*\<^sup>* 0 1" "(includes_file example_project)\<^sup>+\<^sup>+ 1 1"
    by (auto simp: example_includes)
  ultimately have "buildIncludeCycles example_project (buildUnits example_project) \<noteq> []"
    using search_complete [of u _ example_project 1] by simp
  moreover have "needsUnits (withDependencies AllFeatures)" "HasFeature (withDependencies AllFeatures) FeatureIncludeCycles"
    by (simp_all add: AllFeatures_def feature_list_def withDependencies_def needsUnits_def needsDeclarations_def
        HasFeature_def feature_defs)
  ultimately show "\<exists>files. im_cycles (build_include_model AllFeatures files) \<noteq> []"
    by (intro exI [of _ example_project]) (simp add: build_include_model_def project_units_def Let_def)
qed

end
