(* ===== verification/Parse_Errors.thy ===== *)
theory Parse_Errors
  imports Suppress_Rule Syntax_Tree
begin

text \<open>
  Syntax errors as findings (\<open>pkg/lint/parse_errors.go\<close>): the diagnostics of the parser, bounded to the text
  and with its exact recoveries as fixes, or else the erroneous nodes of the tree, merged where they are close.
\<close>

section \<open>Diagnostics of the parser\<close>

datatype recovery_kind = RecoveryNone | RecoveryInsert | RecoveryRemove | RecoveryReplace | RecoveryOther nat

record recovery =
  rv_exact :: bool
  rv_kind :: recovery_kind
  rv_start :: int
  rv_end :: int
  rv_replacement :: string

record parser_diagnostic =
  pd_start :: int
  pd_end :: int
  pd_code :: string
  pd_message :: string
  pd_recovery :: recovery

definition boundedParserRange :: "int \<Rightarrow> int \<Rightarrow> int \<Rightarrow> int \<times> int" where
  "boundedParserRange start stop sourceSize =
    (let start = (if start < 0 then 0 else start);
         start = (if start > sourceSize then sourceSize else start);
         stop = (if stop < start then start else stop);
         stop = (if stop > sourceSize then sourceSize else stop)
     in (start, stop))"

definition recovery_fix :: "string \<Rightarrow> line_table \<Rightarrow> int \<Rightarrow> int \<Rightarrow> string \<Rightarrow> diag_fix" where
  "recovery_fix description lt start stop newText =
    \<lparr>fx_description = description, fx_edits = [\<lparr>e_range = Range lt start stop, e_newText = newText\<rparr>]\<rparr>"

definition parserRecoveryFix :: "recovery \<Rightarrow> int \<Rightarrow> line_table \<Rightarrow> diag_fix option" where
  "parserRecoveryFix rv sourceSize lt =
    (if \<not> rv_exact rv \<or> rv_kind rv = RecoveryNone then None
     else (let (start, stop) = boundedParserRange (rv_start rv) (rv_end rv) sourceSize in
       if start \<noteq> rv_start rv \<or> stop \<noteq> rv_end rv then None
       else (case rv_kind rv of
           RecoveryInsert \<Rightarrow>
             if start \<noteq> stop \<or> rv_replacement rv = [] then None
             else Some (recovery_fix (''insert '' @ go_quote (rv_replacement rv)) lt start stop (rv_replacement rv))
         | RecoveryRemove \<Rightarrow>
             if start = stop \<or> rv_replacement rv \<noteq> [] then None
             else Some (recovery_fix ''remove the unexpected token'' lt start stop (rv_replacement rv))
         | RecoveryReplace \<Rightarrow>
             if start = stop \<or> rv_replacement rv = [] then None
             else Some (recovery_fix (''replace the unexpected syntax with '' @ go_quote (rv_replacement rv)) lt start stop
               (rv_replacement rv))
         | _ \<Rightarrow> None)))"

definition parse_error :: "string \<Rightarrow> string \<Rightarrow> range \<Rightarrow> diagnostic" where
  "parse_error message path r =
    (finding ''parse-error'' message path r)\<lparr>d_severity := SeverityError, d_category := CategoryCorrectness\<rparr>"

definition parser_finding :: "string \<Rightarrow> int \<Rightarrow> line_table \<Rightarrow> parser_diagnostic \<Rightarrow> diagnostic" where
  "parser_finding path sourceSize lt item =
    (let (start, stop) = boundedParserRange (pd_start item) (pd_end item) sourceSize
     in (parse_error (pd_message item) path (Range lt start stop))
       \<lparr>d_code := pd_code item, d_fix := parserRecoveryFix (pd_recovery item) sourceSize lt\<rparr>)"

section \<open>Erroneous nodes\<close>

text \<open>The innermost nodes with an error, in postorder, and whether the node or one below it has an error.\<close>

fun error_nodes :: "node \<Rightarrow> node list \<times> bool" where
  "error_nodes (Node i k t s e b fs cs) =
    (let below = map error_nodes cs;
         childError = list_ex snd below;
         nodes = concat (map fst below)
     in (if b \<and> \<not> childError then nodes @ [Node i k t s e b fs cs] else nodes, b \<or> childError))"

definition error_span :: "node \<Rightarrow> int \<times> int" where
  "error_span n = (n_start n, if n_end n \<le> n_start n then n_start n + 1 else n_end n)"

text \<open>The loop over the nodes; the spans so far are in reverse, the last one first.\<close>

fun merge_spans :: "line_table \<Rightarrow> (int \<times> int) list \<Rightarrow> (int \<times> int) list \<Rightarrow> (int \<times> int) list" where
  "merge_spans lt [] spans = rev spans"
| "merge_spans lt ((start, stop) # rest) [] = merge_spans lt rest [(start, stop)]"
| "merge_spans lt ((start, stop) # rest) ((s, e) # spans) =
    (if start = s \<or> p_line (Lookup lt start) \<le> p_line (Lookup lt e) + 1
     then merge_spans lt rest ((s, if stop > e then stop else e) # spans)
     else merge_spans lt rest ((start, stop) # (s, e) # spans))"

text \<open>A parsed file: its root, the diagnostics of the parser, and whether the parser says there are errors.\<close>

record parsed_file =
  pp_root :: node
  pp_source :: string
  pp_diagnostics :: "parser_diagnostic list"
  pp_hasErrors :: bool

definition fallbackParseErrorDiagnostics :: "string \<Rightarrow> parsed_file \<Rightarrow> line_table \<Rightarrow> diagnostic list" where
  "fallbackParseErrorDiagnostics path pf lt =
    (let nodes = fst (error_nodes (pp_root pf)) in
     if \<not> pp_hasErrors pf then []
     else
       (let nodes = (if nodes = [] then [pp_root pf] else nodes);
            nodes = stable_sort (\<lambda>a b. n_start a < n_start b) nodes;
            spans = merge_spans lt (map error_span nodes) []
        in map (\<lambda>(start, stop). parse_error ''source contains syntax the parser could not understand'' path
             (Range lt start stop)) spans))"

definition parseErrorDiagnostics :: "string \<Rightarrow> parsed_file \<Rightarrow> line_table \<Rightarrow> diagnostic list" where
  "parseErrorDiagnostics path pf lt =
    (if pp_diagnostics pf \<noteq> []
     then map (parser_finding path (int (length (pp_source pf))) lt) (pp_diagnostics pf)
     else fallbackParseErrorDiagnostics path pf lt)"

end
