(* ===== verification/Engine.thy ===== *)
theory Engine
  imports Parse_Errors Registry Go_Paths
begin

unbundle bit_operations_syntax

text \<open>
  The engine (\<open>pkg/lint/engine.go\<close>): which rules run on a file, what becomes of their findings, and the
  findings it takes over from the shared analysis (\<open>pkg/lint/shared.go\<close>). Rules, the parser and the shared
  analysis are functions of the engine record.
\<close>

section \<open>Findings of the shared analysis\<close>

datatype core_severity = CoreError | CoreWarning | CoreHint | CoreOther

record shared_item =
  si_code :: string
  si_severity :: core_severity
  si_file :: nat
  si_start :: int
  si_end :: int
  si_message :: string

text \<open>\<open>sh_place\<close> gives the name of a file by its number, with its text when the preprocessor has read it.\<close>

record shared_result =
  sh_file :: nat
  sh_diagnostics :: "shared_item list"
  sh_place :: "nat \<Rightarrow> (string \<times> string option) option"

definition sharedRuleID :: "string \<Rightarrow> string" where
  "sharedRuleID code =
    (if code = ''pawn-analysis:sema/not-callable'' then ''non-callable-symbol''
     else if code = ''pawn-analysis:sema/tag-mismatch'' then ''argument-tag-mismatch''
     else if code = ''pawn-analysis:sema/unreachable'' then ''unreachable-code''
     else if code = ''pawn-analysis:sema/missing-return'' then ''missing-return-value''
     else if code = ''pawn-analysis:preprocess/include-not-found'' then ''missing-include''
     else if code = ''pawn-analysis:preprocess/include-cycle'' then ''include-cycle''
     else [])"

definition DelegatesToShared :: "string \<Rightarrow> bool" where
  "DelegatesToShared ruleID =
    (ruleID \<in> {''non-callable-symbol'', ''argument-tag-mismatch'', ''unreachable-code'', ''missing-return-value'',
      ''missing-include'', ''include-cycle''})"

definition sharedDiagnostic :: "string \<Rightarrow> bool" where
  "sharedDiagnostic code = (has_prefix code ''pawn-analysis:sema/'' \<or> sharedRuleID code \<noteq> [])"

definition sharedProjectDiagnostic :: "string \<Rightarrow> bool" where
  "sharedProjectDiagnostic code =
    (code = ''pawn-analysis:preprocess/include-not-found'' \<or> code = ''pawn-analysis:preprocess/include-cycle'')"

definition sharedFile :: "shared_result \<Rightarrow> nat \<Rightarrow> string \<Rightarrow> string \<Rightarrow> string \<times> string" where
  "sharedFile result f fallback content =
    (case sh_place result f of
      None \<Rightarrow> (fallback, content)
    | Some (filename, text) \<Rightarrow> (Clean filename, case text of None \<Rightarrow> content | Some c \<Rightarrow> c))"

definition sameSharedFile :: "string \<Rightarrow> string \<Rightarrow> bool" where
  "sameSharedFile left right = (Clean left = Clean right)"

definition rangesOverlap :: "int \<Rightarrow> int \<Rightarrow> int \<Rightarrow> int \<Rightarrow> bool" where
  "rangesOverlap aStart aEnd bStart bEnd = (aStart \<le> bEnd \<and> bStart \<le> aEnd)"

definition sharedSeverity :: "core_severity \<Rightarrow> severity" where
  "sharedSeverity s =
    (case s of CoreError \<Rightarrow> SeverityError | CoreWarning \<Rightarrow> SeverityWarning | CoreHint \<Rightarrow> SeverityHint
     | CoreOther \<Rightarrow> SeverityInfo)"

definition duplicateShared :: "diagnostic list \<Rightarrow> string \<Rightarrow> string \<Rightarrow> int \<Rightarrow> int \<Rightarrow> bool" where
  "duplicateShared dst code filename start stop =
    (let equivalent = sharedRuleID code in
     if equivalent = [] then False
     else list_ex (\<lambda>item. d_ruleID item = equivalent \<and> sameSharedFile (d_filename item) filename \<and>
       rangesOverlap start stop (p_offset (r_start (d_range item))) (p_offset (r_end (d_range item)))) dst)"

text \<open>One finding of the shared analysis; \<open>delegated\<close> says that the engine was given the analysis.\<close>

definition append_shared ::
  "bool \<Rightarrow> shared_result \<Rightarrow> string \<Rightarrow> string \<Rightarrow> shared_item \<Rightarrow> diagnostic list \<Rightarrow> diagnostic list" where
  "append_shared delegated result path content item dst =
    (if \<not> sharedDiagnostic (si_code item) \<or>
        si_file item \<noteq> sh_file result \<and> \<not> sharedProjectDiagnostic (si_code item) then dst
     else
       (let (filename, text) = sharedFile result (si_file item) path content in
        if duplicateShared dst (si_code item) filename (si_start item) (si_end item) then dst
        else
          (let ruleID = (if delegated \<and> sharedRuleID (si_code item) \<noteq> [] then sharedRuleID (si_code item)
             else si_code item)
           in dst @ [(finding ruleID (si_message item) filename (Range (NewLineTable text) (si_start item) (si_end item)))
             \<lparr>d_code := si_code item, d_severity := sharedSeverity (si_severity item),
              d_category := CategoryCorrectness\<rparr>])))"

definition appendSharedDiagnostics ::
  "(string \<Rightarrow> string \<Rightarrow> shared_result) \<Rightarrow> diagnostic list \<Rightarrow> string \<Rightarrow> string \<Rightarrow> shared_result option \<Rightarrow> diagnostic list" where
  "appendSharedDiagnostics analyze dst path content shared =
    (let result = (case shared of None \<Rightarrow> analyze path content | Some r \<Rightarrow> r)
     in fold (append_shared (shared \<noteq> None) result path content) (sh_diagnostics result) dst)"

section \<open>The engine\<close>

text \<open>What the parser gives for a file, with the trivia the suppression comments are read from.\<close>

record parsed_source = parsed_file +
  ps_tokens :: "(trivia list \<times> trivia list) list"
  ps_rootTrivia :: "(trivia list \<times> trivia list) option"

text \<open>Another file of the project: its trivia by token, or in one list when it is kept in the compact form.\<close>

record project_entry =
  pe_path :: string
  pe_source :: string
  pe_parsed :: "((trivia list \<times> trivia list) list \<times> (trivia list \<times> trivia list) option) option"
  pe_compact :: "trivia list"

definition entry_directives :: "project_entry \<Rightarrow> directive list" where
  "entry_directives f =
    (case pe_parsed f of
      Some (tokens, rootTrivia) \<Rightarrow> FromFile (pe_path f) (pe_source f) tokens rootTrivia
    | None \<Rightarrow> FromCompact (pe_path f) (pe_source f) (pe_compact f))"

text \<open>What a rule sees: beside the text, which of the lazily built models it can use.\<close>

record rule_context =
  rc_path :: string
  rc_source :: string
  rc_level :: analysis_level
  rc_supp :: "directive list"
  rc_known :: "string set"
  rc_semantic :: bool
  rc_flow :: bool

text \<open>
  A rule reports findings and may fail; then the reports made before the failure come with its message.
  \<open>en_cancelled\<close> is what the context answers at each of the places where the engine asks it.
\<close>

record 'r engine =
  en_reg :: "'r registrar"
  en_shared :: "shared_result option"
  en_project :: "(string \<Rightarrow> project_entry option) option"
  en_parse :: "string \<Rightarrow> parsed_source option"
  en_analyze :: "string \<Rightarrow> string \<Rightarrow> shared_result"
  en_run :: "'r \<Rightarrow> rule_context \<Rightarrow> diagnostic list \<times> string option"
  en_hasSemantic :: bool
  en_cancelled :: "nat \<Rightarrow> bool"

record 'r activeRule =
  ar_id :: string
  ar_rule :: 'r
  ar_meta :: metadata
  ar_severity :: severity

definition levelAllowed :: "analysis_level \<Rightarrow> analysis_level \<Rightarrow> bool" where
  "levelAllowed l maxLevel = (l \<le> maxLevel)"

definition engine_error :: "string \<Rightarrow> string \<Rightarrow> string \<Rightarrow> range \<Rightarrow> diagnostic" where
  "engine_error ruleID message path r =
    (finding ruleID message path r)\<lparr>d_severity := SeverityError, d_category := CategoryCorrectness\<rparr>"

definition active_rule ::
  "'r engine \<Rightarrow> analysis_level \<Rightarrow> (string, severity) fmap \<Rightarrow> string \<Rightarrow> 'r activeRule option" where
  "active_rule e maxLevel ruleSet ident =
    (if en_shared e \<noteq> None \<and> DelegatesToShared ident then None
     else (case fmlookup ruleSet ident of
       None \<Rightarrow> None
     | Some sev \<Rightarrow>
         if sev = SeverityOff then None
         else (case Lookup_rule (en_reg e) ident of
           None \<Rightarrow> None
         | Some meta \<Rightarrow>
             if \<not> levelAllowed (md_level meta) maxLevel then None
             else (case Rule (en_reg e) ident of
               None \<Rightarrow> None
             | Some rl \<Rightarrow> Some \<lparr>ar_id = ident, ar_rule = rl, ar_meta = meta, ar_severity = sev\<rparr>))))"

text \<open>The loops ask for cancellation first; \<open>n\<close> counts the questions, \<open>None\<close> is the cancelled run.\<close>

fun active_loop ::
  "'r engine \<Rightarrow> analysis_level \<Rightarrow> (string, severity) fmap \<Rightarrow> string list \<Rightarrow> nat \<Rightarrow> ('r activeRule list \<times> nat) option" where
  "active_loop e maxLevel ruleSet [] n = Some ([], n)"
| "active_loop e maxLevel ruleSet (ident # idents) n =
    (if en_cancelled e n then None
     else (case active_loop e maxLevel ruleSet idents (Suc n) of
       None \<Rightarrow> None
     | Some (active, m) \<Rightarrow>
         Some (case active_rule e maxLevel ruleSet ident of None \<Rightarrow> active | Some a \<Rightarrow> a # active, m)))"

definition requirements_of :: "'r activeRule list \<Rightarrow> requirements" where
  "requirements_of active = foldl (OR) 0 (map (\<lambda>a. md_requirements (ar_meta a)) active)"

definition needSemantics :: "requirements \<Rightarrow> bool" where
  "needSemantics r = Has r (NeedLocalSymbols OR NeedNames OR NeedTags OR NeedConstants OR NeedControlFlow)"

definition needFlow :: "requirements \<Rightarrow> bool" where
  "needFlow r = Has r NeedControlFlow"

text \<open>\<open>Context.Report\<close>: what a finding does not say is filled in. Unset values are Go's zero values.\<close>

definition report :: "'r activeRule \<Rightarrow> string \<Rightarrow> line_table \<Rightarrow> diagnostic \<Rightarrow> diagnostic" where
  "report a path lt d =
    (let d = (if d_ruleID d = [] then d\<lparr>d_ruleID := ar_id a\<rparr> else d);
         d = (if d_severity d = SeverityOff then d\<lparr>d_severity := ar_severity a\<rparr> else d);
         d = (if d_category d = CategoryCorrectness then d\<lparr>d_category := md_category (ar_meta a)\<rparr> else d);
         d = (if d_filename d = [] then d\<lparr>d_filename := path\<rparr> else d)
     in if p_offset (r_start (d_range d)) = p_offset (r_end (d_range d)) \<and> p_offset (r_start (d_range d)) = 0
        then d\<lparr>d_range := Range lt 0 0\<rparr> else d)"

definition own_finding :: "string \<Rightarrow> diagnostic \<Rightarrow> diagnostic" where
  "own_finding ident d = (if d_ruleID d \<noteq> ident \<and> d_ruleID d \<noteq> [] then d\<lparr>d_ruleID := ident\<rparr> else d)"

definition rule_failure :: "string \<Rightarrow> line_table \<Rightarrow> string \<Rightarrow> string \<Rightarrow> diagnostic" where
  "rule_failure path lt ident failed =
    engine_error ''internal-error'' (''rule '' @ go_quote ident @ '' failed: '' @ failed) path (Range lt 0 0)"

fun run_rules ::
  "'r engine \<Rightarrow> string \<Rightarrow> line_table \<Rightarrow> ('r activeRule \<Rightarrow> rule_context) \<Rightarrow> 'r activeRule list \<Rightarrow> nat \<Rightarrow>
    diagnostic list \<Rightarrow> diagnostic list \<Rightarrow> (diagnostic list \<times> diagnostic list \<times> nat) option" where
  "run_rules e path lt ctx [] n raw internalErrors = Some (raw, internalErrors, n)"
| "run_rules e path lt ctx (a # active) n raw internalErrors =
    (if en_cancelled e n then None
     else (let (reports, failed) = en_run e (ar_rule a) (ctx a); collected = map (report a path lt) reports in
       case failed of
         Some text \<Rightarrow> run_rules e path lt ctx active (Suc n) raw (internalErrors @ [rule_failure path lt (ar_id a) text])
       | None \<Rightarrow> run_rules e path lt ctx active (Suc n) (raw @ map (own_finding (ar_id a)) collected) internalErrors))"

text \<open>\<open>normalizeSuppressionAliases\<close> with the registry of the engine.\<close>

definition engine_directives :: "'r engine \<Rightarrow> line_table \<Rightarrow> directive list \<Rightarrow> directive list \<times> diagnostic list" where
  "engine_directives e lt ds = normalizeSuppressionAliases (rg_aliases (en_reg e) \<noteq> []) (ResolveID (en_reg e)) lt ds"

definition finding_line :: "line_table \<Rightarrow> diagnostic \<Rightarrow> int" where
  "finding_line lt d =
    (let ln = p_line (r_start (d_range d)) in
     if ln = 0 then p_line (Lookup lt (p_offset (r_start (d_range d)))) else ln)"

text \<open>A finding in another file of the project: suppressed by the comments of that file.\<close>

definition other_file :: "'r engine \<Rightarrow> string \<Rightarrow> diagnostic \<Rightarrow> project_entry option" where
  "other_file e path d =
    (case en_project e of
      None \<Rightarrow> None | Some files \<Rightarrow> if d_filename d \<noteq> path then files (d_filename d) else None)"

definition suppressed_elsewhere :: "'r engine \<Rightarrow> project_entry \<Rightarrow> diagnostic \<Rightarrow> bool" where
  "suppressed_elsewhere e f d =
    (let lines = NewLineTable (pe_source f);
         ds = fst (engine_directives e lines (entry_directives f))
     in fst (IsSuppressed ds None (d_ruleID d) (finding_line lines d)))"

fun filter_loop ::
  "'r engine \<Rightarrow> string \<Rightarrow> line_table \<Rightarrow> directive list \<Rightarrow> diagnostic list \<Rightarrow> nat \<Rightarrow> bool list \<Rightarrow> diagnostic list \<Rightarrow>
    (diagnostic list \<times> bool list) option" where
  "filter_loop e path lt supps [] n used out = Some (out, used)"
| "filter_loop e path lt supps (d # raw) n used out =
    (if en_cancelled e n then None
     else (case other_file e path d of
       Some f \<Rightarrow> filter_loop e path lt supps raw (Suc n) used (if suppressed_elsewhere e f d then out else out @ [d])
     | None \<Rightarrow>
         (let (suppressed, used') = IsSuppressed supps (Some used) (d_ruleID d) (finding_line lt d);
              used = (case used' of None \<Rightarrow> used | Some u \<Rightarrow> u)
          in filter_loop e path lt supps raw (Suc n) used (if suppressed then out else out @ [d]))))"

definition rule_contexts ::
  "'r engine \<Rightarrow> string \<Rightarrow> string \<Rightarrow> directive list \<Rightarrow> string set \<Rightarrow> 'r activeRule list \<Rightarrow> 'r activeRule \<Rightarrow> rule_context" where
  "rule_contexts e path src supps known active a =
    \<lparr>rc_path = path, rc_source = src, rc_level = md_level (ar_meta a), rc_supp = supps, rc_known = known,
     rc_semantic = (en_hasSemantic e \<or> needSemantics (requirements_of active)),
     rc_flow = needFlow (requirements_of active)\<rparr>"

definition lintFile ::
  "'r engine \<Rightarrow> string \<Rightarrow> string \<Rightarrow> analysis_level \<Rightarrow> (string, severity) fmap \<Rightarrow> string set \<Rightarrow> diagnostic list" where
  "lintFile e path src maxLevel ruleSet known =
    (if en_cancelled e 0 then []
     else (case en_parse e src of
       None \<Rightarrow> [engine_error ''parse-error'' ''source could not be parsed'' path
         (Range (NewLineTable src) 0 (min 1 (int (length src))))]
     | Some pf \<Rightarrow>
         (let lt = NewLineTable src;
              (supps, ruleMigrations) = engine_directives e lt (FromFile path src (ps_tokens pf) (ps_rootTrivia pf));
              parseErrors = parseErrorDiagnostics path (parsed_file.truncate pf) lt
          in case active_loop e maxLevel ruleSet (IDs (en_reg e)) 1 of
               None \<Rightarrow> []
             | Some (active, n) \<Rightarrow>
                 (case run_rules e path lt (rule_contexts e path src supps known active) active n [] [] of
                   None \<Rightarrow> []
                 | Some (raw, internalErrors, n) \<Rightarrow>
                     (let raw = (if maxLevel \<ge> SemanticAnalysis
                        then appendSharedDiagnostics (en_analyze e) raw path src (en_shared e) else raw)
                      in case filter_loop e path lt supps raw n (replicate (length supps) False) [] of
                           None \<Rightarrow> []
                         | Some (out, used) \<Rightarrow>
                             diagnostic_Sort
                               (out @
                                (if fmlookup ruleSet ''unknown-suppression'' \<noteq> None
                                 then unusedSuppressionDiagnostics path supps used lt else []) @
                                parseErrors @ internalErrors @ ruleMigrations))))))"

text \<open>A failure outside the rules is caught for the file as a whole: \<open>crash\<close> is its message.\<close>

definition lintFileSafe :: "string option \<Rightarrow> string \<Rightarrow> string \<Rightarrow> diagnostic list \<Rightarrow> diagnostic list" where
  "lintFileSafe crash path src diagnostics =
    (case crash of
      None \<Rightarrow> diagnostics
    | Some failed \<Rightarrow>
        [engine_error ''internal-error'' (''analysis failed: '' @ failed) path
          (Range (NewLineTable src) 0 (min 1 (int (length src))))])"

end
