(* ===== verification/Engine_Correct.thy ===== *)
theory Engine_Correct
  imports Engine
begin

text \<open>
  What the engine makes of the reports of the rules: nothing of a rule that fails, everything else unless a
  suppression comment covers it, and a suppression comment is called unused exactly when it covers nothing.
\<close>

section \<open>Suppression comments\<close>

text \<open>Directive \<open>i\<close> is one that covers a finding: the first next-line directive for it, or else each open block.\<close>

definition serves :: "directive list \<Rightarrow> string \<Rightarrow> int \<Rightarrow> nat \<Rightarrow> bool" where
  "serves ds r l i =
    (case find_next_line ds 0 r l of Some j \<Rightarrow> i = j | None \<Rightarrow> i \<in> active_blocks ds r l)"

lemma find_next_line_bound: "find_next_line ds k r l = Some i \<Longrightarrow> k \<le> i \<and> i < k + length ds"
  by (induction ds k r l rule: find_next_line.induct) (auto split: if_splits)

lemma IsSuppressed_serves:
  assumes "length used = length ds"
  shows "IsSuppressed ds (Some used) r l =
    (\<exists>i. serves ds r l i, Some (map (\<lambda>i. used ! i \<or> serves ds r l i) [0..<length ds]))"
proof (cases "find_next_line ds 0 r l")
  case None
  with assms show ?thesis by (auto simp: IsSuppressed_def blockSuppresses_spec serves_def)
next
  case (Some j)
  then have "j < length ds" using find_next_line_bound by fastforce
  with Some assms show ?thesis
    by (auto simp: IsSuppressed_def serves_def intro!: nth_equalityI simp: nth_list_update)
qed

lemma IsSuppressed_unmarked: "fst (IsSuppressed ds None r l) = (\<exists>i. serves ds r l i)"
proof -
  have "fst (IsSuppressed ds None r l) = fst (IsSuppressed ds (Some (replicate (length ds) False)) r l)"
    by (simp add: IsSuppressed_def blockSuppresses_def Let_def split: option.splits prod.splits)
  then show ?thesis by (simp add: IsSuppressed_serves)
qed

definition unused_finding :: "string \<Rightarrow> line_table \<Rightarrow> directive \<Rightarrow> diagnostic" where
  "unused_finding path lt d =
    (finding ''unknown-suppression'' ''unused pawnlint suppression directive'' path (Range lt (dr_offset d) (dr_end d)))
      \<lparr>d_severity := SeverityHint, d_category := CategoryMaintainability\<rparr>"

lemma unused_loop_spec:
  "unused_loop path lt used k ds =
    map (\<lambda>i. unused_finding path lt (ds ! i))
      (filter (\<lambda>i. dr_kind (ds ! i) \<noteq> KindEnable \<and> \<not> dr_malformed (ds ! i) \<and>
        \<not> (k + i < length used \<and> used ! (k + i))) [0..<length ds])"
proof (induction path lt used k ds rule: unused_loop.induct)
  case (2 path lt used k d ds)
  have "[0..<length (d # ds)] = 0 # map Suc [0..<length ds]"
    by (simp add: map_Suc_upt upt_conv_Cons del: upt_Suc)
  with 2 show ?case by (auto simp: unused_finding_def filter_map comp_def simp del: upt_Suc)
qed simp

section \<open>The loops\<close>

definition own_file :: "'r engine \<Rightarrow> string \<Rightarrow> diagnostic \<Rightarrow> bool" where
  "own_file e path d = (other_file e path d = None)"

text \<open>A finding is hidden by the comments of the file it is in.\<close>

definition hidden :: "'r engine \<Rightarrow> string \<Rightarrow> line_table \<Rightarrow> directive list \<Rightarrow> diagnostic \<Rightarrow> bool" where
  "hidden e path lt supps d =
    (case other_file e path d of
      Some f \<Rightarrow>
        (let lines = NewLineTable (pe_source f); ds = fst (engine_directives e lines (entry_directives f))
         in \<exists>i. serves ds (d_ruleID d) (finding_line lines d) i)
    | None \<Rightarrow> \<exists>i. serves supps (d_ruleID d) (finding_line lt d) i)"

definition covers :: "'r engine \<Rightarrow> string \<Rightarrow> line_table \<Rightarrow> directive list \<Rightarrow> diagnostic list \<Rightarrow> nat \<Rightarrow> bool" where
  "covers e path lt supps raw i =
    (\<exists>d\<in>set raw. own_file e path d \<and> serves supps (d_ruleID d) (finding_line lt d) i)"

lemma filter_loop_spec:
  assumes "\<And>n. \<not> en_cancelled e n"
  shows "length used = length supps \<Longrightarrow> filter_loop e path lt supps raw n used out =
    Some (out @ filter (\<lambda>d. \<not> hidden e path lt supps d) raw,
      map (\<lambda>i. used ! i \<or> covers e path lt supps raw i) [0..<length supps])"
proof (induction raw arbitrary: n used out)
  case Nil
  then have "map ((!) used) [0..<length supps] = used" by (metis map_nth)
  then show ?case by (simp add: covers_def)
next
  case (Cons d raw)
  show ?case
  proof (cases "other_file e path d")
    case (Some f)
    have "suppressed_elsewhere e f d = hidden e path lt supps d"
      using Some by (simp add: suppressed_elsewhere_def hidden_def Let_def IsSuppressed_unmarked)
    with Some Cons assms show ?thesis by (simp add: covers_def own_file_def)
  next
    case None
    let ?serves = "serves supps (d_ruleID d) (finding_line lt d)"
    have hid: "hidden e path lt supps d = (\<exists>i. ?serves i)" using None by (simp add: hidden_def)
    let ?used = "map (\<lambda>i. used ! i \<or> ?serves i) [0..<length supps]"
    have "map (\<lambda>i. ?used ! i \<or> covers e path lt supps raw i) [0..<length supps] =
        map (\<lambda>i. used ! i \<or> covers e path lt supps (d # raw) i) [0..<length supps]"
      using None by (auto simp: covers_def own_file_def)
    with Cons.IH [of ?used "Suc n" "if \<exists>i. ?serves i then out else out @ [d]"] None assms
      IsSuppressed_serves [OF Cons.prems, of "d_ruleID d" "finding_line lt d"]
    show ?thesis by (simp add: hid)
  qed
qed

definition failed_rule :: "'r engine \<Rightarrow> ('r activeRule \<Rightarrow> rule_context) \<Rightarrow> 'r activeRule \<Rightarrow> string option" where
  "failed_rule e ctx a = snd (en_run e (ar_rule a) (ctx a))"

definition rule_findings ::
  "'r engine \<Rightarrow> string \<Rightarrow> line_table \<Rightarrow> ('r activeRule \<Rightarrow> rule_context) \<Rightarrow> 'r activeRule \<Rightarrow> diagnostic list" where
  "rule_findings e path lt ctx a =
    (if failed_rule e ctx a \<noteq> None then []
     else map (\<lambda>d. own_finding (ar_id a) (report a path lt d)) (fst (en_run e (ar_rule a) (ctx a))))"

definition rule_failures ::
  "'r engine \<Rightarrow> string \<Rightarrow> line_table \<Rightarrow> ('r activeRule \<Rightarrow> rule_context) \<Rightarrow> 'r activeRule list \<Rightarrow> diagnostic list" where
  "rule_failures e path lt ctx active =
    concat (map (\<lambda>a. case failed_rule e ctx a of None \<Rightarrow> [] | Some text \<Rightarrow> [rule_failure path lt (ar_id a) text]) active)"

lemma run_rules_spec:
  assumes "\<And>n. \<not> en_cancelled e n"
  shows "run_rules e path lt ctx active n raw errs =
    Some (raw @ concat (map (rule_findings e path lt ctx) active), errs @ rule_failures e path lt ctx active,
      n + length active)"
proof (induction active arbitrary: n raw errs)
  case (Cons a active)
  obtain reports failed where "en_run e (ar_rule a) (ctx a) = (reports, failed)" by force
  with Cons assms show ?case
    by (auto simp: rule_findings_def rule_failures_def failed_rule_def Let_def comp_def split: option.splits)
qed (simp add: rule_failures_def)

lemma active_loop_spec:
  assumes "\<And>n. \<not> en_cancelled e n"
  shows "active_loop e maxLevel ruleSet idents n =
    Some (List.map_filter (active_rule e maxLevel ruleSet) idents, n + length idents)"
  by (induction idents arbitrary: n) (simp_all add: assms List.map_filter_def split: option.splits)

text \<open>A rule runs at its configured severity and its findings carry its identifier.\<close>

lemma report_filled:
  assumes "ar_severity a \<noteq> SeverityOff"
  shows "d_severity (report a path lt d) \<noteq> SeverityOff"
    and "ar_id a \<noteq> [] \<Longrightarrow> d_ruleID (report a path lt d) \<noteq> []"
  unfolding report_def Let_def using assms by simp_all

lemma own_finding_id: "d_ruleID d \<noteq> [] \<Longrightarrow> d_ruleID (own_finding ident d) = ident"
  and own_finding_severity: "d_severity (own_finding ident d) = d_severity d"
  by (simp_all add: own_finding_def)

lemma rule_findings_own:
  assumes "d \<in> set (rule_findings e path lt ctx a)" "ar_id a \<noteq> []" "ar_severity a \<noteq> SeverityOff"
  shows "d_ruleID d = ar_id a \<and> d_severity d \<noteq> SeverityOff"
proof -
  obtain d0 where "d = own_finding (ar_id a) (report a path lt d0)"
    using assms(1) by (auto simp: rule_findings_def split: if_splits)
  with report_filled [OF assms(3)] assms(2) show ?thesis by (simp add: own_finding_id own_finding_severity)
qed

lemma active_rule_severity:
  "active_rule e maxLevel ruleSet ident = Some a \<Longrightarrow> ar_id a = ident \<and> fmlookup ruleSet ident = Some (ar_severity a) \<and>
    ar_severity a \<noteq> SeverityOff \<and> md_level (ar_meta a) \<le> maxLevel"
  by (auto simp: active_rule_def levelAllowed_def split: if_splits option.splits)

section \<open>The whole run\<close>

text \<open>The rules that run on a file, and the findings before suppression.\<close>

definition rules_to_run :: "'r engine \<Rightarrow> analysis_level \<Rightarrow> (string, severity) fmap \<Rightarrow> 'r activeRule list" where
  "rules_to_run e maxLevel ruleSet = List.map_filter (active_rule e maxLevel ruleSet) (IDs (en_reg e))"

definition own_directives :: "'r engine \<Rightarrow> string \<Rightarrow> string \<Rightarrow> parsed_source \<Rightarrow> directive list \<times> diagnostic list" where
  "own_directives e path src pf =
    engine_directives e (NewLineTable src) (FromFile path src (ps_tokens pf) (ps_rootTrivia pf))"

definition run_context ::
  "'r engine \<Rightarrow> string \<Rightarrow> string \<Rightarrow> parsed_source \<Rightarrow> analysis_level \<Rightarrow> (string, severity) fmap \<Rightarrow> string set \<Rightarrow>
    'r activeRule \<Rightarrow> rule_context" where
  "run_context e path src pf maxLevel ruleSet known =
    rule_contexts e path src (fst (own_directives e path src pf)) known (rules_to_run e maxLevel ruleSet)"

definition raw_findings ::
  "'r engine \<Rightarrow> string \<Rightarrow> string \<Rightarrow> parsed_source \<Rightarrow> analysis_level \<Rightarrow> (string, severity) fmap \<Rightarrow> string set \<Rightarrow>
    diagnostic list" where
  "raw_findings e path src pf maxLevel ruleSet known =
    (let found = concat (map (rule_findings e path (NewLineTable src)
       (run_context e path src pf maxLevel ruleSet known)) (rules_to_run e maxLevel ruleSet))
     in if maxLevel \<ge> SemanticAnalysis
        then appendSharedDiagnostics (en_analyze e) found path src (en_shared e) else found)"

definition unused_directives ::
  "'r engine \<Rightarrow> string \<Rightarrow> string \<Rightarrow> directive list \<Rightarrow> diagnostic list \<Rightarrow> diagnostic list" where
  "unused_directives e path src supps raw =
    map (\<lambda>i. unused_finding path (NewLineTable src) (supps ! i))
      (filter (\<lambda>i. dr_kind (supps ! i) \<noteq> KindEnable \<and> \<not> dr_malformed (supps ! i) \<and>
        \<not> covers e path (NewLineTable src) supps raw i) [0..<length supps])"

lemma unusedSuppressionDiagnostics_covers:
  "unusedSuppressionDiagnostics path supps
      (map (\<lambda>i. replicate (length supps) False ! i \<or> covers e path (NewLineTable src) supps raw i) [0..<length supps])
      (NewLineTable src) =
    unused_directives e path src supps raw"
  unfolding unusedSuppressionDiagnostics_def unused_loop_spec unused_directives_def
  by (intro arg_cong [where f = "map _"] filter_cong) auto

lemma lintFile_run:
  assumes live: "\<And>n. \<not> en_cancelled e n" and parse: "en_parse e src = Some pf"
  shows "lintFile e path src maxLevel ruleSet known =
    (let lt = NewLineTable src; supps = fst (own_directives e path src pf);
         raw = raw_findings e path src pf maxLevel ruleSet known
     in diagnostic_Sort
      (filter (\<lambda>d. \<not> hidden e path lt supps d) raw @
       (if fmlookup ruleSet ''unknown-suppression'' \<noteq> None then unused_directives e path src supps raw else []) @
       parseErrorDiagnostics path (parsed_file.truncate pf) lt @
       rule_failures e path lt (run_context e path src pf maxLevel ruleSet known) (rules_to_run e maxLevel ruleSet) @
       snd (own_directives e path src pf)))"
proof -
  obtain supps ms where ds: "own_directives e path src pf = (supps, ms)" by force
  then have ds': "engine_directives e (NewLineTable src) (FromFile path src (ps_tokens pf) (ps_rootTrivia pf)) =
    (supps, ms)" by (simp add: own_directives_def)
  have ctx: "run_context e path src pf maxLevel ruleSet known =
    rule_contexts e path src supps known (rules_to_run e maxLevel ruleSet)"
    by (simp add: run_context_def ds)
  have raw: "raw_findings e path src pf maxLevel ruleSet known =
    (if maxLevel \<ge> SemanticAnalysis then appendSharedDiagnostics (en_analyze e)
      (concat (map (rule_findings e path (NewLineTable src)
        (rule_contexts e path src supps known (rules_to_run e maxLevel ruleSet))) (rules_to_run e maxLevel ruleSet)))
      path src (en_shared e)
     else concat (map (rule_findings e path (NewLineTable src)
        (rule_contexts e path src supps known (rules_to_run e maxLevel ruleSet))) (rules_to_run e maxLevel ruleSet)))"
    by (simp only: raw_findings_def ctx Let_def)
  note loop = active_loop_spec [OF live, folded rules_to_run_def] run_rules_spec [OF live]
    filter_loop_spec [OF live length_replicate]
  show ?thesis
    by (simp add: lintFile_def Let_def parse ds ds' live loop active_loop_spec [OF live] rules_to_run_def [symmetric]
        unusedSuppressionDiagnostics_covers ctx raw del: replicate.simps)
qed

text \<open>
  C32: on a file that parses, in a run that is not cancelled, the engine reports, in the order of file, offset,
  rule and message and each as often as it is found: the findings that no suppression comment of their file
  covers; when unknown-suppression is enabled, one hint for exactly the suppression comments of the file (other
  than enable and malformed ones) that cover nothing; the syntax errors; one internal error for each rule that
  fails; and the renamed rules. A finding of a rule carries the identifier of a rule that runs and a severity.
\<close>

theorem lintFile_correct:
  assumes live: "\<And>n. \<not> en_cancelled e n" and parse: "en_parse e src = Some pf"
    and lt: "lt = NewLineTable src" and supps: "supps = fst (own_directives e path src pf)"
    and raw: "raw = raw_findings e path src pf maxLevel ruleSet known"
    and ctx: "ctx = run_context e path src pf maxLevel ruleSet known"
    and active: "active = rules_to_run e maxLevel ruleSet"
    and named: "[] \<notin> set (IDs (en_reg e))"
  shows "sorted_wrt (\<lambda>a b. (d_filename a, d_offset a, d_ruleID a, d_message a)
      \<le> (d_filename b, d_offset b, d_ruleID b, d_message b)) (lintFile e path src maxLevel ruleSet known) \<and>
    mset (lintFile e path src maxLevel ruleSet known) =
      filter_mset (\<lambda>d. \<not> hidden e path lt supps d) (mset raw) +
      (if ''unknown-suppression'' |\<in>| fmdom ruleSet
       then {#unused_finding path lt (supps ! i). i \<in># mset (filter (\<lambda>i. dr_kind (supps ! i) \<noteq> KindEnable \<and>
          \<not> dr_malformed (supps ! i) \<and> \<not> covers e path lt supps raw i) [0..<length supps])#}
       else {#}) +
      mset (parseErrorDiagnostics path (parsed_file.truncate pf) lt) +
      mset (rule_failures e path lt ctx active) +
      mset (snd (own_directives e path src pf)) \<and>
    (\<forall>a\<in>set active. \<forall>d\<in>set (rule_findings e path lt ctx a). d_ruleID d = ar_id a \<and> d_severity d \<noteq> SeverityOff)"
proof -
  have run: "lintFile e path src maxLevel ruleSet known = diagnostic_Sort
      (filter (\<lambda>d. \<not> hidden e path lt supps d) raw @
       (if fmlookup ruleSet ''unknown-suppression'' \<noteq> None then unused_directives e path src supps raw else []) @
       parseErrorDiagnostics path (parsed_file.truncate pf) lt @ rule_failures e path lt ctx active @
       snd (own_directives e path src pf))"
    unfolding lt supps raw ctx active using lintFile_run [OF live parse, of path maxLevel ruleSet known]
    by (simp only: Let_def)
  have unused: "mset (unused_directives e path src supps raw) =
    {#unused_finding path lt (supps ! i). i \<in># mset (filter (\<lambda>i. dr_kind (supps ! i) \<noteq> KindEnable \<and>
          \<not> dr_malformed (supps ! i) \<and> \<not> covers e path lt supps raw i) [0..<length supps])#}"
    by (simp only: unused_directives_def lt [symmetric] mset_map)
  have "d_ruleID d = ar_id a \<and> d_severity d \<noteq> SeverityOff"
    if "a \<in> set active" "d \<in> set (rule_findings e path lt ctx a)" for a d
  proof -
    obtain ident where "ident \<in> set (IDs (en_reg e))" "active_rule e maxLevel ruleSet ident = Some a"
      using \<open>a \<in> set active\<close> by (auto simp: active rules_to_run_def List.map_filter_def)
    with named have "ar_id a \<noteq> []" "ar_severity a \<noteq> SeverityOff" by (auto dest: active_rule_severity)
    with rule_findings_own that(2) show ?thesis by blast
  qed
  moreover have "mset (lintFile e path src maxLevel ruleSet known) =
      filter_mset (\<lambda>d. \<not> hidden e path lt supps d) (mset raw) +
      (if ''unknown-suppression'' |\<in>| fmdom ruleSet then mset (unused_directives e path src supps raw) else {#}) +
      mset (parseErrorDiagnostics path (parsed_file.truncate pf) lt) +
      mset (rule_failures e path lt ctx active) +
      mset (snd (own_directives e path src pf))"
    unfolding run mset_diagnostic_Sort mset_append mset_filter fmlookup_dom_iff by auto
  moreover have "sorted_wrt (\<lambda>a b. (d_filename a, d_offset a, d_ruleID a, d_message a)
      \<le> (d_filename b, d_offset b, d_ruleID b, d_message b)) (lintFile e path src maxLevel ruleSet known)"
    unfolding run by (rule sorted_diagnostic_Sort)
  ultimately show ?thesis unfolding unused by blast
qed

text \<open>A file with two findings, the first of them under a next-line comment that names the rule by its old name.\<close>

definition example_source :: string where
  "example_source =
    ''// pawnlint-disable-next-line unused-variable'' @ [CHR 0x0A] @ ''new x;'' @ [CHR 0x0A] @ ''new y;''"

definition example_parse :: parsed_source where
  "example_parse = \<lparr>pp_root = Node 0 KindSourceFile Dot 0 62 False [] [], pp_source = example_source, pp_diagnostics = [],
    pp_hasErrors = False,
    ps_tokens = [([\<lparr>tr_comment = True, tr_start = 0, tr_line = 1, tr_end = 45\<rparr>], [])], ps_rootTrivia = None\<rparr>"

definition example_report :: "int \<Rightarrow> diagnostic" where
  "example_report offset =
    (finding [] ''unused'' [] (Range (NewLineTable example_source) offset (offset + 1)))\<lparr>d_severity := SeverityOff\<rparr>"

definition example_engine :: "string engine" where
  "example_engine = \<lparr>en_reg = example_registry, en_shared = None, en_project = None,
    en_parse = \<lambda>src. Some example_parse,
    en_analyze = \<lambda>path src. \<lparr>sh_file = 0, sh_diagnostics = [], sh_place = \<lambda>f. None\<rparr>,
    en_run = \<lambda>r ctx. ([example_report 50, example_report 57], None), en_hasSemantic = False,
    en_cancelled = \<lambda>n. False\<rparr>"

definition example_rules :: "(string, severity) fmap" where
  "example_rules = fmap_of_list [(''unused-local'', SeverityWarning), (''unknown-suppression'', SeverityHint)]"

definition example_run :: "diagnostic list" where
  "example_run = lintFile example_engine ''a.pwn'' example_source SemanticAnalysis example_rules {}"

theorem lintFile_correct_witness:
  "sorted_wrt (\<lambda>a b. (d_filename a, d_offset a, d_ruleID a, d_message a)
      \<le> (d_filename b, d_offset b, d_ruleID b, d_message b)) example_run \<and>
    map (\<lambda>d. (d_ruleID d, p_line (r_start (d_range d)))) example_run =
      [(''deprecated-rule-id'', 1), (''unused-local'', 3)]"
proof -
  have live: "\<not> en_cancelled example_engine n" for n by (simp add: example_engine_def)
  have parse: "en_parse example_engine example_source = Some example_parse" by (simp add: example_engine_def)
  have named: "[] \<notin> set (IDs (en_reg example_engine))" by code_simp
  have found: "map (\<lambda>d. (d_ruleID d, p_line (r_start (d_range d)))) example_run =
      [(''deprecated-rule-id'', 1), (''unused-local'', 3)]" by code_simp
  from lintFile_correct [OF live parse refl refl refl refl refl named, of "''a.pwn''" SemanticAnalysis example_rules "{}"]
  have "sorted_wrt (\<lambda>a b. (d_filename a, d_offset a, d_ruleID a, d_message a)
      \<le> (d_filename b, d_offset b, d_ruleID b, d_message b)) example_run"
    unfolding example_run_def by (rule conjunct1)
  then show ?thesis using found by (rule conjI)
qed

lemma Has_or: "Has r (q OR q') = (Has r q \<or> Has r q')"
  by (simp add: Has_def bit.conj_disj_distrib or_eq_0_iff)

lemma Has_requirements_of: "Has (requirements_of active) q = (\<exists>a\<in>set active. Has (md_requirements (ar_meta a)) q)"
proof -
  have "Has (foldl (OR) r0 rs) q = (Has r0 q \<or> (\<exists>r\<in>set rs. Has r q))" for r0 rs
    by (induction rs arbitrary: r0) (auto simp: Has_def bit.conj_disj_distrib2 or_eq_0_iff)
  then show ?thesis by (simp add: requirements_of_def) (simp add: Has_def)
qed

lemma active_rule_id: "active_rule e maxLevel ruleSet ident = Some a \<Longrightarrow> ar_id a = ident"
  using active_rule_severity by metis

lemma rules_to_run_ids:
  "map ar_id (rules_to_run e maxLevel ruleSet) =
    filter (\<lambda>ident. active_rule e maxLevel ruleSet ident \<noteq> None) (IDs (en_reg e))"
proof -
  have "map ar_id (List.map_filter (active_rule e maxLevel ruleSet) idents) =
    filter (\<lambda>ident. active_rule e maxLevel ruleSet ident \<noteq> None) idents" for idents
    by (induction idents) (auto simp: List.map_filter_def active_rule_id)
  then show ?thesis by (simp add: rules_to_run_def)
qed

lemma active_rule_iff:
  "(active_rule e maxLevel ruleSet ident \<noteq> None) =
    (\<not> (en_shared e \<noteq> None \<and> DelegatesToShared ident) \<and>
     (\<exists>sev. fmlookup ruleSet ident = Some sev \<and> sev \<noteq> SeverityOff) \<and>
     (\<exists>meta. Lookup_rule (en_reg e) ident = Some meta \<and> md_level meta \<le> maxLevel) \<and>
     Rule (en_reg e) ident \<noteq> None)"
  by (simp add: active_rule_def levelAllowed_def split: option.splits)


lemma example_rules_run:
  "map (\<lambda>a. md_requirements (ar_meta a)) (rules_to_run example_engine SemanticAnalysis example_rules) = [29]"
  by code_simp


end
