(* ===== verification/Declarations.thy ===== *)
theory Declarations
  imports Include_Graph Symbols
begin

text \<open>
  The declarations of a project and what its identifiers refer to (\<open>pkg/project/declarations.go\<close>). A file is
  its place in \<open>Model.Files\<close>, a project_decl is a symbol of a file and its key is the file with the node that
  declares it. The maps by name of the code are selections from the list of all declarations.
\<close>

section \<open>Declarations\<close>

datatype call_kind = CallDirect | CallDynamic | CallTimer

text \<open>A call by name at run time, as the expansion of the file shows it.\<close>

record runtime_call =
  rt_caller :: string
  rt_target :: string
  rt_node :: node
  rt_kind :: call_kind
  rt_argumentOffset :: int

record full_file = project_file +
  ff_order :: nat
  ff_source :: string
  ff_semantic :: semantic
  ff_runtime :: "runtime_call list"

record project_decl =
  de_file :: nat
  de_symbol :: symbol

type_synonym decl_key = "nat \<times> nat"

abbreviation de_name :: "project_decl \<Rightarrow> string" where "de_name d \<equiv> sy_name (de_symbol d)"
abbreviation de_kind :: "project_decl \<Rightarrow> symbol_kind" where "de_kind d \<equiv> sy_kind (de_symbol d)"
abbreviation de_node :: "project_decl \<Rightarrow> node" where "de_node d \<equiv> sy_decl (de_symbol d)"

definition declarationKey :: "project_decl \<Rightarrow> decl_key" where
  "declarationKey d = (de_file d, n_id (de_node d))"

definition declarationSymbolAmbiguous :: "project_decl \<Rightarrow> bool" where
  "declarationSymbolAmbiguous d = sy_ambiguous (de_symbol d)"

definition declarationLess :: "full_file list \<Rightarrow> project_decl \<Rightarrow> project_decl \<Rightarrow> bool" where
  "declarationLess files l r =
    (let left = files ! de_file l; right = files ! de_file r in
     if pf_canonical left \<noteq> pf_canonical right then pf_canonical left < pf_canonical right
     else if ff_order left \<noteq> ff_order right then ff_order left < ff_order right
     else n_start (de_node l) < n_start (de_node r))"

definition sortDeclarations :: "full_file list \<Rightarrow> project_decl list \<Rightarrow> project_decl list" where
  "sortDeclarations files ds = stable_sort (declarationLess files) ds"

interpretation declaration_order: go_less "declarationLess files" for files
  by unfold_locales (auto simp: declarationLess_def Let_def split: if_splits)

definition declared :: "symbol \<Rightarrow> bool" where
  "declared s = (\<not> IsTestFunction s \<and> \<not> (sy_function s \<noteq> None \<and> sy_kind s \<noteq> SymbolFunction))"

definition file_declarations :: "full_file list \<Rightarrow> nat \<Rightarrow> project_decl list" where
  "file_declarations files i =
    map (\<lambda>s. \<lparr>de_file = i, de_symbol = s\<rparr>) (filter declared (sm_symbols (ff_semantic (files ! i))))"

definition buildDeclarations :: "full_file list \<Rightarrow> project_decl list" where
  "buildDeclarations files =
    sortDeclarations files (concat (map (file_declarations files) [0..<length files]))"

definition declarations_named :: "full_file list \<Rightarrow> string \<Rightarrow> project_decl list" where
  "declarations_named files name = filter (\<lambda>d. de_name d = name) (buildDeclarations files)"

definition declaration_by_key :: "full_file list \<Rightarrow> decl_key \<Rightarrow> project_decl option" where
  "declaration_by_key files key = List.find (\<lambda>d. declarationKey d = key) (buildDeclarations files)"

section \<open>Variants of a function\<close>

definition projectStateVariantsCoexist :: "project_decl \<Rightarrow> project_decl \<Rightarrow> bool" where
  "projectStateVariantsCoexist l r =
    (let leftState = field (de_node l) ''state'' \<noteq> None; rightState = field (de_node r) ''state'' \<noteq> None in
     if \<not> leftState \<and> \<not> rightState then False
     else if leftState \<noteq> rightState then True
     else if sy_stateRaw (de_symbol l) \<or> sy_stateRaw (de_symbol r) then False
     else \<not> (\<exists>a\<in>set (sy_states (de_symbol l)). \<exists>b\<in>set (sy_states (de_symbol r)). a = b))"

fun all_coexist :: "project_decl list \<Rightarrow> bool" where
  "all_coexist [] = True"
| "all_coexist (d # ds) = (list_all (projectStateVariantsCoexist d) ds \<and> all_coexist ds)"

fun first_by_key :: "project_decl list \<Rightarrow> decl_key list \<Rightarrow> project_decl list" where
  "first_by_key [] seen = []"
| "first_by_key (d # ds) seen =
    (if declarationKey d \<in> set seen then first_by_key ds seen
     else d # first_by_key ds (declarationKey d # seen))"

text \<open>The functions of a name in the units that hold a file, each once.\<close>

definition visible_functions :: "full_file list \<Rightarrow> comp_unit list \<Rightarrow> nat \<Rightarrow> string \<Rightarrow> project_decl list" where
  "visible_functions files units i name =
    (let eligible = (\<lambda>u. filter (\<lambda>d. de_file d \<in> unit_members u \<and> de_kind d = SymbolFunction \<and>
        \<not> declarationSymbolAmbiguous d) (declarations_named files name)) in
     case units of
       [u] \<Rightarrow> if i \<in> unit_members u then eligible u else []
     | _ \<Rightarrow> first_by_key (concat (map eligible (filter (\<lambda>u. i \<in> unit_members u) units))) [])"

definition functionVariantsNamed :: "full_file list \<Rightarrow> comp_unit list \<Rightarrow> nat \<Rightarrow> string \<Rightarrow> project_decl list" where
  "functionVariantsNamed files units i name =
    (if name = [] then []
     else (let visible = visible_functions files units i name;
               definitions = filter (\<lambda>d. n_kind (de_node d) = KindFunctionDefinition) visible;
               declarations = filter (\<lambda>d. n_kind (de_node d) = KindFunctionDeclaration) visible;
               candidates = sortDeclarations files (if definitions = [] then declarations else definitions)
           in if all_coexist candidates then candidates else []))"

section \<open>References\<close>

record decl_reference =
  rf_file :: nat
  rf_node :: node
  rf_kind :: reference_kind

type_synonym place = "nat \<times> nat"

definition place_of :: "decl_reference \<Rightarrow> place" where
  "place_of r = (rf_file r, n_id (rf_node r))"

record reference_state =
  rs_resolved :: "place \<Rightarrow> decl_key option"
  rs_ambiguous :: "place \<Rightarrow> bool"
  rs_references :: "decl_key \<Rightarrow> decl_reference list"
  rs_marked :: "(decl_key \<times> place) set"

definition no_references :: reference_state where
  "no_references = \<lparr>rs_resolved = Map.empty, rs_ambiguous = \<lambda>_. False, rs_references = \<lambda>_. [], rs_marked = {}\<rparr>"

definition addReference :: "decl_key \<Rightarrow> decl_reference \<Rightarrow> reference_state \<Rightarrow> reference_state" where
  "addReference key r s =
    (let pl = place_of r; existing = rs_resolved s pl; ambiguous = rs_ambiguous s pl in
     if existing = Some key then s
     else if ambiguous \<and> (key, pl) \<in> rs_marked s then s
     else
       (let s1 = (if ambiguous then s\<lparr>rs_marked := insert (key, pl) (rs_marked s)\<rparr>
                  else (case existing of
                    None \<Rightarrow> s
                  | Some other \<Rightarrow> s\<lparr>rs_resolved := (rs_resolved s)(pl := None),
                      rs_ambiguous := (rs_ambiguous s)(pl := True),
                      rs_marked := insert (key, pl) (insert (other, pl) (rs_marked s))\<rparr>));
            s2 = s1\<lparr>rs_references := (rs_references s1)(key := rs_references s1 key @ [r])\<rparr>
        in if ambiguous \<or> existing \<noteq> None then s2
           else s2\<lparr>rs_resolved := (rs_resolved s2)(pl \<mapsto> key)\<rparr>))"

text \<open>The references a file resolves itself; where it has some for a symbol the list is allocated anew.\<close>

definition own_references :: "full_file list \<Rightarrow> nat \<Rightarrow> nat \<Rightarrow> decl_reference list" where
  "own_references files i k =
    map (\<lambda>(n, kind). \<lparr>rf_file = i, rf_node = n, rf_kind = kind\<rparr>) (sm_references (ff_semantic (files ! i)) k)"

definition add_symbol :: "full_file list \<Rightarrow> nat \<Rightarrow> nat \<Rightarrow> reference_state \<Rightarrow> reference_state" where
  "add_symbol files i k s =
    (let sy = sm_symbols (ff_semantic (files ! i)) ! k;
         key = declarationKey \<lparr>de_file = i, de_symbol = sy\<rparr>;
         refs = own_references files i k
     in if \<not> declared sy then s
        else fold (addReference key) refs
          (if refs = [] then s else s\<lparr>rs_references := (rs_references s)(key := [])\<rparr>))"

definition add_file :: "full_file list \<Rightarrow> nat \<Rightarrow> reference_state \<Rightarrow> reference_state" where
  "add_file files i s = fold (add_symbol files i) [0..<length (sm_symbols (ff_semantic (files ! i)))] s"

section \<open>Names that a file does not declare\<close>

text \<open>A value that the file declares itself is not looked for in the unit: the search stops there.\<close>

fun unit_candidates ::
  "comp_unit \<Rightarrow> nat \<Rightarrow> reference_target \<Rightarrow> project_decl list \<Rightarrow> project_decl list \<Rightarrow> project_decl list option" where
  "unit_candidates u origin target [] found = Some found"
| "unit_candidates u origin target (d # ds) found =
    (if de_file d \<notin> unit_members u \<or> declarationSymbolAmbiguous d then unit_candidates u origin target ds found
     else (case target of
       ReferenceFunction \<Rightarrow>
         unit_candidates u origin target ds
           (if de_kind d = SymbolFunction \<and> n_kind (de_node d) = KindFunctionDefinition then found @ [d] else found)
     | ReferenceValue \<Rightarrow>
         if de_file d = origin then None
         else unit_candidates u origin target ds
           (if de_kind d \<in> {SymbolGlobal, SymbolEnumRoot, SymbolEnumEntry} then found @ [d] else found)))"

definition resolveInUnit ::
  "full_file list \<Rightarrow> comp_unit \<Rightarrow> nat \<Rightarrow> string \<Rightarrow> reference_target \<Rightarrow> project_decl option" where
  "resolveInUnit files u origin name target =
    (case unit_candidates u origin target (declarations_named files name) [] of Some [d] \<Rightarrow> Some d | _ \<Rightarrow> None)"

definition unresolved_targets ::
  "full_file list \<Rightarrow> comp_unit list \<Rightarrow> comp_unit \<Rightarrow> nat \<Rightarrow> string \<Rightarrow> reference_target \<Rightarrow> project_decl list" where
  "unresolved_targets files units u i name target =
    (let variants = (if target = ReferenceFunction then functionVariantsNamed files units i name else []) in
     if variants \<noteq> [] then variants
     else (case resolveInUnit files u i name target of None \<Rightarrow> [] | Some d \<Rightarrow> [d]))"

definition addUnresolvedReference ::
  "full_file list \<Rightarrow> comp_unit list \<Rightarrow> comp_unit \<Rightarrow> nat \<Rightarrow> node \<times> reference_kind \<times> reference_target \<Rightarrow>
    reference_state \<Rightarrow> reference_state" where
  "addUnresolvedReference files units u i = (\<lambda>(n, kind, target) s.
    fold (\<lambda>d. addReference (declarationKey d) \<lparr>rf_file = i, rf_node = n, rf_kind = kind\<rparr>)
      (unresolved_targets files units u i (text_of (ff_semantic (files ! i)) n) target) s)"

definition add_unit :: "full_file list \<Rightarrow> comp_unit list \<Rightarrow> comp_unit \<Rightarrow> reference_state \<Rightarrow> reference_state" where
  "add_unit files units u s =
    fold (\<lambda>i. fold (addUnresolvedReference files units u i) (sm_unresolved (ff_semantic (files ! i)))) (un_files u) s"

fun kind_rank :: "reference_kind \<Rightarrow> nat" where
  "kind_rank ReferenceRead = 0"
| "kind_rank ReferenceWrite = 1"
| "kind_rank ReferenceReadWrite = 2"
| "kind_rank ReferenceCall = 3"

definition compareReferences :: "full_file list \<Rightarrow> decl_reference \<Rightarrow> decl_reference \<Rightarrow> bool" where
  "compareReferences files l r =
    (let left = pf_canonical (files ! rf_file l); right = pf_canonical (files ! rf_file r) in
     if left \<noteq> right then left < right
     else if n_start (rf_node l) \<noteq> n_start (rf_node r) then n_start (rf_node l) < n_start (rf_node r)
     else kind_rank (rf_kind l) < kind_rank (rf_kind r))"

definition collect_references :: "full_file list \<Rightarrow> comp_unit list \<Rightarrow> reference_state" where
  "collect_references files units =
    fold (add_unit files units) units (fold (add_file files) [0..<length files] no_references)"

definition buildReferences :: "full_file list \<Rightarrow> comp_unit list \<Rightarrow> reference_state" where
  "buildReferences files units =
    (let s = collect_references files units
     in s\<lparr>rs_references := \<lambda>key. stable_sort (compareReferences files) (rs_references s key)\<rparr>)"

text \<open>\<open>Model.Resolve\<close>: nothing for an identifier that has several declarations.\<close>

definition resolveSyntax :: "full_file list \<Rightarrow> reference_state \<Rightarrow> nat \<Rightarrow> node \<Rightarrow> project_decl option" where
  "resolveSyntax files s i n =
    (if rs_ambiguous s (i, n_id n) then None
     else (case rs_resolved s (i, n_id n) of None \<Rightarrow> None | Some key \<Rightarrow> declaration_by_key files key))"

definition References :: "reference_state \<Rightarrow> project_decl \<Rightarrow> decl_reference list" where
  "References s d = rs_references s (declarationKey d)"

section \<open>What references add up to\<close>

text \<open>
  The pairs of a declaration and a place that have been added decide the state: a place with one declaration is
  resolved to it, a place with several is ambiguous, and every pair is kept once.
\<close>

type_synonym history = "(decl_key \<times> decl_reference) list"

definition keys_at :: "history \<Rightarrow> place \<Rightarrow> decl_key set" where
  "keys_at h pl = {key. \<exists>r. (key, r) \<in> set h \<and> place_of r = pl}"

definition reference_ok :: "history \<Rightarrow> reference_state \<Rightarrow> bool" where
  "reference_ok h s \<longleftrightarrow>
    (\<forall>pl key. rs_resolved s pl = Some key \<longleftrightarrow> keys_at h pl = {key}) \<and>
    (\<forall>pl. rs_ambiguous s pl \<longleftrightarrow> (\<exists>k\<in>keys_at h pl. \<exists>k'\<in>keys_at h pl. k \<noteq> k')) \<and>
    (\<forall>pl key. (key, pl) \<in> rs_marked s \<longleftrightarrow> rs_ambiguous s pl \<and> key \<in> keys_at h pl) \<and>
    (\<forall>key. distinct (map place_of (rs_references s key)) \<and>
      place_of ` set (rs_references s key) = {pl. key \<in> keys_at h pl} \<and>
      (\<forall>r\<in>set (rs_references s key). (key, r) \<in> set h))"

lemma keys_at_Nil [simp]: "keys_at [] pl = {}"
  by (simp add: keys_at_def)

lemma keys_at_snoc: "keys_at (h @ [(key, r)]) pl = (if place_of r = pl then insert key (keys_at h pl) else keys_at h pl)"
  by (auto simp: keys_at_def)

lemma reference_okI:
  assumes "\<And>p k. rs_resolved s p = Some k \<longleftrightarrow> keys_at h p = {k}"
    and "\<And>p. rs_ambiguous s p \<longleftrightarrow> (\<exists>k\<in>keys_at h p. \<exists>k'\<in>keys_at h p. k \<noteq> k')"
    and "\<And>p k. (k, p) \<in> rs_marked s \<longleftrightarrow> rs_ambiguous s p \<and> k \<in> keys_at h p"
    and "\<And>k. distinct (map place_of (rs_references s k)) \<and>
      place_of ` set (rs_references s k) = {p. k \<in> keys_at h p} \<and>
      (\<forall>r\<in>set (rs_references s k). (k, r) \<in> set h)"
  shows "reference_ok h s"
  unfolding reference_ok_def by (intro conjI allI assms)

lemma reference_okD:
  assumes "reference_ok h s"
  shows "rs_resolved s p = Some k \<longleftrightarrow> keys_at h p = {k}"
    and "rs_ambiguous s p \<longleftrightarrow> (\<exists>k\<in>keys_at h p. \<exists>k'\<in>keys_at h p. k \<noteq> k')"
    and "(k, p) \<in> rs_marked s \<longleftrightarrow> rs_ambiguous s p \<and> k \<in> keys_at h p"
    and "distinct (map place_of (rs_references s k)) \<and>
      place_of ` set (rs_references s k) = {p. k \<in> keys_at h p} \<and>
      (\<forall>r\<in>set (rs_references s k). (k, r) \<in> set h)"
proof -
  note ok = assms [unfolded reference_ok_def]
  show "rs_resolved s p = Some k \<longleftrightarrow> keys_at h p = {k}" by (rule ok [THEN conjunct1, THEN spec, THEN spec])
  show "rs_ambiguous s p \<longleftrightarrow> (\<exists>k\<in>keys_at h p. \<exists>k'\<in>keys_at h p. k \<noteq> k')"
    by (rule ok [THEN conjunct2, THEN conjunct1, THEN spec])
  show "(k, p) \<in> rs_marked s \<longleftrightarrow> rs_ambiguous s p \<and> k \<in> keys_at h p"
    by (rule ok [THEN conjunct2, THEN conjunct2, THEN conjunct1, THEN spec, THEN spec])
  show "distinct (map place_of (rs_references s k)) \<and>
      place_of ` set (rs_references s k) = {p. k \<in> keys_at h p} \<and>
      (\<forall>r\<in>set (rs_references s k). (k, r) \<in> set h)"
    by (rule ok [THEN conjunct2, THEN conjunct2, THEN conjunct2, THEN spec])
qed

lemma reference_ok_Nil: "reference_ok [] no_references"
  by (rule reference_okI) (simp_all add: no_references_def)

lemma addReference_cases:
  assumes "pl = place_of r"
  obtains (known) "rs_resolved s pl = Some key" "addReference key r s = s"
  | (repeated) "rs_resolved s pl \<noteq> Some key" "rs_ambiguous s pl" "(key, pl) \<in> rs_marked s" "addReference key r s = s"
  | (further) "rs_resolved s pl \<noteq> Some key" "rs_ambiguous s pl" "(key, pl) \<notin> rs_marked s"
      "addReference key r s = s\<lparr>rs_marked := insert (key, pl) (rs_marked s),
        rs_references := (rs_references s)(key := rs_references s key @ [r])\<rparr>"
  | (clash) other where "rs_resolved s pl = Some other" "other \<noteq> key" "\<not> rs_ambiguous s pl"
      "addReference key r s = s\<lparr>rs_resolved := (rs_resolved s)(pl := None),
        rs_ambiguous := (rs_ambiguous s)(pl := True),
        rs_marked := insert (key, pl) (insert (other, pl) (rs_marked s)),
        rs_references := (rs_references s)(key := rs_references s key @ [r])\<rparr>"
  | (fresh) "rs_resolved s pl = None" "\<not> rs_ambiguous s pl"
      "addReference key r s = s\<lparr>rs_references := (rs_references s)(key := rs_references s key @ [r]),
        rs_resolved := (rs_resolved s)(pl \<mapsto> key)\<rparr>"
proof -
  note step = addReference_def [of key r s, folded assms, unfolded Let_def]
  show thesis
  proof (cases "rs_resolved s pl = Some key")
    case True
    then show thesis using known step by simp
  next
    case new: False
    show thesis
    proof (cases "rs_ambiguous s pl")
      case True
      show thesis
      proof (cases "(key, pl) \<in> rs_marked s")
        case True
        then show thesis using repeated new \<open>rs_ambiguous s pl\<close> step by simp
      next
        case False
        then show thesis using further new \<open>rs_ambiguous s pl\<close> step by simp
      qed
    next
      case False
      show thesis
      proof (cases "rs_resolved s pl")
        case None
        then show thesis using fresh False step by simp
      next
        case (Some other)
        with new have "other \<noteq> key" by simp
        with Some show thesis using clash False step by simp
      qed
    qed
  qed
qed

lemma reference_ok_same:
  assumes "reference_ok h s" "key \<in> keys_at h (place_of r)"
  shows "reference_ok (h @ [(key, r)]) s"
proof -
  have "keys_at (h @ [(key, r)]) pl = keys_at h pl" for pl using assms(2) by (auto simp: keys_at_snoc)
  with assms(1) show ?thesis unfolding reference_ok_def by auto
qed

lemma reference_list_step:
  assumes "distinct (map place_of (refs key)) \<and> place_of ` set (refs key) = {pl. key \<in> keys_at h pl} \<and>
      (\<forall>r\<in>set (refs key). (key, r) \<in> set h)"
    and "key = new \<Longrightarrow> new \<notin> keys_at h (place_of r)"
    and refs': "refs' = (refs :: decl_key \<Rightarrow> decl_reference list)(new := refs new @ [r])"
  shows "distinct (map place_of (refs' key)) \<and> place_of ` set (refs' key) = {pl. key \<in> keys_at (h @ [(new, r)]) pl} \<and>
      (\<forall>r'\<in>set (refs' key). (key, r') \<in> set (h @ [(new, r)]))"
proof (cases "key = new")
  case True
  with assms have "place_of r \<notin> place_of ` set (refs key)" by auto
  with True assms show ?thesis by (auto simp: keys_at_snoc)
next
  case False
  with assms show ?thesis by (auto simp: keys_at_snoc)
qed

lemma addReference_ok:
  assumes ok: "reference_ok h s"
  shows "reference_ok (h @ [(key, r)]) (addReference key r s)"
proof -
  define pl where "pl = place_of r"
  let ?h = "h @ [(key, r)]"
  note res = reference_okD(1) [OF ok] and amb = reference_okD(2) [OF ok] and mark = reference_okD(3) [OF ok]
    and refs = reference_okD(4) [OF ok]
  have keys: "keys_at ?h p = (if p = pl then insert key (keys_at h p) else keys_at h p)" for p
    by (auto simp: keys_at_snoc pl_def)
  note list = reference_list_step [where h = h and refs = "rs_references s" and new = key and r = r, OF refs _ refl,
      folded pl_def]
  from pl_def show ?thesis
  proof (cases rule: addReference_cases [where s = s and key = key])
    case known
    then show ?thesis using reference_ok_same [OF ok] res pl_def by simp
  next
    case repeated
    then show ?thesis using reference_ok_same [OF ok] mark pl_def by simp
  next
    case further
    then have out: "key \<notin> keys_at h pl" using mark by blast
    obtain k1 k2 where two: "k1 \<in> keys_at h pl" "k2 \<in> keys_at h pl" "k1 \<noteq> k2" using amb further(2) by blast
    have many: "keys_at h pl \<noteq> {k}" "insert key (keys_at h pl) \<noteq> {k}" for k
      using two by (metis singletonD) (metis two insertI2 singletonD)
    show ?thesis unfolding further(4)
    proof (rule reference_okI, goal_cases)
      case (1 p k)
      then show ?case using res many by (simp add: keys)
    next
      case (2 p)
      have "\<exists>k\<in>keys_at ?h pl. \<exists>k'\<in>keys_at ?h pl. k \<noteq> k'"
        by (rule bexI [of _ k1], rule bexI [of _ k2]) (use two in \<open>simp_all add: keys\<close>)
      then show ?case using amb further(2) by (cases "p = pl") (simp_all add: keys)
    next
      case (3 p k)
      then show ?case using mark further(2) by (simp add: keys)
    next
      case (4 k)
      then show ?case using list [of k] out by simp
    qed
  next
    case (clash other)
    then have one: "keys_at h pl = {other}" using res by blast
    show ?thesis unfolding clash(4)
    proof (rule reference_okI, goal_cases)
      case (1 p k)
      then show ?case using res clash(2) one by (auto simp: keys)
    next
      case (2 p)
      have "\<exists>k\<in>keys_at ?h pl. \<exists>k'\<in>keys_at ?h pl. k \<noteq> k'"
        by (rule bexI [of _ key], rule bexI [of _ other]) (use clash(2) one in \<open>simp_all add: keys\<close>)
      then show ?case using amb by (cases "p = pl") (simp_all add: keys)
    next
      case (3 p k)
      then show ?case using mark one by (auto simp: keys)
    next
      case (4 k)
      then show ?case using list [of k] one clash(2) by simp
    qed
  next
    case fresh
    have none: "keys_at h pl = {}"
    proof (rule ccontr)
      assume "keys_at h pl \<noteq> {}"
      then obtain k where "k \<in> keys_at h pl" by blast
      with amb fresh(2) have "keys_at h pl = {k}" by blast
      with res fresh(1) show False by (metis option.distinct(1))
    qed
    show ?thesis unfolding fresh(3)
    proof (rule reference_okI, goal_cases)
      case (1 p k)
      then show ?case using res none by (simp add: keys)
    next
      case (2 p)
      then show ?case using amb none fresh(2) by (simp add: keys)
    next
      case (3 p k)
      then show ?case using mark fresh(2) by (simp add: keys)
    next
      case (4 k)
      then show ?case using list [of k] none by simp
    qed
  qed
qed

section \<open>All references of a project\<close>

text \<open>Every pair that is added: what the files resolve themselves, then what the units add.\<close>

definition symbol_history :: "full_file list \<Rightarrow> nat \<Rightarrow> nat \<Rightarrow> history" where
  "symbol_history files i k =
    (let sy = sm_symbols (ff_semantic (files ! i)) ! k in
     if declared sy then map (Pair (declarationKey \<lparr>de_file = i, de_symbol = sy\<rparr>)) (own_references files i k) else [])"

definition file_history :: "full_file list \<Rightarrow> nat \<Rightarrow> history" where
  "file_history files i = concat (map (symbol_history files i) [0..<length (sm_symbols (ff_semantic (files ! i)))])"

definition unresolved_history ::
  "full_file list \<Rightarrow> comp_unit list \<Rightarrow> comp_unit \<Rightarrow> nat \<Rightarrow> node \<times> reference_kind \<times> reference_target \<Rightarrow> history" where
  "unresolved_history files units u i = (\<lambda>(n, kind, target).
    map (\<lambda>d. (declarationKey d, \<lparr>rf_file = i, rf_node = n, rf_kind = kind\<rparr>))
      (unresolved_targets files units u i (text_of (ff_semantic (files ! i)) n) target))"

definition unit_history :: "full_file list \<Rightarrow> comp_unit list \<Rightarrow> comp_unit \<Rightarrow> history" where
  "unit_history files units u =
    concat (map (\<lambda>i. concat (map (unresolved_history files units u i) (sm_unresolved (ff_semantic (files ! i)))))
      (un_files u))"

definition reference_history :: "full_file list \<Rightarrow> comp_unit list \<Rightarrow> history" where
  "reference_history files units =
    concat (map (file_history files) [0..<length files]) @ concat (map (unit_history files units) units)"

lemma fold_reference_ok:
  assumes "\<And>x h s. x \<in> set xs \<Longrightarrow> reference_ok h s \<Longrightarrow> reference_ok (h @ added x) (step x s)"
  shows "reference_ok h s \<Longrightarrow> reference_ok (h @ concat (map added xs)) (fold step xs s)"
  using assms
proof (induction xs arbitrary: h s)
  case (Cons x xs)
  have "reference_ok ((h @ added x) @ concat (map added xs)) (fold step xs (step x s))"
    by (rule Cons.IH) (simp_all add: Cons.prems)
  then show ?case by simp
qed simp

lemma unresolved_ok:
  "reference_ok h s \<Longrightarrow> reference_ok (h @ unresolved_history files units u i x) (addUnresolvedReference files units u i x s)"
proof (cases x)
  case (fields n kind target)
  assume "reference_ok h s"
  let ?r = "\<lparr>rf_file = i, rf_node = n, rf_kind = kind\<rparr>"
  have "reference_ok (h @ concat (map (\<lambda>d. [(declarationKey d, ?r)]) ds))
      (fold (\<lambda>d. addReference (declarationKey d) ?r) ds s)" for ds
    by (rule fold_reference_ok) (simp_all add: addReference_ok \<open>reference_ok h s\<close>)
  then show ?thesis by (simp add: fields addUnresolvedReference_def unresolved_history_def)
qed

lemma add_unit_ok: "reference_ok h s \<Longrightarrow> reference_ok (h @ unit_history files units u) (add_unit files units u s)"
  unfolding unit_history_def add_unit_def
  by (rule fold_reference_ok, rule fold_reference_ok, rule unresolved_ok)

lemma add_symbol_ok:
  assumes ok: "reference_ok h s"
    and new: "declared (sm_symbols (ff_semantic (files ! i)) ! k) \<Longrightarrow>
      declarationKey \<lparr>de_file = i, de_symbol = sm_symbols (ff_semantic (files ! i)) ! k\<rparr> \<notin> fst ` set h"
  shows "reference_ok (h @ symbol_history files i k) (add_symbol files i k s)"
proof (cases "declared (sm_symbols (ff_semantic (files ! i)) ! k)")
  case True
  define key where "key = declarationKey \<lparr>de_file = i, de_symbol = sm_symbols (ff_semantic (files ! i)) ! k\<rparr>"
  have "key \<notin> keys_at h p" for p using new True by (force simp: keys_at_def key_def)
  with reference_okD(4) [OF ok, of key] have none: "rs_references s key = []" by simp
  have "s\<lparr>rs_references := (rs_references s)(key := [])\<rparr> = s" using none by (simp add: fun_upd_idem)
  moreover have "reference_ok (h @ concat (map (\<lambda>r. [(key, r)]) refs)) (fold (addReference key) refs s)" for refs
    by (rule fold_reference_ok) (simp_all add: addReference_ok ok)
  ultimately show ?thesis using True ok by (simp add: add_symbol_def symbol_history_def key_def Let_def)
qed (simp add: add_symbol_def symbol_history_def ok)

lemma symbol_history_keys:
  "fst ` set (symbol_history files i k) \<subseteq>
    (if declared (sm_symbols (ff_semantic (files ! i)) ! k)
     then {declarationKey \<lparr>de_file = i, de_symbol = sm_symbols (ff_semantic (files ! i)) ! k\<rparr>} else {})"
  by (auto simp: symbol_history_def Let_def)

definition keys_distinct :: "full_file list \<Rightarrow> bool" where
  "keys_distinct files = list_all (\<lambda>i. distinct (map declarationKey (file_declarations files i))) [0..<length files]"

lemma distinct_filter_nth:
  "distinct (map f (filter P xs)) \<Longrightarrow> k < l \<Longrightarrow> l < length xs \<Longrightarrow> P (xs ! k) \<Longrightarrow> P (xs ! l) \<Longrightarrow> f (xs ! k) \<noteq> f (xs ! l)"
proof (induction xs arbitrary: k l)
  case (Cons x xs)
  show ?case
  proof (cases k)
    case 0
    obtain l' where l: "l = Suc l'" using Cons.prems(2) by (cases l) auto
    have "f (xs ! l') \<in> f ` set (filter P xs)" using Cons.prems l by auto
    with Cons.prems 0 l show ?thesis by auto
  next
    case (Suc k')
    with Cons.prems obtain l' where "l = Suc l'" by (cases l) auto
    with Suc Cons show ?thesis by (auto split: if_splits)
  qed
qed simp

lemma add_symbols_ok:
  assumes ok: "reference_ok h s" and before: "\<And>key. key \<in> fst ` set h \<Longrightarrow> fst key < i"
    and keys: "distinct (map declarationKey (file_declarations files i))"
  shows "m \<le> length (sm_symbols (ff_semantic (files ! i))) \<Longrightarrow>
    reference_ok (h @ concat (map (symbol_history files i) [0..<m])) (fold (add_symbol files i) [0..<m] s)"
proof (induction m)
  case (Suc m)
  let ?sy = "sm_symbols (ff_semantic (files ! i))"
  let ?key = "\<lambda>k. declarationKey \<lparr>de_file = i, de_symbol = ?sy ! k\<rparr>"
  let ?h = "h @ concat (map (symbol_history files i) [0..<m])"
  have keys': "distinct (map (\<lambda>s. declarationKey \<lparr>de_file = i, de_symbol = s\<rparr>) (filter declared ?sy))"
    using keys by (simp add: file_declarations_def comp_def)
  have new: "?key m \<notin> fst ` set ?h" if "declared (?sy ! m)"
  proof
    assume "?key m \<in> fst ` set ?h"
    then consider "?key m \<in> fst ` set h" | k where "k < m" "?key m \<in> fst ` set (symbol_history files i k)"
      by (force simp: image_iff)
    then show False
    proof cases
      case 1
      with before show False by (fastforce simp: declarationKey_def)
    next
      case 2
      with symbol_history_keys [of files i k] have "declared (?sy ! k)" "?key m = ?key k"
        by (auto split: if_splits)
      with distinct_filter_nth [OF keys' \<open>k < m\<close>] Suc.prems that show False by simp
    qed
  qed
  have "reference_ok (?h @ symbol_history files i m) (add_symbol files i m (fold (add_symbol files i) [0..<m] s))"
    by (rule add_symbol_ok) (use Suc new in auto)
  then show ?case by simp
qed (simp add: ok)

lemma file_history_files: "key \<in> fst ` set (file_history files i) \<Longrightarrow> fst key = i"
  by (auto simp: file_history_def symbol_history_def declarationKey_def Let_def split: if_splits)

lemma add_files_ok:
  assumes "keys_distinct files"
  shows "m \<le> length files \<Longrightarrow>
    reference_ok (concat (map (file_history files) [0..<m])) (fold (add_file files) [0..<m] no_references)"
proof (induction m)
  case 0
  show ?case using reference_ok_Nil by simp
next
  case (Suc m)
  let ?h = "concat (map (file_history files) [0..<m])"
  have "fst key < m" if "key \<in> fst ` set ?h" for key
    using that file_history_files by (fastforce simp: image_iff)
  moreover have "distinct (map declarationKey (file_declarations files m))"
    using assms Suc.prems by (auto simp: keys_distinct_def list_all_iff)
  ultimately have "reference_ok (?h @ file_history files m) (add_file files m (fold (add_file files) [0..<m] no_references))"
    unfolding file_history_def [of files m] add_file_def [of files m]
    by (intro add_symbols_ok) (use Suc in auto)
  then show ?case by simp
qed

lemma collect_references_ok:
  assumes "keys_distinct files"
  shows "reference_ok (reference_history files units) (collect_references files units)"
  unfolding reference_history_def collect_references_def
  by (rule fold_reference_ok, rule add_unit_ok, assumption, rule add_files_ok [OF assms]) simp

section \<open>Resolution\<close>

lemma unit_candidates_subset:
  "unit_candidates u origin target ds found = Some out \<Longrightarrow> set out \<subseteq> set found \<union> set ds"
proof (induction u origin target ds found rule: unit_candidates.induct)
  case (2 u origin target d ds found)
  show ?case
  proof (cases "de_file d \<notin> unit_members u \<or> declarationSymbolAmbiguous d")
    case True
    with 2 show ?thesis by auto
  next
    case False
    with 2 show ?thesis by (cases target) (auto split: if_splits)
  qed
qed simp

lemma first_by_key_subset: "set (first_by_key ds seen) \<subseteq> set ds"
  by (induction ds seen rule: first_by_key.induct) auto

lemma unresolved_targets_subset: "set (unresolved_targets files units u i name target) \<subseteq> set (buildDeclarations files)"
proof -
  have vis: "set (visible_functions files units i name) \<subseteq> set (buildDeclarations files)"
    unfolding visible_functions_def declarations_named_def Let_def
    by (auto split: list.splits dest!: subsetD [OF first_by_key_subset])
  have "d \<in> set (buildDeclarations files)" if "resolveInUnit files u i name target = Some d" for d
  proof -
    have "unit_candidates u i target (declarations_named files name) [] = Some [d]"
      using that by (auto simp: resolveInUnit_def split: option.splits list.splits)
    from unit_candidates_subset [OF this] show ?thesis by (auto simp: declarations_named_def)
  qed
  with vis show ?thesis
    by (auto simp: unresolved_targets_def functionVariantsNamed_def sortDeclarations_def Let_def
        split: if_splits option.splits)
qed

lemma set_buildDeclarations:
  "set (buildDeclarations files) = (\<Union>i<length files. set (file_declarations files i))"
  by (auto simp: buildDeclarations_def sortDeclarations_def)

lemma file_declarations_file: "d \<in> set (file_declarations files i) \<Longrightarrow> de_file d = i"
  by (auto simp: file_declarations_def)

lemma declarationKey_unique:
  assumes "keys_distinct files" "d \<in> set (buildDeclarations files)" "d' \<in> set (buildDeclarations files)"
    "declarationKey d = declarationKey d'"
  shows "d = d'"
proof -
  have "de_file d = de_file d'" using assms(4) by (simp add: declarationKey_def)
  then obtain i where "i < length files" "d \<in> set (file_declarations files i)" "d' \<in> set (file_declarations files i)"
    using assms(2,3) file_declarations_file by (fastforce simp: set_buildDeclarations)
  with assms(1,4) show ?thesis by (auto simp: keys_distinct_def list_all_iff distinct_map dest: inj_onD)
qed

lemma declaration_by_key_iff:
  assumes "keys_distinct files"
  shows "declaration_by_key files key = Some d \<longleftrightarrow> d \<in> set (buildDeclarations files) \<and> declarationKey d = key"
proof
  assume "declaration_by_key files key = Some d"
  then show "d \<in> set (buildDeclarations files) \<and> declarationKey d = key"
    by (auto simp: declaration_by_key_def find_Some_iff)
next
  assume d: "d \<in> set (buildDeclarations files) \<and> declarationKey d = key"
  then obtain d' where d': "declaration_by_key files key = Some d'"
    by (cases "declaration_by_key files key") (auto simp: declaration_by_key_def find_None_iff)
  then have "d' \<in> set (buildDeclarations files)" "declarationKey d' = key"
    by (auto simp: declaration_by_key_def find_Some_iff)
  with d d' declarationKey_unique [OF assms] show "declaration_by_key files key = Some d" by metis
qed

lemma symbol_history_declared:
  assumes "i < length files" "k < length (sm_symbols (ff_semantic (files ! i)))" "key \<in> fst ` set (symbol_history files i k)"
  shows "key \<in> declarationKey ` set (buildDeclarations files)"
proof -
  from subsetD [OF symbol_history_keys assms(3)] have d: "declared (sm_symbols (ff_semantic (files ! i)) ! k)"
    "key = declarationKey \<lparr>de_file = i, de_symbol = sm_symbols (ff_semantic (files ! i)) ! k\<rparr>"
    by (auto split: if_splits)
  then have "\<lparr>de_file = i, de_symbol = sm_symbols (ff_semantic (files ! i)) ! k\<rparr> \<in> set (file_declarations files i)"
    using assms(2) by (simp add: file_declarations_def)
  with d assms(1) show ?thesis unfolding set_buildDeclarations by blast
qed

lemma unresolved_history_declared:
  "key \<in> fst ` set (unresolved_history files units u i x) \<Longrightarrow> key \<in> declarationKey ` set (buildDeclarations files)"
  using unresolved_targets_subset by (fastforce simp: unresolved_history_def split: prod.splits)

lemma reference_history_declared:
  assumes "key \<in> fst ` set (reference_history files units)"
  shows "key \<in> declarationKey ` set (buildDeclarations files)"
proof -
  from assms consider i k where "i < length files" "k < length (sm_symbols (ff_semantic (files ! i)))"
      "key \<in> fst ` set (symbol_history files i k)"
    | u i x where "key \<in> fst ` set (unresolved_history files units u i x)"
    by (auto simp: reference_history_def file_history_def unit_history_def image_iff Bex_def) metis+
  then show ?thesis by cases (fact symbol_history_declared unresolved_history_declared)+
qed


text \<open>A program that uses the variable \<open>x\<close> of a file it includes.\<close>

definition example_file :: "string \<Rightarrow> bool \<Rightarrow> include_ref list \<Rightarrow> semantic \<Rightarrow> full_file" where
  "example_file path provided includes m =
    \<lparr>pf_path = path, pf_canonical = path, pf_provided = provided, pf_includes = includes, ff_order = 0,
     ff_source = [], ff_semantic = m, ff_runtime = []\<rparr>"

definition example_project :: "full_file list" where
  "example_project =
    [example_file ''main.pwn'' True
       [\<lparr>in_path = ''x.inc'', in_resolved = Some 1, in_candidates = [], in_optional = False, in_uncertain = False,
         in_valid = True, in_start = 0\<rparr>]
       (example_semantic\<lparr>sm_symbols := [], sm_unresolved := [(example_use, ReferenceRead, ReferenceValue)]\<rparr>),
     example_file ''x.inc'' False [] example_semantic]"

definition example_units :: "comp_unit list" where
  "example_units = buildUnits (map project_file.truncate example_project)"


end
