(* ===== verification/Recursive_Components.thy ===== *)
theory Recursive_Components
  imports Prelude
begin

text \<open>
  The strongly connected components of a call graph (\<open>findRecursiveComponents\<close> and \<open>selfCalls\<close> of
  \<open>pkg/project/callgraph.go\<close>). The graph is the list of its calls, a call a pair of caller and callee; a
  function stands for its key. The recursion of \<open>connect\<close> is kept as frames: each function being visited with
  the callees it has left, the innermost first.
\<close>

section \<open>The search\<close>

definition callees :: "('a \<times> 'a) list \<Rightarrow> 'a \<Rightarrow> 'a list" where
  "callees calls v = map snd (filter (\<lambda>c. fst c = v) calls)"

definition selfCalls :: "('a \<times> 'a) list \<Rightarrow> 'a \<Rightarrow> bool" where
  "selfCalls calls v = list_ex (\<lambda>w. w = v) (callees calls v)"

text \<open>The stack is kept with its top first. An index of 0 says that a function has not been visited.\<close>

record 'a component_search =
  co_index :: nat
  co_indices :: "'a \<Rightarrow> nat"
  co_lowlink :: "'a \<Rightarrow> nat"
  co_onStack :: "'a \<Rightarrow> bool"
  co_stack :: "'a list"
  co_components :: "'a list list"

definition no_search :: "'a component_search" where
  "no_search = \<lparr>co_index = 0, co_indices = \<lambda>_. 0, co_lowlink = \<lambda>_. 0, co_onStack = \<lambda>_. False, co_stack = [],
    co_components = []\<rparr>"

definition enter_function :: "'a \<Rightarrow> 'a component_search \<Rightarrow> 'a component_search" where
  "enter_function v s =
    (let i = Suc (co_index s) in
     s\<lparr>co_index := i, co_indices := (co_indices s)(v := i), co_lowlink := (co_lowlink s)(v := i),
       co_stack := v # co_stack s, co_onStack := (co_onStack s)(v := True)\<rparr>)"

definition lower :: "'a \<Rightarrow> nat \<Rightarrow> 'a component_search \<Rightarrow> 'a component_search" where
  "lower v l s = (if l < co_lowlink s v then s\<lparr>co_lowlink := (co_lowlink s)(v := l)\<rparr> else s)"

fun pop_component :: "'a \<Rightarrow> 'a list \<Rightarrow> ('a \<Rightarrow> bool) \<Rightarrow> 'a list \<times> 'a list \<times> ('a \<Rightarrow> bool)" where
  "pop_component v [] onStack = ([], [], onStack)"
| "pop_component v (u # stack) onStack =
    (if u = v then ([u], stack, onStack(u := False))
     else (let (component, stack, onStack) = pop_component v stack (onStack(u := False))
           in (u # component, stack, onStack)))"

definition finish_function :: "('a \<times> 'a) list \<Rightarrow> 'a \<Rightarrow> 'a component_search \<Rightarrow> 'a component_search" where
  "finish_function calls v s =
    (if co_lowlink s v \<noteq> co_indices s v then s
     else (let (component, stack, onStack) = pop_component v (co_stack s) (co_onStack s);
               s = s\<lparr>co_stack := stack, co_onStack := onStack\<rparr>
           in if length component = 1 \<and> \<not> selfCalls calls (hd component) then s
              else s\<lparr>co_components := co_components s @ [component]\<rparr>))"

type_synonym 'a frames = "('a \<times> 'a list) list"

definition to_visit :: "('a \<times> 'a) list \<Rightarrow> 'a frames \<Rightarrow> 'a set" where
  "to_visit calls frames = snd ` set calls \<union> (\<Union>f\<in>set frames. set (snd f))"

lemma finite_to_visit [simp]: "finite (to_visit calls frames)"
  by (simp add: to_visit_def)

definition new_in :: "'a set \<Rightarrow> 'a component_search \<Rightarrow> nat" where
  "new_in V s = card {v \<in> V. co_indices s v = 0}"

definition frames_left :: "'a frames \<Rightarrow> nat" where
  "frames_left frames = sum_list (map (\<lambda>f. Suc (length (snd f))) frames)"

lemma co_indices_simps [simp]:
  "co_indices (lower v l s) = co_indices s"
  "co_indices (finish_function calls v s) = co_indices s"
  "co_indices (enter_function v s) = (co_indices s)(v := Suc (co_index s))"
  by (simp_all add: lower_def finish_function_def enter_function_def Let_def split: prod.splits)

lemma to_visit_enter: "to_visit calls ((w, callees calls w) # (v, ws) # frames) \<subseteq> to_visit calls ((v, w # ws) # frames)"
  by (auto simp: to_visit_def callees_def)

lemma to_visit_pop: "to_visit calls frames \<subseteq> to_visit calls ((v, ws) # frames)"
  "to_visit calls ((v, ws) # frames) \<subseteq> to_visit calls ((v, w # ws) # frames)"
  by (auto simp: to_visit_def)

lemma new_in_mono: "V \<subseteq> W \<Longrightarrow> finite W \<Longrightarrow> new_in V s \<le> new_in W s"
  unfolding new_in_def by (rule card_mono) auto

lemma new_in_enter:
  assumes "co_indices s w = 0"
  shows "new_in (to_visit calls ((w, callees calls w) # (v, ws) # frames)) (enter_function w s) <
    new_in (to_visit calls ((v, w # ws) # frames)) s"
proof -
  have "{u \<in> to_visit calls ((w, callees calls w) # (v, ws) # frames). co_indices (enter_function w s) u = 0} \<subset>
      {u \<in> to_visit calls ((v, w # ws) # frames). co_indices s u = 0}"
  proof
    show "{u \<in> to_visit calls ((w, callees calls w) # (v, ws) # frames). co_indices (enter_function w s) u = 0} \<subseteq>
      {u \<in> to_visit calls ((v, w # ws) # frames). co_indices s u = 0}"
      using to_visit_enter [of calls w v ws frames] by (auto split: if_splits)
    have "w \<in> {u \<in> to_visit calls ((v, w # ws) # frames). co_indices s u = 0}"
      using assms by (simp add: to_visit_def)
    moreover have "w \<notin> {u \<in> to_visit calls ((w, callees calls w) # (v, ws) # frames). co_indices (enter_function w s) u = 0}"
      by simp
    ultimately show "{u \<in> to_visit calls ((w, callees calls w) # (v, ws) # frames). co_indices (enter_function w s) u = 0} \<noteq>
      {u \<in> to_visit calls ((v, w # ws) # frames). co_indices s u = 0}" by blast
  qed
  then show ?thesis unfolding new_in_def by (intro psubset_card_mono) simp_all
qed

lemma new_in_same: "co_indices s' = co_indices s \<Longrightarrow> new_in V s' = new_in V s"
  by (simp add: new_in_def)

function connect_loop :: "('a \<times> 'a) list \<Rightarrow> 'a frames \<Rightarrow> 'a component_search \<Rightarrow> 'a component_search" where
  "connect_loop calls [] s = s"
| "connect_loop calls ((v, []) # frames) s =
    (let s = finish_function calls v s
     in connect_loop calls frames (case frames of [] \<Rightarrow> s | (u, us) # rest \<Rightarrow> lower u (co_lowlink s v) s))"
| "connect_loop calls ((v, w # ws) # frames) s =
    (if co_indices s w = 0 then connect_loop calls ((w, callees calls w) # (v, ws) # frames) (enter_function w s)
     else connect_loop calls ((v, ws) # frames) (if co_onStack s w then lower v (co_indices s w) s else s))"
  by pat_completeness auto

termination
proof (relation "measures [\<lambda>(calls, frames, s). new_in (to_visit calls frames) s, \<lambda>(calls, frames, s). frames_left frames]",
    goal_cases)
  case (2 calls v frames s x)
  have "co_indices (case frames of [] \<Rightarrow> x | (u, us) # rest \<Rightarrow> lower u (co_lowlink x v) x) = co_indices s"
    using 2 by (simp split: list.splits)
  from new_in_same [OF this] new_in_mono [OF to_visit_pop(1) finite_to_visit]
  have "new_in (to_visit calls frames) (case frames of [] \<Rightarrow> x | (u, us) # rest \<Rightarrow> lower u (co_lowlink x v) x) \<le>
      new_in (to_visit calls ((v, []) # frames)) s" by metis
  then show ?case by (auto simp: frames_left_def)
next
  case 3
  then show ?case by (auto intro: new_in_enter)
next
  case (4 calls v w ws frames s)
  have "new_in (to_visit calls ((v, ws) # frames)) (if co_onStack s w then lower v (co_indices s w) s else s) =
      new_in (to_visit calls ((v, ws) # frames)) s" by (rule new_in_same) simp
  also have "\<dots> \<le> new_in (to_visit calls ((v, w # ws) # frames)) s"
    by (rule new_in_mono [OF to_visit_pop(2) finite_to_visit])
  finally show ?case by (auto simp: frames_left_def)
qed simp

declare connect_loop.simps [simp del]

definition connect_function :: "('a \<times> 'a) list \<Rightarrow> 'a \<Rightarrow> 'a component_search \<Rightarrow> 'a component_search" where
  "connect_function calls v s = connect_loop calls [(v, callees calls v)] (enter_function v s)"

definition find_components :: "('a \<times> 'a) list \<Rightarrow> 'a list \<Rightarrow> 'a list list" where
  "find_components calls fns =
    co_components (fold (\<lambda>v s. if co_indices s v = 0 then connect_function calls v s else s) fns no_search)"

section \<open>The invariant\<close>

text \<open>
  Between two steps: the stack holds its fns in the order of their index; the visited fns that are
  not on it are closed under calls; every function being visited reaches what is above it on the stack; the
  low link of a function on the stack is the index of one it reaches there; and the low link of a function
  being visited is at most that of all below it in the search, and at most the index of all these have called.
\<close>

definition visiting :: "'a frames \<Rightarrow> 'a set" where
  "visiting fr = fst ` set fr"

definition pending :: "'a frames \<Rightarrow> 'a \<Rightarrow> 'a set" where
  "pending fr v = (\<Union>f\<in>{f \<in> set fr. fst f = v}. set (snd f))"

definition stack_ok :: "('a \<Rightarrow> nat) \<Rightarrow> 'a list \<Rightarrow> 'a frames \<Rightarrow> bool" where
  "stack_ok ix st fr \<longleftrightarrow> sorted_wrt (\<lambda>a b. ix b < ix a) st \<and> (\<forall>v\<in>set st. ix v \<noteq> 0) \<and>
    sorted_wrt (\<lambda>a b. ix b < ix a) (map fst fr) \<and> visiting fr \<subseteq> set st \<and>
    (\<forall>v\<in>set st. \<exists>p\<in>visiting fr. ix p \<le> ix v)"

definition visit_ok :: "('a \<times> 'a) list \<Rightarrow> ('a \<Rightarrow> nat) \<Rightarrow> 'a list \<Rightarrow> 'a frames \<Rightarrow> bool" where
  "visit_ok calls ix st fr \<longleftrightarrow>
    (\<forall>v w. (v, w) \<in> set calls \<longrightarrow> ix v \<noteq> 0 \<longrightarrow> w \<notin> pending fr v \<longrightarrow> ix w \<noteq> 0) \<and>
    (\<forall>v w. (v, w) \<in> set calls \<longrightarrow> ix v \<noteq> 0 \<longrightarrow> v \<notin> set st \<longrightarrow> w \<notin> set st) \<and>
    (\<forall>f\<in>set fr. set (snd f) \<subseteq> set (callees calls (fst f)))"

definition under :: "('a \<Rightarrow> nat) \<Rightarrow> 'a list \<Rightarrow> 'a frames \<Rightarrow> 'a \<Rightarrow> 'a \<Rightarrow> bool" where
  "under ix st fr p v \<longleftrightarrow> v \<in> set st \<and> p \<in> visiting fr \<and> ix p \<le> ix v \<and>
    (\<forall>q\<in>visiting fr. ix q \<le> ix v \<longrightarrow> ix q \<le> ix p)"

definition reach_ok :: "('a \<times> 'a) list \<Rightarrow> ('a \<Rightarrow> nat) \<Rightarrow> 'a list \<Rightarrow> 'a frames \<Rightarrow> bool" where
  "reach_ok calls ix st fr \<longleftrightarrow> (\<forall>p\<in>visiting fr. \<forall>v\<in>set st. ix p \<le> ix v \<longrightarrow> (p, v) \<in> (set calls)\<^sup>*)"

definition low_sound :: "('a \<times> 'a) list \<Rightarrow> ('a \<Rightarrow> nat) \<Rightarrow> ('a \<Rightarrow> nat) \<Rightarrow> 'a list \<Rightarrow> 'a frames \<Rightarrow> bool" where
  "low_sound calls ix low st fr \<longleftrightarrow>
    (\<forall>v\<in>set st. low v \<le> ix v \<and> (\<exists>u\<in>set st. ix u = low v \<and> (v, u) \<in> (set calls)\<^sup>*)) \<and>
    (\<forall>v\<in>set st. v \<notin> visiting fr \<longrightarrow> low v < ix v)"

definition low_least :: "('a \<times> 'a) list \<Rightarrow> ('a \<Rightarrow> nat) \<Rightarrow> ('a \<Rightarrow> nat) \<Rightarrow> 'a list \<Rightarrow> 'a frames \<Rightarrow> bool" where
  "low_least calls ix low st fr \<longleftrightarrow>
    (\<forall>p v. under ix st fr p v \<longrightarrow> low p \<le> low v \<and>
      (\<forall>w\<in>set st. (v, w) \<in> set calls \<longrightarrow> w \<notin> pending fr v \<longrightarrow> low p \<le> ix w))"

definition search_ok :: "('a \<times> 'a) list \<Rightarrow> ('a \<Rightarrow> nat) \<Rightarrow> ('a \<Rightarrow> nat) \<Rightarrow> 'a list \<Rightarrow> 'a frames \<Rightarrow> bool" where
  "search_ok calls ix low st fr \<longleftrightarrow> stack_ok ix st fr \<and> visit_ok calls ix st fr \<and> reach_ok calls ix st fr \<and>
    low_sound calls ix low st fr \<and> low_least calls ix low st fr"

lemma set_callees [simp]: "w \<in> set (callees calls v) \<longleftrightarrow> (v, w) \<in> set calls"
  by (force simp: callees_def)

lemma visiting_simps [simp]: "visiting [] = {}" "visiting (f # fr) = insert (fst f) (visiting fr)"
  by (simp_all add: visiting_def)

lemma pending_Cons: "pending ((v, ws) # fr) u = (if u = v then set ws \<union> pending fr u else pending fr u)"
  by (auto simp: pending_def)

lemma pending_out: "v \<notin> visiting fr \<Longrightarrow> pending fr v = {}"
  by (force simp: pending_def visiting_def)

lemma pending_Nil [simp]: "pending [] v = {}"
  by (simp add: pending_def)

lemma stack_okD:
  assumes "stack_ok ix st ((v, ws) # fr)"
  shows "v \<in> set st" "ix v \<noteq> 0" "v \<notin> visiting fr" "\<And>u. u \<in> visiting fr \<Longrightarrow> ix u < ix v"
  using assms by (auto simp: stack_ok_def visiting_def)

lemma stack_ok_bottom: "stack_ok ix st fr \<Longrightarrow> v \<in> set st \<Longrightarrow> \<exists>p\<in>visiting fr. ix p \<le> ix v"
  by (simp add: stack_ok_def)

lemma visit_okD:
  assumes "visit_ok calls ix st fr" "(v, w) \<in> set calls" "ix v \<noteq> 0"
  shows "w \<notin> pending fr v \<Longrightarrow> ix w \<noteq> 0" "v \<notin> set st \<Longrightarrow> w \<notin> set st"
  using assms by (simp_all add: visit_ok_def)

lemma stack_ok_inj:
  assumes "stack_ok ix st fr" "v \<in> set st" "w \<in> set st" "ix v = ix w"
  shows "v = w"
proof -
  obtain i j where "i < length st" "j < length st" "v = st ! i" "w = st ! j" using assms(2,3) by (metis in_set_conv_nth)
  with assms(1,4) show ?thesis
    by (metis (no_types, lifting) stack_ok_def linorder_neqE_nat order_less_irrefl sorted_wrt_nth_less)
qed

section \<open>Steps\<close>

lemma sorted_index_upd:
  "w \<notin> set xs \<Longrightarrow> sorted_wrt (\<lambda>a b. (ix(w := i)) b < (ix(w := i)) a) xs \<longleftrightarrow> sorted_wrt (\<lambda>a b. ix b < (ix a :: nat)) xs"
  by (induction xs) auto

lemma enter_ok:
  assumes ok: "search_ok calls ix low st ((v, w # ws) # fr)" and new: "ix w = 0" and bound: "\<And>u. ix u \<le> n"
  shows "search_ok calls (ix(w := Suc n)) (low(w := Suc n)) (w # st) ((w, callees calls w) # (v, ws) # fr)"
proof -
  let ?fr = "(v, w # ws) # fr" and ?fr' = "(w, callees calls w) # (v, ws) # fr" and ?ix = "ix(w := Suc n)"
  have st: "stack_ok ix st ?fr" and vis: "visit_ok calls ix st ?fr" and re: "reach_ok calls ix st ?fr"
    and lo: "low_sound calls ix low st ?fr" and le: "low_least calls ix low st ?fr"
    using ok by (simp_all add: search_ok_def)
  note v = stack_okD [OF st]
  have out: "w \<notin> set st" using st new by (auto simp: stack_ok_def)
  have in_st: "visiting ?fr \<subseteq> set st" using st by (simp add: stack_ok_def)
  then have wfr: "w \<noteq> v" "w \<notin> visiting fr" using out by auto
  have edge: "(v, w) \<in> set calls" using vis by (auto simp: visit_ok_def)
  have pend: "pending ?fr' a = (if a = w then set (callees calls w) else pending ?fr a - (if a = v then {w} else {}) \<union> (if a = v then set ws else {}))" for a
    using wfr v(3) pending_out [of v fr] pending_out [of w fr] by (auto simp: pending_Cons)
  have "stack_ok ?ix (w # st) ?fr'"
  proof -
    have "w \<notin> set (map fst ((v, ws) # fr))" using wfr by (auto simp: visiting_def)
    from sorted_index_upd [OF this, of ix "Suc n"] sorted_index_upd [OF out, of ix "Suc n"] st
    have "sorted_wrt (\<lambda>a b. ?ix b < ?ix a) (map fst ((v, ws) # fr))" "sorted_wrt (\<lambda>a b. ?ix b < ?ix a) st"
      by (simp_all only: stack_ok_def list.map fst_conv)
    moreover have below: "?ix u < ?ix w" if "u \<in> set st" for u
      using bound [of u] that out by (auto simp: less_Suc_eq_le)
    moreover have "\<forall>u\<in>set (map fst ((v, ws) # fr)). ?ix u < ?ix w"
    proof
      fix u assume "u \<in> set (map fst ((v, ws) # fr))"
      then have "u \<in> visiting ?fr" by (simp add: visiting_def)
      with in_st show "?ix u < ?ix w" by (intro below) blast
    qed
    ultimately have "sorted_wrt (\<lambda>a b. ?ix b < ?ix a) (map fst ?fr')" "sorted_wrt (\<lambda>a b. ?ix b < ?ix a) (w # st)"
      by simp_all
    moreover have "\<exists>p\<in>visiting ?fr'. ?ix p \<le> ?ix u" if u: "u \<in> set (w # st)" for u
    proof (cases "u = w")
      case False
      with u have "u \<in> set st" by simp
      with st obtain p where "p \<in> visiting ?fr" "ix p \<le> ix u" unfolding stack_ok_def by blast
      with False in_st out show ?thesis by (intro bexI [of _ p]) auto
    qed simp
    moreover have "\<forall>u\<in>set (w # st). ?ix u \<noteq> 0" "visiting ?fr' \<subseteq> set (w # st)"
      using st in_st by (auto simp: stack_ok_def)
    ultimately show ?thesis unfolding stack_ok_def by blast
  qed
  moreover have "visit_ok calls ?ix (w # st) ?fr'"
  proof -
    have "?ix b \<noteq> 0" if "(a, b) \<in> set calls" "?ix a \<noteq> 0" "b \<notin> pending ?fr' a" for a b
    proof (cases "a = w \<or> b = w")
      case True
      with that show ?thesis by (auto simp: pend)
    next
      case False
      with that have "b \<notin> pending ?fr a" by (auto simp: pend pending_Cons split: if_splits)
      with that False vis show ?thesis by (auto simp: visit_ok_def)
    qed
    moreover have "b \<notin> set (w # st)" if e: "(a, b) \<in> set calls" "?ix a \<noteq> 0" "a \<notin> set (w # st)" for a b
    proof -
      have "a \<notin> visiting ?fr" "ix a \<noteq> 0" "a \<noteq> w" using that in_st by auto
      with e vis pending_out [of a ?fr] have "ix b \<noteq> 0" "b \<notin> set st" by (auto simp: visit_ok_def)
      with new show ?thesis by auto
    qed
    moreover have "\<forall>f\<in>set ?fr'. set (snd f) \<subseteq> set (callees calls (fst f))"
      using vis by (auto simp: visit_ok_def)
    ultimately show ?thesis unfolding visit_ok_def by blast
  qed
  moreover have "reach_ok calls ?ix (w # st) ?fr'"
  proof -
    have "(p, x) \<in> (set calls)\<^sup>*" if "p \<in> visiting ?fr'" "x \<in> set (w # st)" "?ix p \<le> ?ix x" for p x
    proof (cases "p = w")
      case True
      with that bound [of x] out show ?thesis by (auto split: if_splits)
    next
      case False
      with that have p: "p \<in> visiting ?fr" by auto
      show ?thesis
      proof (cases "x = w")
        case True
        have "ix p \<le> ix v" using p v(4) by (auto intro: less_imp_le)
        with re p v(1) have "(p, v) \<in> (set calls)\<^sup>*" unfolding reach_ok_def by blast
        with edge True show ?thesis by (simp add: rtrancl.rtrancl_into_rtrancl)
      next
        case False
        with \<open>p \<noteq> w\<close> that p re show ?thesis by (auto simp: reach_ok_def)
      qed
    qed
    then show ?thesis unfolding reach_ok_def by blast
  qed
  moreover have "low_sound calls ?ix (low(w := Suc n)) (w # st) ?fr'"
  proof -
    have "\<exists>u\<in>set (w # st). ?ix u = low x \<and> (x, u) \<in> (set calls)\<^sup>*" "low x \<le> ix x" if x: "x \<in> set st" for x
    proof -
      from lo x obtain u where "u \<in> set st" "ix u = low x" "(x, u) \<in> (set calls)\<^sup>*" by (auto simp: low_sound_def)
      with out show "\<exists>u\<in>set (w # st). ?ix u = low x \<and> (x, u) \<in> (set calls)\<^sup>*"
        by (intro bexI [of _ u]) auto
      show "low x \<le> ix x" using lo x by (simp add: low_sound_def)
    qed
    with lo out show ?thesis by (auto simp: low_sound_def)
  qed
  moreover have "low_least calls ?ix (low(w := Suc n)) (w # st) ?fr'"
  proof -
    have "(low(w := Suc n)) p \<le> (low(w := Suc n)) x \<and>
        (\<forall>b\<in>set (w # st). (x, b) \<in> set calls \<longrightarrow> b \<notin> pending ?fr' x \<longrightarrow> (low(w := Suc n)) p \<le> ?ix b)"
      if u: "under ?ix (w # st) ?fr' p x" for p x
    proof (cases "x = w")
      case True
      have "?ix w \<le> ?ix p" using u True by (auto simp: under_def)
      with bound [of p] have "p = w" by (auto split: if_splits)
      with True show ?thesis by (auto simp: pend)
    next
      case False
      with u bound [of x] have x: "x \<in> set st" "p \<noteq> w" by (auto simp: under_def)
      have max: "ix q \<le> ix p" if "q \<in> visiting ?fr" "ix q \<le> ix x" for q
      proof -
        have "q \<noteq> w" "q \<in> visiting ?fr'" using that wfr by auto
        with u False x(2) that(2) show ?thesis by (force simp: under_def)
      qed
      have "p \<in> visiting ?fr" "ix p \<le> ix x" using u False x(2) by (auto simp: under_def)
      with x max have un: "under ix st ?fr p x" unfolding under_def by blast
      with x in_st have "p \<in> set st" by (auto simp: under_def)
      with lo bound [of p] have "low p \<le> n" by (auto simp: low_sound_def intro: le_trans)
      moreover have "low p \<le> ix b" if "b \<in> set st" "(x, b) \<in> set calls" "b \<notin> pending ?fr' x" for b
      proof -
        have "b \<notin> pending ?fr x" using that False out by (auto simp: pend pending_Cons split: if_splits)
        with le un that show ?thesis by (auto simp: low_least_def)
      qed
      moreover have "low p \<le> low x" using le un by (auto simp: low_least_def)
      ultimately show ?thesis using False x(2) by auto
    qed
    then show ?thesis unfolding low_least_def by blast
  qed
  ultimately show ?thesis by (simp add: search_ok_def)
qed

lemma low_leastD:
  assumes "low_least calls ix low st fr" "under ix st fr p v"
  shows "low p \<le> low v" "\<And>w. w \<in> set st \<Longrightarrow> (v, w) \<in> set calls \<Longrightarrow> w \<notin> pending fr v \<Longrightarrow> low p \<le> ix w"
  using assms by (auto simp: low_least_def)

lemma under_self:
  assumes "stack_ok ix st fr" "under ix st fr p v" "v \<in> visiting fr"
  shows "p = v"
proof -
  have "p \<in> set st" "v \<in> set st" "ix p = ix v" using assms by (auto simp: under_def stack_ok_def intro: antisym)
  with stack_ok_inj [OF assms(1)] show ?thesis by blast
qed

text \<open>A call of a function that has been visited already.\<close>

lemma call_ok:
  assumes ok: "search_ok calls ix low st ((v, w # ws) # fr)" and old: "ix w \<noteq> 0"
    and low': "low' = (if w \<in> set st \<and> ix w < low v then low(v := ix w) else low)"
  shows "search_ok calls ix low' st ((v, ws) # fr)"
proof -
  let ?fr = "(v, w # ws) # fr" and ?fr' = "(v, ws) # fr"
  have st: "stack_ok ix st ?fr" and vis: "visit_ok calls ix st ?fr" and re: "reach_ok calls ix st ?fr"
    and lo: "low_sound calls ix low st ?fr" and le: "low_least calls ix low st ?fr"
    using ok by (simp_all add: search_ok_def)
  note v = stack_okD [OF st]
  have edge: "(v, w) \<in> set calls" using vis by (auto simp: visit_ok_def)
  have pend: "b \<notin> pending ?fr' a \<Longrightarrow> b \<notin> pending ?fr a \<or> a = v \<and> b = w" for a b
    by (auto simp: pending_Cons split: if_splits)
  have "stack_ok ix st ?fr'" using st by (simp add: stack_ok_def)
  moreover have "visit_ok calls ix st ?fr'"
    unfolding visit_ok_def
  proof (intro conjI allI impI)
    fix a b assume e: "(a, b) \<in> set calls" "ix a \<noteq> 0"
    show "ix b \<noteq> 0" if "b \<notin> pending ?fr' a"
      using pend [OF that] old visit_okD(1) [OF vis e] by blast
    show "b \<notin> set st" if "a \<notin> set st" using visit_okD(2) [OF vis e that] .
  next
    show "\<forall>f\<in>set ?fr'. set (snd f) \<subseteq> set (callees calls (fst f))" using vis by (simp add: visit_ok_def)
  qed
  moreover have "reach_ok calls ix st ?fr'" using re by (simp add: reach_ok_def)
  moreover have "low_sound calls ix low' st ?fr'"
  proof -
    have "\<exists>u\<in>set st. ix u = low' x \<and> (x, u) \<in> (set calls)\<^sup>*" "low' x \<le> ix x" if "x \<in> set st" for x
      using lo that edge v(1) by (auto simp: low_sound_def low' intro: order.trans)
    with lo show ?thesis by (auto simp: low_sound_def low')
  qed
  moreover have "low_least calls ix low' st ?fr'"
  proof -
    have less: "low' x \<le> low x" for x by (simp add: low')
    have "low' p \<le> low' x \<and> (\<forall>b\<in>set st. (x, b) \<in> set calls \<longrightarrow> b \<notin> pending ?fr' x \<longrightarrow> low' p \<le> ix b)"
      if "under ix st ?fr' p x" for p x
    proof -
      have un: "under ix st ?fr p x" using that by (simp add: under_def)
      have "low' p \<le> low' x"
      proof (cases "x = v")
        case True
        with under_self [OF st un] show ?thesis by simp
      next
        case False
        then have "low' x = low x" by (simp add: low')
        with low_leastD(1) [OF le un] less [of p] show ?thesis by simp
      qed
      moreover have "low' p \<le> ix b" if "b \<in> set st" "(x, b) \<in> set calls" "b \<notin> pending ?fr' x" for b
      proof (cases "x = v \<and> b = w")
        case True
        with under_self [OF st un] that(1) show ?thesis by (simp add: low')
      next
        case False
        with pend [OF that(3)] have "b \<notin> pending ?fr x" by blast
        with low_leastD(2) [OF le un that(1,2)] less [of p] show ?thesis by simp
      qed
      ultimately show ?thesis by blast
    qed
    then show ?thesis unfolding low_least_def by blast
  qed
  ultimately show ?thesis by (simp add: search_ok_def)
qed

text \<open>A function that is done, but belongs to a component below it on the stack.\<close>

lemma done_ok:
  assumes ok: "search_ok calls ix low st ((v, []) # fr)" and open_low: "low v \<noteq> ix v"
  obtains u us rest where "fr = (u, us) # rest"
    "search_ok calls ix (if low v < low u then low(u := low v) else low) st fr"
proof (cases fr)
  case Nil
  have "low_sound calls ix low st ((v, []) # fr)" "stack_ok ix st ((v, []) # fr)" using ok by (simp_all add: search_ok_def)
  then obtain y where "y \<in> set st" "ix y = low v" "low v \<le> ix v" "ix v \<le> ix y"
    using stack_okD(1) Nil by (fastforce simp: low_sound_def stack_ok_def)
  with open_low show thesis by simp
next
  case (Cons f rest)
  obtain u us where fr: "fr = (u, us) # rest" using Cons by (cases f) auto
  define low' where "low' = (if low v < low u then low(u := low v) else low)"
  let ?fr = "(v, []) # fr"
  have st: "stack_ok ix st ?fr" and vis: "visit_ok calls ix st ?fr" and re: "reach_ok calls ix st ?fr"
    and lo: "low_sound calls ix low st ?fr" and le: "low_least calls ix low st ?fr"
    using ok by (simp_all add: search_ok_def)
  note v = stack_okD [OF st]
  have u: "u \<in> visiting fr" "ix u < ix v" "u \<noteq> v" using v(3,4) fr by auto
  have uv: "(u, v) \<in> (set calls)\<^sup>*" using re u v(1) by (auto simp: reach_ok_def intro: less_imp_le)
  have pend: "pending ?fr a = pending fr a" for a by (simp add: pending_Cons)
  have st': "stack_ok ix st fr"
  proof -
    have "\<exists>p\<in>visiting fr. ix p \<le> ix x" if x: "x \<in> set st" for x
    proof -
      obtain p where "p \<in> visiting ?fr" "ix p \<le> ix x" using stack_ok_bottom [OF st x] by blast
      then show ?thesis using u by (cases "p = v") (auto intro: bexI [of _ u])
    qed
    with st show ?thesis by (simp add: stack_ok_def)
  qed
  moreover have "visit_ok calls ix st fr" using vis by (simp add: visit_ok_def pend)
  moreover have "reach_ok calls ix st fr" using re by (simp add: reach_ok_def)
  moreover have "low_sound calls ix low' st fr"
  proof -
    have "\<exists>y\<in>set st. ix y = low' x \<and> (x, y) \<in> (set calls)\<^sup>*" "low' x \<le> ix x" if "x \<in> set st" for x
    proof -
      have own: "\<exists>y\<in>set st. ix y = low x \<and> (x, y) \<in> (set calls)\<^sup>*" "low x \<le> ix x"
        and top: "\<exists>y\<in>set st. ix y = low v \<and> (v, y) \<in> (set calls)\<^sup>*"
        using lo that v(1) by (auto simp: low_sound_def)
      show "\<exists>y\<in>set st. ix y = low' x \<and> (x, y) \<in> (set calls)\<^sup>*"
        using own(1) top uv by (auto simp: low'_def intro: rtrancl_trans)
      show "low' x \<le> ix x" using own(2) by (auto simp: low'_def)
    qed
    moreover have "low' x < ix x" if "x \<in> set st" "x \<notin> visiting fr" for x
      using lo that open_low v(1) by (cases "x = v") (auto simp: low_sound_def low'_def le_less)
    ultimately show ?thesis by (simp add: low_sound_def)
  qed
  moreover have "low_least calls ix low' st fr"
  proof -
    have less: "low' x \<le> low x" "low' u \<le> low v" for x by (simp_all add: low'_def)
    have same: "x \<noteq> u \<Longrightarrow> low' x = low x" for x by (simp add: low'_def)
    have "low' p \<le> low' x \<and> (\<forall>b\<in>set st. (x, b) \<in> set calls \<longrightarrow> b \<notin> pending fr x \<longrightarrow> low' p \<le> ix b)"
      if un': "under ix st fr p x" for p x
    proof -
      have x: "x \<in> set st" "p \<in> visiting fr" "ix p \<le> ix x" using un' by (auto simp: under_def)
      obtain q where q: "under ix st ?fr q x" "low' p \<le> low q" "x \<noteq> u \<or> p = u"
      proof (cases "ix v \<le> ix x")
        case True
        have "ix u \<le> ix p" using un' u True by (auto simp: under_def)
        moreover have "ix p \<le> ix u" using st' x(2) fr by (auto simp: stack_ok_def visiting_def)
        ultimately have "p = u" using stack_ok_inj [OF st'] u(1) x(2) st' by (auto simp: stack_ok_def)
        moreover have "under ix st ?fr v x" using True x(1) v(4) by (auto simp: under_def intro: less_imp_le)
        ultimately show thesis using that less(2) by blast
      next
        case False
        then have "under ix st ?fr p x" using un' by (auto simp: under_def)
        moreover have "x \<noteq> u \<or> p = u" using under_self [OF st' un'] u(1) by blast
        ultimately show thesis using that less(1) by blast
      qed
      have "low' p \<le> low' x"
      proof (cases "x = u")
        case True
        with q(3) show ?thesis by simp
      next
        case False
        with q(2) low_leastD(1) [OF le q(1)] show ?thesis by (simp add: same)
      qed
      moreover have "low' p \<le> ix b" if "b \<in> set st" "(x, b) \<in> set calls" "b \<notin> pending fr x" for b
        using low_leastD(2) [OF le q(1) that(1,2)] that(3) q(2) by (simp add: pend)
      ultimately show ?thesis by blast
    qed
    then show ?thesis unfolding low_least_def by blast
  qed
  ultimately show thesis using that [OF fr] by (simp add: search_ok_def low'_def)
qed

text \<open>A function whose low link is its own index: what is above it on the stack is its component.\<close>

definition component_of :: "('a \<times> 'a) list \<Rightarrow> 'a \<Rightarrow> 'a set" where
  "component_of calls v = {x. (v, x) \<in> (set calls)\<^sup>* \<and> (x, v) \<in> (set calls)\<^sup>*}"

lemma closed_rtrancl:
  assumes "(v, x) \<in> E\<^sup>*" "P v" "\<And>a b. P a \<Longrightarrow> (a, b) \<in> E \<Longrightarrow> P b"
  shows "P x"
  using assms(1,2) by (induction rule: rtrancl_induct) (auto intro: assms(3))

lemma pop_parts:
  assumes ok: "search_ok calls ix low st ((v, []) # fr)"
  shows "stack_ok ix st ((v, []) # fr)" "visit_ok calls ix st ((v, []) # fr)"
  "reach_ok calls ix st ((v, []) # fr)" "low_sound calls ix low st ((v, []) # fr)"
  "low_least calls ix low st ((v, []) # fr)"
  using ok by (simp_all add: search_ok_def)

lemma above_pending:
  assumes ok: "search_ok calls ix low st ((v, []) # fr)"
  shows "x \<in> set st \<Longrightarrow> ix v \<le> ix x \<Longrightarrow> pending ((v, []) # fr) x = {}"
  using stack_okD(3,4) [OF pop_parts(1) [OF ok]] pending_out [of x fr] by (auto simp: pending_Cons) fastforce+

lemma above_under:
  assumes ok: "search_ok calls ix low st ((v, []) # fr)"
  shows "x \<in> set st \<Longrightarrow> ix v \<le> ix x \<Longrightarrow> under ix st ((v, []) # fr) v x"
  using stack_okD(4) [OF pop_parts(1) [OF ok]] by (auto simp: under_def intro: less_imp_le)

lemma above_calls:
  assumes ok: "search_ok calls ix low st ((v, []) # fr)" and root: "low v = ix v"
    and x: "x \<in> set st" "ix v \<le> ix x" "(x, b) \<in> set calls"
  shows "ix b \<noteq> 0 \<and> (b \<in> set st \<longrightarrow> ix v \<le> ix b)"
proof -
  have "ix x \<noteq> 0" using stack_okD(2) [OF pop_parts(1) [OF ok]] x(2) by simp
  with visit_okD(1) [OF pop_parts(2) [OF ok] x(3)] above_pending [OF ok x(1,2)] have "ix b \<noteq> 0" by simp
  moreover have "ix v \<le> ix b" if "b \<in> set st"
    using low_leastD(2) [OF pop_parts(5) [OF ok] above_under [OF ok x(1,2)] that x(3)] above_pending [OF ok x(1,2)] root
    by simp
  ultimately show ?thesis by blast
qed

lemma above_back:
  assumes ok: "search_ok calls ix low st ((v, []) # fr)" and root: "low v = ix v"
  shows "x \<in> set st \<Longrightarrow> ix v \<le> ix x \<Longrightarrow> (x, v) \<in> (set calls)\<^sup>*"
proof (induction "ix x" arbitrary: x rule: less_induct)
  case less
  show ?case
  proof (cases "x = v")
    case False
    then have "x \<notin> visiting ((v, []) # fr)" using less.prems(2) stack_okD(4) [OF pop_parts(1) [OF ok]] by fastforce
    with pop_parts(4) [OF ok] less.prems(1) have "low x < ix x" by (simp add: low_sound_def)
    moreover obtain u where u: "u \<in> set st" "ix u = low x" "(x, u) \<in> (set calls)\<^sup>*"
      using pop_parts(4) [OF ok] less.prems(1) by (auto simp: low_sound_def)
    moreover have "ix v \<le> low x" using low_leastD(1) [OF pop_parts(5) [OF ok] above_under [OF ok less.prems]] root by simp
    ultimately have "(u, v) \<in> (set calls)\<^sup>*" using less.hyps [of u] by simp
    with u(3) show ?thesis by simp
  qed simp
qed

lemma component_above:
  assumes ok: "search_ok calls ix low st ((v, []) # fr)" and root: "low v = ix v"
  shows "component_of calls v = {x \<in> set st. ix v \<le> ix x}"
proof
  show "{x \<in> set st. ix v \<le> ix x} \<subseteq> component_of calls v"
    using above_back [OF ok root] pop_parts(3) [OF ok] by (auto simp: component_of_def reach_ok_def)
  show "component_of calls v \<subseteq> {x \<in> set st. ix v \<le> ix x}"
  proof
    fix x assume "x \<in> component_of calls v"
    then have x: "(v, x) \<in> (set calls)\<^sup>*" "(x, v) \<in> (set calls)\<^sup>*" by (simp_all add: component_of_def)
    let ?gone = "\<lambda>a. ix a \<noteq> 0 \<and> a \<notin> set st"
    have gone: "?gone b" if "?gone a" "(a, b) \<in> set calls" for a b
    proof -
      have "a \<notin> visiting ((v, []) # fr)" using that(1) pop_parts(1) [OF ok] by (auto simp: stack_ok_def)
      then have "pending ((v, []) # fr) a = {}" by (rule pending_out)
      with visit_okD [OF pop_parts(2) [OF ok] that(2)] that(1) show ?thesis by simp
    qed
    have "?gone x \<or> x \<in> set st \<and> ix v \<le> ix x"
    proof (rule closed_rtrancl [OF x(1)])
      show "?gone v \<or> v \<in> set st \<and> ix v \<le> ix v" using stack_okD(1) [OF pop_parts(1) [OF ok]] by simp
      fix a b assume "?gone a \<or> a \<in> set st \<and> ix v \<le> ix a" "(a, b) \<in> set calls"
      then show "?gone b \<or> b \<in> set st \<and> ix v \<le> ix b" using gone above_calls [OF ok root] by blast
    qed
    moreover have "\<not> ?gone x"
      using closed_rtrancl [OF x(2), of ?gone] gone stack_okD(1) [OF pop_parts(1) [OF ok]] by blast
    ultimately show "x \<in> {x \<in> set st. ix v \<le> ix x}" by blast
  qed
qed

lemma pop_ok:
  assumes ok: "search_ok calls ix low st ((v, []) # fr)" and root: "low v = ix v"
    and st': "sorted_wrt (\<lambda>a b. ix b < ix a) st'" "set st' = {x \<in> set st. ix x < ix v}"
  shows "search_ok calls ix low st' fr"
proof -
  let ?fr = "(v, []) # fr"
  note v = stack_okD [OF pop_parts(1) [OF ok]]
  have keep: "x \<in> visiting fr \<Longrightarrow> x \<in> set st'" for x using v(4) pop_parts(1) [OF ok] st'(2) by (auto simp: stack_ok_def)
  have pend: "pending ?fr a = pending fr a" for a by (simp add: pending_Cons)
  have "stack_ok ix st' fr"
  proof -
    have "\<exists>p\<in>visiting fr. ix p \<le> ix x" if x: "x \<in> set st'" for x
    proof -
      obtain p where "p \<in> visiting ?fr" "ix p \<le> ix x" using stack_ok_bottom [OF pop_parts(1) [OF ok], of x] x st'(2) by auto
      with x st'(2) show ?thesis by auto
    qed
    with keep pop_parts(1) [OF ok] st' show ?thesis by (auto simp: stack_ok_def)
  qed
  moreover have "visit_ok calls ix st' fr"
    unfolding visit_ok_def
  proof (intro conjI allI impI)
    fix a b assume e: "(a, b) \<in> set calls" "ix a \<noteq> 0"
    show "ix b \<noteq> 0" if "b \<notin> pending fr a" using visit_okD(1) [OF pop_parts(2) [OF ok] e] that pend by simp
    show "b \<notin> set st'" if "a \<notin> set st'"
    proof (cases "a \<in> set st")
      case True
      with that st'(2) have "ix v \<le> ix a" by auto
      from above_calls [OF ok root True this e(1)] st'(2) show ?thesis by (simp add: not_less)
    next
      case False
      with visit_okD(2) [OF pop_parts(2) [OF ok] e] st'(2) show ?thesis by simp
    qed
  next
    show "\<forall>f\<in>set fr. set (snd f) \<subseteq> set (callees calls (fst f))" using pop_parts(2) [OF ok] by (simp add: visit_ok_def)
  qed
  moreover have "reach_ok calls ix st' fr" using pop_parts(3) [OF ok] st'(2) by (auto simp: reach_ok_def)
  moreover have "low_sound calls ix low st' fr"
  proof -
    have "low x \<le> ix x \<and> (\<exists>u\<in>set st'. ix u = low x \<and> (x, u) \<in> (set calls)\<^sup>*)" if x: "x \<in> set st'" for x
    proof -
      have "x \<in> set st" "ix x < ix v" using x st'(2) by simp_all
      with pop_parts(4) [OF ok] obtain u where u: "u \<in> set st" "ix u = low x" "(x, u) \<in> (set calls)\<^sup>*" "low x \<le> ix x"
        unfolding low_sound_def by blast
      then have "u \<in> set st'" using \<open>ix x < ix v\<close> st'(2) by simp
      with u show ?thesis by blast
    qed
    moreover have "low x < ix x" if "x \<in> set st'" "x \<notin> visiting fr" for x
      using pop_parts(4) [OF ok] that st'(2) by (auto simp: low_sound_def)
    ultimately show ?thesis by (simp add: low_sound_def)
  qed
  moreover have "low_least calls ix low st' fr"
    unfolding low_least_def
  proof (intro allI impI)
    fix p x assume un': "under ix st' fr p x"
    then have un: "under ix st ?fr p x" using st'(2) by (auto simp: under_def)
    show "low p \<le> low x \<and> (\<forall>w\<in>set st'. (x, w) \<in> set calls \<longrightarrow> w \<notin> pending fr x \<longrightarrow> low p \<le> ix w)"
      using low_leastD [OF pop_parts(5) [OF ok] un] st'(2) pend by auto
  qed
  ultimately show ?thesis by (simp add: search_ok_def)
qed

section \<open>Components\<close>

lemma component_of_self [simp]: "v \<in> component_of calls v"
  by (simp add: component_of_def)

lemma component_of_eq: "x \<in> component_of calls v \<Longrightarrow> component_of calls x = component_of calls v"
  by (auto simp: component_of_def intro: rtrancl_trans)

lemma component_cyclic:
  "x \<in> component_of calls v \<Longrightarrow> (v, v) \<in> (set calls)\<^sup>+ \<Longrightarrow> (x, x) \<in> (set calls)\<^sup>+"
  by (auto simp: component_of_def intro: rtrancl_trancl_trancl trancl_rtrancl_trancl)

lemma trivial_component:
  assumes "component_of calls v = {v}"
  shows "(v, v) \<in> (set calls)\<^sup>+ \<longleftrightarrow> selfCalls calls v"
proof
  assume "(v, v) \<in> (set calls)\<^sup>+"
  then obtain y where "(v, y) \<in> set calls" "(y, v) \<in> (set calls)\<^sup>*" by (metis tranclD)
  moreover from this have "y \<in> component_of calls v" by (auto simp: component_of_def)
  ultimately show "selfCalls calls v" using assms by (auto simp: selfCalls_def list_ex_iff)
qed (auto simp: selfCalls_def list_ex_iff)

lemma large_component:
  assumes "x \<in> component_of calls v" "x \<noteq> v"
  shows "(v, v) \<in> (set calls)\<^sup>+"
proof -
  have "(v, x) \<in> (set calls)\<^sup>+" "(x, v) \<in> (set calls)\<^sup>*" using assms by (auto simp: component_of_def rtrancl_eq_or_trancl)
  then show ?thesis by (rule trancl_rtrancl_trancl)
qed

definition components_ok :: "('a \<times> 'a) list \<Rightarrow> ('a \<Rightarrow> nat) \<Rightarrow> 'a list \<Rightarrow> 'a list list \<Rightarrow> bool" where
  "components_ok calls ix st cs \<longleftrightarrow>
    (\<forall>C\<in>set cs. distinct C \<and> (\<forall>x\<in>set C. ix x \<noteq> 0 \<and> x \<notin> set st) \<and>
      (\<exists>v. set C = component_of calls v \<and> (v, v) \<in> (set calls)\<^sup>+)) \<and>
    (\<forall>v. ix v \<noteq> 0 \<longrightarrow> v \<notin> set st \<longrightarrow> (v, v) \<in> (set calls)\<^sup>+ \<longrightarrow> (\<exists>C\<in>set cs. v \<in> set C)) \<and>
    sorted_wrt (\<lambda>A B. set A \<inter> set B = {}) cs"

definition state_ok :: "('a \<times> 'a) list \<Rightarrow> 'a frames \<Rightarrow> 'a component_search \<Rightarrow> bool" where
  "state_ok calls fr s \<longleftrightarrow> search_ok calls (co_indices s) (co_lowlink s) (co_stack s) fr \<and>
    (\<forall>v. co_onStack s v \<longleftrightarrow> v \<in> set (co_stack s)) \<and> (\<forall>v. co_indices s v \<le> co_index s) \<and>
    components_ok calls (co_indices s) (co_stack s) (co_components s)"

lemma pop_component_spec:
  "v \<in> set st \<Longrightarrow> pop_component v st on =
    (takeWhile (\<lambda>u. u \<noteq> v) st @ [v], tl (dropWhile (\<lambda>u. u \<noteq> v) st),
      \<lambda>u. on u \<and> u \<notin> insert v (set (takeWhile (\<lambda>u. u \<noteq> v) st)))"
  by (induction v st on rule: pop_component.induct) (auto simp: fun_eq_iff)

lemma split_stack:
  assumes "sorted_wrt (\<lambda>a b. ix b < (ix a :: nat)) st" "v \<in> set st"
  shows "set (takeWhile (\<lambda>u. u \<noteq> v) st @ [v]) = {x \<in> set st. ix v \<le> ix x}"
    "set (tl (dropWhile (\<lambda>u. u \<noteq> v) st)) = {x \<in> set st. ix x < ix v}"
    "sorted_wrt (\<lambda>a b. ix b < ix a) (tl (dropWhile (\<lambda>u. u \<noteq> v) st))"
    "distinct (takeWhile (\<lambda>u. u \<noteq> v) st @ [v])"
  using assms by (induction st) (auto split: if_splits)

lemma components_okD:
  assumes "components_ok calls ix st cs"
  shows "C \<in> set cs \<Longrightarrow> distinct C"
    "C \<in> set cs \<Longrightarrow> x \<in> set C \<Longrightarrow> ix x \<noteq> 0 \<and> x \<notin> set st"
    "C \<in> set cs \<Longrightarrow> \<exists>v. set C = component_of calls v \<and> (v, v) \<in> (set calls)\<^sup>+"
    "ix v \<noteq> 0 \<Longrightarrow> v \<notin> set st \<Longrightarrow> (v, v) \<in> (set calls)\<^sup>+ \<Longrightarrow> \<exists>C\<in>set cs. v \<in> set C"
    "sorted_wrt (\<lambda>A B. set A \<inter> set B = {}) cs"
  using assms unfolding components_ok_def by blast+

lemma components_enter:
  assumes "components_ok calls ix st cs" "ix w = 0"
  shows "components_ok calls (ix(w := i)) (w # st) cs"
proof -
  note ok = components_okD [OF assms(1)]
  have "(ix(w := i)) x \<noteq> 0 \<and> x \<notin> set (w # st)" if "C \<in> set cs" "x \<in> set C" for C x
    using ok(2) [OF that] assms(2) by auto
  moreover have "\<exists>C\<in>set cs. x \<in> set C"
    if "(ix(w := i)) x \<noteq> 0" "x \<notin> set (w # st)" "(x, x) \<in> (set calls)\<^sup>+" for x
    using ok(4) [of x] that by auto
  ultimately show ?thesis using ok(1,3,5) unfolding components_ok_def by blast
qed

lemma components_finish:
  assumes ok: "components_ok calls ix st cs" and C: "set C = component_of calls v" "distinct C" "set C \<subseteq> set st"
    and seen: "\<forall>x\<in>set st. ix x \<noteq> 0" and st': "set st' = set st - set C"
  shows "components_ok calls ix st' (if length C = 1 \<and> \<not> selfCalls calls (hd C) then cs else cs @ [C])"
proof -
  let ?cs = "if length C = 1 \<and> \<not> selfCalls calls (hd C) then cs else cs @ [C]"
  have cyclic: "(v, v) \<in> (set calls)\<^sup>+ \<longleftrightarrow> \<not> (length C = 1 \<and> \<not> selfCalls calls (hd C))"
  proof (cases "length C = 1")
    case True
    then obtain x where x: "C = [x]" by (cases C) auto
    with C(1) component_of_self [of v calls] have "x = v" by auto
    with x C(1) have "C = [v]" "component_of calls v = {v}" by simp_all
    with trivial_component [of calls v] show ?thesis by simp
  next
    case False
    obtain x where "x \<in> set C" "x \<noteq> v"
    proof (rule ccontr)
      assume "\<not> thesis"
      with that have "set C \<subseteq> {v}" by blast
      with C(1,2) component_of_self [of v calls] have "set C = {v}" by blast
      with C(2) have "length C = 1" using distinct_card [of C] by simp
      with False show False by simp
    qed
    with large_component C(1) False show ?thesis by metis
  qed
  have old: "distinct D \<and> (\<forall>x\<in>set D. ix x \<noteq> 0 \<and> x \<notin> set st) \<and>
      (\<exists>v. set D = component_of calls v \<and> (v, v) \<in> (set calls)\<^sup>+)" if "D \<in> set cs" for D
    using ok that by (simp add: components_ok_def)
  have "distinct D \<and> (\<forall>x\<in>set D. ix x \<noteq> 0 \<and> x \<notin> set st') \<and>
      (\<exists>v. set D = component_of calls v \<and> (v, v) \<in> (set calls)\<^sup>+)" if "D \<in> set ?cs" for D
  proof (cases "D \<in> set cs")
    case True
    with old st' show ?thesis by blast
  next
    case False
    with that have "D = C" "(v, v) \<in> (set calls)\<^sup>+" using cyclic by (auto split: if_splits)
    with C seen st' show ?thesis by blast
  qed
  moreover have "\<exists>D\<in>set ?cs. x \<in> set D" if "ix x \<noteq> 0" "x \<notin> set st'" "(x, x) \<in> (set calls)\<^sup>+" for x
  proof (cases "x \<in> set C")
    case True
    with C(1) component_of_eq [of x calls v] have "v \<in> component_of calls x" by (metis component_of_self)
    with component_cyclic that(3) have "(v, v) \<in> (set calls)\<^sup>+" by metis
    with cyclic True show ?thesis by auto
  next
    case False
    with that st' ok have "\<exists>D\<in>set cs. x \<in> set D" by (simp add: components_ok_def)
    then show ?thesis by auto
  qed
  moreover have "sorted_wrt (\<lambda>A B. set A \<inter> set B = {}) ?cs"
    using ok old C(3) by (auto simp: components_ok_def sorted_wrt_append)
  ultimately show ?thesis unfolding components_ok_def by blast
qed

lemma enter_function_ok:
  assumes ok: "state_ok calls ((v, w # ws) # fr) s" and new: "co_indices s w = 0"
  shows "state_ok calls ((w, callees calls w) # (v, ws) # fr) (enter_function w s)"
proof -
  have out: "w \<notin> set (co_stack s)" using ok new by (auto simp: state_ok_def search_ok_def stack_ok_def)
  have "search_ok calls ((co_indices s)(w := Suc (co_index s))) ((co_lowlink s)(w := Suc (co_index s))) (w # co_stack s)
      ((w, callees calls w) # (v, ws) # fr)"
    by (rule enter_ok) (use ok new in \<open>auto simp: state_ok_def\<close>)
  moreover have "components_ok calls ((co_indices s)(w := Suc (co_index s))) (w # co_stack s) (co_components s)"
    by (rule components_enter) (use ok new in \<open>simp_all add: state_ok_def\<close>)
  ultimately show ?thesis using ok by (simp add: state_ok_def enter_function_def Let_def le_SucI)
qed

lemma lower_state: "co_lowlink (lower v l s) = (if l < co_lowlink s v then (co_lowlink s)(v := l) else co_lowlink s)"
  "co_stack (lower v l s) = co_stack s" "co_onStack (lower v l s) = co_onStack s"
  "co_index (lower v l s) = co_index s" "co_components (lower v l s) = co_components s"
  by (simp_all add: lower_def)

lemma call_function_ok:
  assumes ok: "state_ok calls ((v, w # ws) # fr) s" and old: "co_indices s w \<noteq> 0"
  shows "state_ok calls ((v, ws) # fr) (if co_onStack s w then lower v (co_indices s w) s else s)"
proof -
  have "search_ok calls (co_indices s)
      (if w \<in> set (co_stack s) \<and> co_indices s w < co_lowlink s v then (co_lowlink s)(v := co_indices s w) else co_lowlink s)
      (co_stack s) ((v, ws) # fr)"
    by (rule call_ok [where low = "co_lowlink s" and w = w]) (use ok old in \<open>simp_all add: state_ok_def\<close>)
  with ok show ?thesis by (auto simp: state_ok_def lower_state split: if_splits)
qed

lemma finish_function_ok:
  assumes ok: "state_ok calls ((v, []) # fr) s"
  shows "state_ok calls fr (case fr of [] \<Rightarrow> finish_function calls v s
    | (u, us) # rest \<Rightarrow> lower u (co_lowlink (finish_function calls v s) v) (finish_function calls v s))"
proof (cases "co_lowlink s v = co_indices s v")
  case False
  then have s: "finish_function calls v s = s" by (simp add: finish_function_def)
  have "search_ok calls (co_indices s) (co_lowlink s) (co_stack s) ((v, []) # fr)" using ok by (simp add: state_ok_def)
  from done_ok [OF this False] obtain u us rest where "fr = (u, us) # rest"
    "search_ok calls (co_indices s) (if co_lowlink s v < co_lowlink s u then (co_lowlink s)(u := co_lowlink s v)
      else co_lowlink s) (co_stack s) fr" by metis
  with ok s show ?thesis by (auto simp: state_ok_def lower_state)
next
  case root: True
  let ?ix = "co_indices s" and ?low = "co_lowlink s" and ?st = "co_stack s"
  have ok': "search_ok calls ?ix ?low ?st ((v, []) # fr)" using ok by (simp add: state_ok_def)
  note st = pop_parts(1) [OF ok']
  have sorted: "sorted_wrt (\<lambda>a b. ?ix b < ?ix a) ?st" using st by (simp add: stack_ok_def)
  obtain C st' on' where pop: "pop_component v ?st (co_onStack s) = (C, st', on')"
    and C: "C = takeWhile (\<lambda>u. u \<noteq> v) ?st @ [v]" and st': "st' = tl (dropWhile (\<lambda>u. u \<noteq> v) ?st)"
    and on': "on' = (\<lambda>u. co_onStack s u \<and> u \<notin> set C)"
    using pop_component_spec [OF stack_okD(1) [OF st]] by simp
  note parts = split_stack [OF sorted stack_okD(1) [OF st], folded C st']
  let ?s = "finish_function calls v s"
  have fin: "co_stack ?s = st'" "co_lowlink ?s = ?low" "co_index ?s = co_index s" "co_onStack ?s = on'"
    "co_components ?s = (if length C = 1 \<and> \<not> selfCalls calls (hd C) then co_components s else co_components s @ [C])"
    using root pop by (simp_all add: finish_function_def Let_def)
  have search: "search_ok calls ?ix ?low st' fr" by (rule pop_ok [OF ok' root parts(3,2)])
  have comps: "components_ok calls ?ix st' (co_components ?s)"
    unfolding fin
  proof (rule components_finish [where v = v])
    show "components_ok calls ?ix ?st (co_components s)" using ok by (simp add: state_ok_def)
    show "set C = component_of calls v" using parts(1) component_above [OF ok' root] by simp
    show "distinct C" by (fact parts(4))
    show "set C \<subseteq> set ?st" unfolding parts(1) by blast
    show "\<forall>x\<in>set ?st. ?ix x \<noteq> 0" using st by (simp add: stack_ok_def)
    show "set st' = set ?st - set C" unfolding parts(1,2) by auto
  qed
  have on: "co_onStack ?s u \<longleftrightarrow> u \<in> set st'" for u
    using ok unfolding fin on' parts(1,2) by (auto simp: state_ok_def)
  have finished: "state_ok calls fr ?s"
    using search comps on ok unfolding state_ok_def by (simp add: fin)
  show ?thesis
  proof (cases fr)
    case (Cons f rest)
    obtain u us where fr: "fr = (u, us) # rest" using Cons by (cases f) auto
    have "u \<in> set ?st" "?ix u < ?ix v" using st fr by (auto simp: stack_ok_def)
    moreover have "?low u \<le> ?ix u" using pop_parts(4) [OF ok'] calculation(1) by (simp add: low_sound_def)
    ultimately have "lower u (co_lowlink ?s v) ?s = ?s" using root by (simp add: lower_def fin)
    with fr finished show ?thesis by simp
  qed (use finished in simp)
qed

lemma connect_loop_ok:
  "state_ok calls fr s \<Longrightarrow> state_ok calls [] (connect_loop calls fr s) \<and>
    (\<forall>u. co_indices s u \<noteq> 0 \<longrightarrow> co_indices (connect_loop calls fr s) u \<noteq> 0)"
proof (induction calls fr s rule: connect_loop.induct)
  case (1 calls s)
  then show ?case by (simp add: connect_loop.simps)
next
  case (2 calls v fr s)
  let ?s = "case fr of [] \<Rightarrow> finish_function calls v s
    | (u, us) # rest \<Rightarrow> lower u (co_lowlink (finish_function calls v s) v) (finish_function calls v s)"
  have "co_indices ?s = co_indices s" by (simp split: list.splits)
  with "2.IH" [OF refl finish_function_ok [OF "2.prems"]] show ?case
    by (subst (1 2) connect_loop.simps) (simp add: Let_def)
next
  case (3 calls v w ws fr s)
  show ?case
  proof (cases "co_indices s w = 0")
    case True
    from "3.IH"(1) [OF True enter_function_ok [OF "3.prems" True]] True show ?thesis
      by (subst (1 2) connect_loop.simps) auto
  next
    case False
    from "3.IH"(2) [OF False call_function_ok [OF "3.prems" False]] False show ?thesis
      by (subst (1 2) connect_loop.simps) (simp split: if_splits)
  qed
qed

lemma connect_function_ok:
  assumes ok: "state_ok calls [] s" and new: "co_indices s v = 0"
  shows "state_ok calls [] (connect_function calls v s)" "co_indices (connect_function calls v s) v \<noteq> 0"
    "co_indices s u \<noteq> 0 \<Longrightarrow> co_indices (connect_function calls v s) u \<noteq> 0"
proof -
  let ?i = "Suc (co_index s)"
  have empty: "co_stack s = []" using ok by (auto simp: state_ok_def search_ok_def stack_ok_def)
  have vis: "visit_ok calls (co_indices s) [] []" using ok empty by (simp add: state_ok_def search_ok_def)
  have "visit_ok calls ((co_indices s)(v := ?i)) [v] [(v, callees calls v)]"
    unfolding visit_ok_def
  proof (intro conjI allI impI)
    fix a b assume e: "(a, b) \<in> set calls" "((co_indices s)(v := ?i)) a \<noteq> 0"
    have old: "co_indices s b \<noteq> 0" if "a \<noteq> v" using visit_okD(1) [OF vis e(1)] e(2) that by simp
    show "((co_indices s)(v := ?i)) b \<noteq> 0" if "b \<notin> pending [(v, callees calls v)] a"
      using old that e(1) by (auto simp: pending_Cons split: if_splits)
    show "b \<notin> set [v]" if "a \<notin> set [v]" using old that new by auto
  qed simp
  then have "search_ok calls ((co_indices s)(v := ?i)) ((co_lowlink s)(v := ?i)) [v] [(v, callees calls v)]"
    by (auto simp: search_ok_def stack_ok_def reach_ok_def low_sound_def low_least_def under_def pending_Cons)
  moreover have "components_ok calls ((co_indices s)(v := ?i)) [v] (co_components s)"
    using components_enter [of calls "co_indices s" "[]" "co_components s" v ?i] ok new empty by (simp add: state_ok_def)
  ultimately have "state_ok calls [(v, callees calls v)] (enter_function v s)"
    using ok empty by (simp add: state_ok_def enter_function_def Let_def le_SucI)
  from connect_loop_ok [OF this] show "state_ok calls [] (connect_function calls v s)"
    "co_indices (connect_function calls v s) v \<noteq> 0"
    "co_indices s u \<noteq> 0 \<Longrightarrow> co_indices (connect_function calls v s) u \<noteq> 0"
    by (auto simp: connect_function_def)
qed

lemma no_search_ok: "state_ok calls [] no_search"
  by (simp add: state_ok_def no_search_def search_ok_def stack_ok_def visit_ok_def reach_ok_def low_sound_def
      low_least_def under_def components_ok_def)

lemma find_components_loop:
  assumes "state_ok calls [] s"
  shows "state_ok calls [] (fold (\<lambda>v s. if co_indices s v = 0 then connect_function calls v s else s) fns s) \<and>
    (\<forall>u. co_indices s u \<noteq> 0 \<or> u \<in> set fns \<longrightarrow>
      co_indices (fold (\<lambda>v s. if co_indices s v = 0 then connect_function calls v s else s) fns s) u \<noteq> 0)"
  using assms
proof (induction fns arbitrary: s)
  case (Cons v fns)
  let ?s = "if co_indices s v = 0 then connect_function calls v s else s"
  have "state_ok calls [] ?s" "co_indices ?s v \<noteq> 0" "co_indices s u \<noteq> 0 \<Longrightarrow> co_indices ?s u \<noteq> 0" for u
    using connect_function_ok [OF Cons.prems] Cons.prems by auto
  with Cons.IH [of ?s] show ?case by auto
qed simp

lemma find_components_spec:
  shows "C \<in> set (find_components calls fns) \<Longrightarrow>
      distinct C \<and> (\<exists>v. set C = component_of calls v \<and> (v, v) \<in> (set calls)\<^sup>+)"
    and "v \<in> set fns \<Longrightarrow> (v, v) \<in> (set calls)\<^sup>+ \<Longrightarrow> \<exists>C\<in>set (find_components calls fns). v \<in> set C"
    and "sorted_wrt (\<lambda>A B. set A \<inter> set B = {}) (find_components calls fns)"
proof -
  define s where "s = fold (\<lambda>v s. if co_indices s v = 0 then connect_function calls v s else s) fns no_search"
  from find_components_loop [OF no_search_ok, of calls fns, folded s_def]
  have s: "state_ok calls [] s" "\<And>u. u \<in> set fns \<Longrightarrow> co_indices s u \<noteq> 0" by blast+
  then have empty: "co_stack s = []" by (auto simp: state_ok_def search_ok_def stack_ok_def)
  with s have comps: "components_ok calls (co_indices s) [] (find_components calls fns)"
    by (simp add: state_ok_def find_components_def s_def)
  show "C \<in> set (find_components calls fns) \<Longrightarrow>
      distinct C \<and> (\<exists>v. set C = component_of calls v \<and> (v, v) \<in> (set calls)\<^sup>+)"
    using components_okD(1,3) [OF comps] by blast
  show "\<exists>C\<in>set (find_components calls fns). v \<in> set C" if "v \<in> set fns" "(v, v) \<in> (set calls)\<^sup>+"
    using components_okD(4) [OF comps s(2) [OF that(1)] _ that(2)] by simp
  show "sorted_wrt (\<lambda>A B. set A \<inter> set B = {}) (find_components calls fns)" by (fact components_okD(5) [OF comps])
qed

end
