(* ===== verification/Call_Graph.thy ===== *)
theory Call_Graph
  imports Declarations Recursive_Components
begin

text \<open>
  The call graph of a project (\<open>pkg/project/callgraph.go\<close>): its functions, the calls the references give, the
  calls by name at run time, entry points, the calls of a function, and the recursive components.
\<close>

section \<open>Functions and calls\<close>

record project_call =
  ca_caller :: project_decl
  ca_callee :: project_decl
  ca_file :: nat
  ca_node :: node
  ca_kind :: call_kind
  ca_argumentOffset :: int
  ca_order :: "nat \<times> nat \<times> int"

datatype entry_kind = EntryCallback | EntryMain

record call_graph =
  cg_functions :: "project_decl list"
  cg_calls :: "project_call list"
  cg_asyncCalls :: "project_call list"
  cg_entryPoints :: "(project_decl \<times> entry_kind) list"
  cg_recursive :: "project_decl list list"

definition is_definition :: "project_decl \<Rightarrow> bool" where
  "is_definition d = (n_kind (de_node d) = KindFunctionDefinition \<and> \<not> declarationSymbolAmbiguous d)"

definition graph_functions :: "full_file list \<Rightarrow> project_decl list" where
  "graph_functions files =
    sortDeclarations files (filter (\<lambda>d. de_kind d = SymbolFunction \<and> is_definition d) (buildDeclarations files))"

definition file_functions :: "full_file list \<Rightarrow> nat \<Rightarrow> project_decl list" where
  "file_functions files i =
    stable_sort (\<lambda>a b. n_start (de_node a) < n_start (de_node b)) (filter (\<lambda>d. de_file d = i) (graph_functions files))"

text \<open>The binary search for the last function that starts before the call, over a list sorted by start.\<close>

definition enclosingFunction :: "project_decl list \<Rightarrow> node \<Rightarrow> project_decl option" where
  "enclosingFunction fns n =
    (case takeWhile (\<lambda>d. n_start (de_node d) \<le> n_start n) fns of
      [] \<Rightarrow> None
    | ds \<Rightarrow> if n_end n > n_end (de_node (last ds)) then None else Some (last ds))"

definition function_order :: "project_decl list \<Rightarrow> project_decl \<Rightarrow> nat" where
  "function_order fns d =
    (let before = takeWhile (\<lambda>f. declarationKey f \<noteq> declarationKey d) fns
     in if length before = length fns then 0 else length before)"

text \<open>The definition behind a declaration: the only one of its name in the units of the calling file.\<close>

definition callDefinition :: "full_file list \<Rightarrow> comp_unit list \<Rightarrow> nat \<Rightarrow> project_decl \<Rightarrow> project_decl option" where
  "callDefinition files units i resolved =
    (if is_definition resolved then Some resolved
     else
       (let seen = first_by_key (concat (map (\<lambda>u.
          filter (\<lambda>d. is_definition d \<and> de_file d \<in> unit_members u) (declarations_named files (de_name resolved)))
          (filter (\<lambda>u. i \<in> unit_members u) units))) []
        in case seen of [d] \<Rightarrow> Some d | _ \<Rightarrow> None))"

definition reference_call ::
  "full_file list \<Rightarrow> comp_unit list \<Rightarrow> project_decl \<Rightarrow> decl_reference \<Rightarrow> project_call option" where
  "reference_call files units resolved r =
    (let i = rf_file r; w = sm_walk (ff_semantic (files ! i)) in
     if rf_kind r \<noteq> ReferenceCall then None
     else (case Parent w (rf_node r) of
       None \<Rightarrow> None
     | Some call \<Rightarrow>
         if n_kind call \<noteq> KindCallExpression \<or> Uncertain w call \<or> Inactive w call then None
         else (case enclosingFunction (file_functions files i) call of
           None \<Rightarrow> None
         | Some caller \<Rightarrow> (case callDefinition files units i resolved of
             None \<Rightarrow> None
           | Some callee \<Rightarrow> Some
               \<lparr>ca_caller = caller, ca_callee = callee, ca_file = i, ca_node = call, ca_kind = CallDirect,
                ca_argumentOffset = 0,
                ca_order = (function_order (graph_functions files) caller,
                  function_order (graph_functions files) callee, n_start call)\<rparr>))))"

definition direct_calls :: "full_file list \<Rightarrow> comp_unit list \<Rightarrow> reference_state \<Rightarrow> project_call list" where
  "direct_calls files units s =
    concat (map (\<lambda>d. List.map_filter (reference_call files units d) (References s d))
      (filter (\<lambda>d. de_kind d = SymbolFunction) (buildDeclarations files)))"

section \<open>Calls at run time\<close>

definition entry_points :: "project_decl list \<Rightarrow> (project_decl \<times> entry_kind) list" where
  "entry_points fns =
    List.map_filter (\<lambda>d. if de_name d = ''main'' then Some (d, EntryMain)
      else if HasChildToken (de_node d) KwPublic then Some (d, EntryCallback) else None) fns"

definition runtimeCaller :: "full_file list \<Rightarrow> nat \<Rightarrow> string \<Rightarrow> project_decl option" where
  "runtimeCaller files i name =
    (case filter (\<lambda>d. de_file d = i \<and> is_definition d) (declarations_named files name) of
      [d] \<Rightarrow> Some d | _ \<Rightarrow> None)"

definition runtimeDefinitions :: "full_file list \<Rightarrow> comp_unit list \<Rightarrow> nat \<Rightarrow> string \<Rightarrow> project_decl list" where
  "runtimeDefinitions files units i name =
    (let found = sortDeclarations files (first_by_key (concat (map (\<lambda>u.
       filter (\<lambda>d. de_file d \<in> unit_members u \<and> is_definition d) (declarations_named files name))
       (filter (\<lambda>u. i \<in> unit_members u) units))) [])
     in if all_coexist found then found else [])"

definition runtime_calls :: "full_file list \<Rightarrow> comp_unit list \<Rightarrow> nat \<Rightarrow> runtime_call \<Rightarrow> project_call list" where
  "runtime_calls files units i rc =
    (case runtimeCaller files i (rt_caller rc) of
      None \<Rightarrow> []
    | Some caller \<Rightarrow>
        map (\<lambda>callee. \<lparr>ca_caller = caller, ca_callee = callee, ca_file = i, ca_node = rt_node rc,
            ca_kind = rt_kind rc, ca_argumentOffset = rt_argumentOffset rc,
            ca_order = (function_order (graph_functions files) caller,
              function_order (graph_functions files) callee, n_start (rt_node rc))\<rparr>)
          (runtimeDefinitions files units i (rt_target rc)))"

definition all_runtime_calls :: "full_file list \<Rightarrow> comp_unit list \<Rightarrow> project_call list" where
  "all_runtime_calls files units =
    concat (map (\<lambda>i. concat (map (runtime_calls files units i) (ff_runtime (files ! i)))) [0..<length files])"

definition async_less :: "project_call \<Rightarrow> project_call \<Rightarrow> bool" where
  "async_less a b =
    (let (caller, callee, offset) = ca_order a; (caller', callee', offset') = ca_order b in
     if caller \<noteq> caller' then caller < caller'
     else if offset \<noteq> offset' then offset < offset'
     else callee < callee')"

definition call_less :: "full_file list \<Rightarrow> project_call \<Rightarrow> project_call \<Rightarrow> bool" where
  "call_less files a b =
    (let (caller, callee, offset) = ca_order a; (caller', callee', offset') = ca_order b;
         canonical = pf_canonical (files ! ca_file a); canonical' = pf_canonical (files ! ca_file b) in
     if caller \<noteq> caller' then caller < caller'
     else if canonical \<noteq> canonical' then canonical < canonical'
     else if offset \<noteq> offset' then offset < offset'
     else callee < callee')"

section \<open>The graph\<close>

text \<open>A call between functions, as the search for components sees it.\<close>

definition call_pair :: "project_call \<Rightarrow> decl_key \<times> decl_key" where
  "call_pair c = (declarationKey (ca_caller c), declarationKey (ca_callee c))"

definition function_of :: "project_decl list \<Rightarrow> project_call list \<Rightarrow> decl_key \<Rightarrow> project_decl" where
  "function_of fns calls key = hd (filter (\<lambda>d. declarationKey d = key) (fns @ map ca_callee calls))"

definition findRecursiveComponents ::
  "full_file list \<Rightarrow> project_decl list \<Rightarrow> project_call list \<Rightarrow> project_decl list list" where
  "findRecursiveComponents files fns calls =
    stable_sort (\<lambda>a b. declarationLess files (hd a) (hd b))
      (map (\<lambda>component. sortDeclarations files (map (function_of fns calls) component))
        (find_components (map call_pair calls) (map declarationKey fns)))"

definition buildCallGraph :: "full_file list \<Rightarrow> comp_unit list \<Rightarrow> reference_state \<Rightarrow> call_graph" where
  "buildCallGraph files units s =
    (let fns = graph_functions files;
         runtime = all_runtime_calls files units;
         calls = stable_sort (call_less files)
           (direct_calls files units s @ filter (\<lambda>c. ca_kind c = CallDynamic) runtime)
     in \<lparr>cg_functions = fns, cg_calls = calls,
         cg_asyncCalls = stable_sort async_less (filter (\<lambda>c. ca_kind c \<noteq> CallDynamic) runtime),
         cg_entryPoints = entry_points fns,
         cg_recursive = findRecursiveComponents files fns calls\<rparr>)"

text \<open>The calls of a function are kept as places in the list of all calls.\<close>

definition indices_of :: "(project_call \<Rightarrow> project_decl) \<Rightarrow> project_call list \<Rightarrow> project_decl \<Rightarrow> nat list" where
  "indices_of side calls d =
    filter (\<lambda>k. declarationKey (side (calls ! k)) = declarationKey d) [0..<length calls]"

definition indexedCalls :: "project_call list \<Rightarrow> nat list \<Rightarrow> project_call list" where
  "indexedCalls calls indices = map ((!) calls) indices"

definition Outgoing :: "call_graph \<Rightarrow> project_decl \<Rightarrow> project_call list" where
  "Outgoing g d = indexedCalls (cg_calls g) (indices_of ca_caller (cg_calls g) d)"

definition AsyncOutgoing :: "call_graph \<Rightarrow> project_decl \<Rightarrow> project_call list" where
  "AsyncOutgoing g d = indexedCalls (cg_asyncCalls g) (indices_of ca_caller (cg_asyncCalls g) d)"

definition AsyncIncoming :: "call_graph \<Rightarrow> project_decl \<Rightarrow> project_call list" where
  "AsyncIncoming g d = indexedCalls (cg_asyncCalls g) (indices_of ca_callee (cg_asyncCalls g) d)"

definition RecursiveComponents :: "call_graph \<Rightarrow> project_decl list list" where
  "RecursiveComponents g = cg_recursive g"

section \<open>Recursion\<close>

lemma indexedCalls_filter: "indexedCalls calls (indices_of side calls d) =
  filter (\<lambda>c. declarationKey (side c) = declarationKey d) calls"
proof -
  have "filter P calls = map ((!) calls) (filter (\<lambda>k. P (calls ! k)) [0..<length calls])" for P
    using filter_map [of P "(!) calls" "[0..<length calls]"] by (simp add: map_nth comp_def)
  then show ?thesis by (simp add: indexedCalls_def indices_of_def)
qed

lemma function_of_key:
  assumes "key \<in> snd ` set (map call_pair calls)"
  shows "declarationKey (function_of fns calls key) = key"
proof -
  have "filter (\<lambda>d. declarationKey d = key) (fns @ map ca_callee calls) \<noteq> []"
    using assms by (auto simp: call_pair_def filter_empty_conv)
  then have "hd (filter (\<lambda>d. declarationKey d = key) (fns @ map ca_callee calls)) \<in>
      set (filter (\<lambda>d. declarationKey d = key) (fns @ map ca_callee calls))" by (rule hd_in_set)
  then show ?thesis unfolding function_of_def by (simp only: set_filter mem_Collect_eq)
qed

lemma cyclic_called: "(v, v) \<in> R\<^sup>+ \<Longrightarrow> v \<in> snd ` R"
  by (metis Range_iff Range_snd tranclD2)

lemma recursive_keys:
  assumes "component \<in> set (find_components (map call_pair calls) keys)"
  shows "map declarationKey (map (function_of fns calls) component) = component"
proof -
  from find_components_spec(1) [OF assms] obtain v where
    v: "set component = component_of (map call_pair calls) v" "(v, v) \<in> (set (map call_pair calls))\<^sup>+" by blast
  have "declarationKey (function_of fns calls x) = x" if "x \<in> set component" for x
  proof -
    have "(x, x) \<in> (set (map call_pair calls))\<^sup>+" using that component_cyclic v by metis
    then show ?thesis by (intro function_of_key cyclic_called)
  qed
  then show ?thesis by (simp add: map_idI)
qed

definition calls_in :: "call_graph \<Rightarrow> (decl_key \<times> decl_key) set" where
  "calls_in g = set (map call_pair (cg_calls g))"


text \<open>Two functions that call each other.\<close>

definition example_calls :: "node list" where
  "example_calls =
    map (\<lambda>(i, start). Node i KindCallExpression Dot start (start + 3) False []
      [Node (i + 1) KindIdentifier Identifier start (start + 1) False [] []]) [(2, 5), (5, 25)]"

definition example_function :: "nat \<Rightarrow> node" where
  "example_function k =
    Node (3 * k + 1) KindFunctionDefinition Dot (20 * int k) (20 * int k + 10) False [] [example_calls ! k]"

definition function_symbol :: "nat \<Rightarrow> string \<Rightarrow> symbol" where
  "function_symbol k name =
    example_symbol\<lparr>sy_name := name, sy_kind := SymbolFunction, sy_decl := example_function k\<rparr>"

definition example_program :: "full_file list" where
  "example_program =
    (let root = Node 0 KindSourceFile Dot 0 30 False [] [example_function 0, example_function 1];
         w = \<lparr>wm_index = NewIndex root, wm_text = \<lambda>n. [], wm_uncertain = \<lambda>_. False, wm_inactive = \<lambda>_. False\<rparr>
     in [example_file ''a.pwn'' True []
       (example_semantic\<lparr>sm_walk := w, sm_symbols := [function_symbol 0 ''ping'', function_symbol 1 ''pong'']\<rparr>)])"

definition example_references :: reference_state where
  "example_references =
    (let ref = (\<lambda>k. [\<lparr>rf_file = 0, rf_node = hd (n_children (example_calls ! k)), rf_kind = ReferenceCall\<rparr>])
     in no_references\<lparr>rs_references := (\<lambda>key. if key = (0, 4) then ref 0 else if key = (0, 1) then ref 1 else [])\<rparr>)"

definition example_graph :: call_graph where
  "example_graph = buildCallGraph example_program [] example_references"


end
