(* ===== verification/Function_Effects.thy ===== *)
theory Function_Effects
  imports Call_Graph "HOL-Library.FSet"
begin

text \<open>
  What the functions of a project read, write and mutate (\<open>pkg/project/effects.go\<close>): the direct effects of a
  function from its tree, and the work list that merges the effects of the functions it calls. The maps of the
  code whose keys alone matter are finite sets.
\<close>

section \<open>The kind of a reference\<close>

definition effect_inside :: "node \<Rightarrow> node option \<Rightarrow> bool" where
  "effect_inside n container =
    (case container of None \<Rightarrow> False | Some c \<Rightarrow> n_start n \<ge> n_start c \<and> n_end n \<le> n_end c)"

text \<open>Upwards from a node; the list holds its ancestors.\<close>

fun effect_kind_from :: "node \<Rightarrow> node list \<Rightarrow> reference_kind \<Rightarrow> reference_kind" where
  "effect_kind_from current [] kind = kind"
| "effect_kind_from current (parent # ups) kind =
    (if n_kind parent = KindAssignmentExpression \<and> effect_inside current (field parent ''left'')
     then (if n_tok parent = Assign then ReferenceWrite else ReferenceReadWrite)
     else if n_kind parent = KindUpdateExpression then ReferenceReadWrite
     else if n_kind parent \<notin> {KindSubscriptExpression, KindParenthesizedExpression, KindTaggedExpression} then kind
     else effect_kind_from parent ups kind)"

definition effectReferenceKind :: "semantic \<Rightarrow> node \<Rightarrow> reference_kind \<Rightarrow> reference_kind" where
  "effectReferenceKind m n kind = effect_kind_from n (Ancestors (wm_index (sm_walk m)) n) kind"

text \<open>All references of a file with their kinds; a later entry replaces an earlier one.\<close>

definition effectReferenceKinds :: "semantic \<Rightarrow> nat \<Rightarrow> reference_kind option" where
  "effectReferenceKinds m =
    map_of (rev (map (\<lambda>(n, kind). (n_id n, effectReferenceKind m n kind))
      (concat (map (sm_references m) [0..<length (sm_symbols m)]) @ map (\<lambda>(n, kind, target). (n, kind)) (sm_unresolved m))))"

section \<open>Direct effects\<close>

text \<open>\<open>ef_parameters\<close>: the declaration of a parameter with its place and whether it is passed by reference.\<close>

record effect_state =
  ef_complete :: bool
  ef_intrinsicImpure :: bool
  ef_pure :: bool
  ef_reads :: "decl_key fset"
  ef_writes :: "decl_key fset"
  ef_mutated :: "nat fset"
  ef_calls :: "project_call list"
  ef_parameters :: "(nat \<times> nat \<times> bool) list"

definition effectHasDimension :: "node \<Rightarrow> bool" where
  "effectHasDimension n = list_ex (\<lambda>c. n_kind c = KindDimension) (n_children n)"

fun index_parameters :: "semantic \<Rightarrow> symbol list \<Rightarrow> node list \<Rightarrow> nat \<Rightarrow> (nat \<times> nat \<times> bool) list" where
  "index_parameters m symbols [] k = []"
| "index_parameters m symbols (p # ps) k =
    (if n_kind p \<noteq> KindParameter then index_parameters m symbols ps k
     else if list_ex (\<lambda>s. sy_kind s = SymbolParameter \<and> n_id (sy_decl s) = n_id p \<and> \<not> sy_ambiguous s) symbols
     then (n_id p, k, ReferencesByAmpersand (map fst (sm_tokens m)) p \<or> effectHasDimension p) #
       index_parameters m symbols ps (Suc k)
     else index_parameters m symbols ps (Suc k))"

definition indexEffectParameters :: "semantic \<Rightarrow> node \<Rightarrow> symbol list \<Rightarrow> (nat \<times> nat \<times> bool) list" where
  "indexEffectParameters m function symbols =
    (case field function ''parameters'' of None \<Rightarrow> [] | Some l \<Rightarrow> index_parameters m symbols (n_children l) 0)"

definition purity :: "effect_state \<Rightarrow> bool" where
  "purity st = (ef_complete st \<and> \<not> ef_intrinsicImpure st \<and> ef_reads st = {||} \<and> ef_writes st = {||} \<and>
    ef_mutated st = {||})"

definition applyDirectReferenceEffect ::
  "full_file list \<Rightarrow> reference_state \<Rightarrow> nat \<Rightarrow> node \<Rightarrow> effect_state \<Rightarrow> effect_state" where
  "applyDirectReferenceEffect files s i n st =
    (let m = ff_semantic (files ! i) in
     case effectReferenceKinds m (n_id n) of
       None \<Rightarrow> st
     | Some kind \<Rightarrow>
         (let st = (case Resolve m n of
             None \<Rightarrow> st
           | Some k \<Rightarrow>
               (let sy = sm_symbols m ! k in
                if sy_kind sy \<noteq> SymbolParameter then st
                else (case map_of (ef_parameters st) (n_id (sy_decl sy)) of
                  Some (p, True) \<Rightarrow>
                    if kind \<noteq> ReferenceRead then st\<lparr>ef_mutated := finsert p (ef_mutated st)\<rparr> else st
                | _ \<Rightarrow> st)))
          in case resolveSyntax files s i n of
               None \<Rightarrow> st
             | Some d \<Rightarrow>
                 if de_kind d \<noteq> SymbolGlobal \<or> kind = ReferenceRead \<and> sy_constant (de_symbol d) then st
                 else if kind = ReferenceRead then st\<lparr>ef_reads := finsert (declarationKey d) (ef_reads st)\<rparr>
                 else st\<lparr>ef_writes := finsert (declarationKey d) (ef_writes st)\<rparr>))"

text \<open>The \<open>switch\<close> over the kind of a node, and the walk over the tree of the function.\<close>

definition effect_node ::
  "full_file list \<Rightarrow> reference_state \<Rightarrow> nat \<Rightarrow> nat list \<Rightarrow> node \<Rightarrow> effect_state \<Rightarrow> effect_state" where
  "effect_node files s i known n st =
    (case n_kind n of
      KindMacroInvocation \<Rightarrow> st\<lparr>ef_complete := False\<rparr>
    | KindMacroInvocationBlock \<Rightarrow> st\<lparr>ef_complete := False\<rparr>
    | KindConditionalSplice \<Rightarrow> st\<lparr>ef_complete := False\<rparr>
    | KindStateStatement \<Rightarrow> st\<lparr>ef_intrinsicImpure := True\<rparr>
    | KindCallExpression \<Rightarrow> if n_id n \<notin> set known then st\<lparr>ef_complete := False\<rparr> else st
    | KindIdentifier \<Rightarrow> applyDirectReferenceEffect files s i n st
    | _ \<Rightarrow> st)"

fun effect_visit ::
  "full_file list \<Rightarrow> reference_state \<Rightarrow> nat \<Rightarrow> nat \<Rightarrow> nat list \<Rightarrow> node \<Rightarrow> effect_state \<Rightarrow> effect_state" where
  "effect_visit files s i fnode known (Node j k t a b e fs cs) st =
    (let n = Node j k t a b e fs cs; w = sm_walk (ff_semantic (files ! i)) in
     if Inactive w n then st
     else if j \<noteq> fnode \<and> k = KindFunctionDefinition then st\<lparr>ef_complete := False\<rparr>
     else if Uncertain w n then st\<lparr>ef_complete := False\<rparr>
     else fold (\<lambda>c st. effect_visit files s i fnode known c st) cs (effect_node files s i known n st))"

definition unknown_effects :: effect_state where
  "unknown_effects = \<lparr>ef_complete = False, ef_intrinsicImpure = True, ef_pure = False, ef_reads = {||},
    ef_writes = {||}, ef_mutated = {||}, ef_calls = [], ef_parameters = []\<rparr>"

definition directFunctionEffects ::
  "full_file list \<Rightarrow> reference_state \<Rightarrow> call_graph \<Rightarrow> project_decl \<Rightarrow> effect_state" where
  "directFunctionEffects files s g d =
    (let m = ff_semantic (files ! de_file d); w = sm_walk m; n = de_node d;
         symbols = filter (\<lambda>sy. map_option n_id (sy_function sy) = Some (n_id n)) (sm_symbols m)
     in if n_hasError n \<or> Inactive w n \<or> Uncertain w n then unknown_effects
        else
          (let calls = Outgoing g d;
               st = effect_visit files s (de_file d) (n_id n) (map (\<lambda>c. n_id (ca_node c)) calls) n
                 \<lparr>ef_complete = True,
                  ef_intrinsicImpure = list_ex (\<lambda>sy. sy_kind sy = SymbolLocal \<and>
                    (case Parent w (sy_decl sy) of None \<Rightarrow> False | Some p \<Rightarrow> HasChildToken p KwStatic)) symbols,
                  ef_pure = True, ef_reads = {||}, ef_writes = {||}, ef_mutated = {||}, ef_calls = calls,
                  ef_parameters = indexEffectParameters m n symbols\<rparr>
           in st\<lparr>ef_pure := purity st\<rparr>))"

section \<open>Merging the effects of calls\<close>

fun effectBaseIdentifier :: "node \<Rightarrow> node option" where
  "effectBaseIdentifier n =
    (if n_kind n = KindIdentifier then Some n
     else if n_kind n = KindParenthesizedExpression \<or> n_kind n = KindTaggedExpression
     then (case field n ''expression'' of None \<Rightarrow> None | Some e \<Rightarrow> effectBaseIdentifier e)
     else if n_kind n = KindSubscriptExpression
     then (case field n ''array'' of None \<Rightarrow> None | Some e \<Rightarrow> effectBaseIdentifier e)
     else None)"

declare effectBaseIdentifier.simps [simp del]

definition effectResolvedSymbol :: "semantic \<Rightarrow> node \<Rightarrow> node option" where
  "effectResolvedSymbol m n =
    (case Resolve m n of
      None \<Rightarrow> None
    | Some k \<Rightarrow> if sy_ambiguous (sm_symbols m ! k) then None else Some (sy_decl (sm_symbols m ! k)))"

text \<open>One parameter that the callee mutates; the first component says whether the argument is understood.\<close>

definition map_argument ::
  "full_file list \<Rightarrow> reference_state \<Rightarrow> project_call \<Rightarrow> node list \<Rightarrow> nat \<Rightarrow> bool \<times> effect_state \<Rightarrow> bool \<times> effect_state" where
  "map_argument files s c arguments k = (\<lambda>(complete, st).
    (let at_place = int k + ca_argumentOffset c in
     if at_place < 0 \<or> at_place \<ge> int (length arguments) then (False, st)
     else (case effectBaseIdentifier (arguments ! nat at_place) of
       None \<Rightarrow> (False, st)
     | Some n \<Rightarrow>
         (case effectResolvedSymbol (ff_semantic (files ! ca_file c)) n of
           Some decl \<Rightarrow>
             (complete, case map_of (ef_parameters st) (n_id decl) of
                Some (p, True) \<Rightarrow> st\<lparr>ef_mutated := finsert p (ef_mutated st)\<rparr> | _ \<Rightarrow> st)
         | None \<Rightarrow>
             (case resolveSyntax files s (ca_file c) n of
               None \<Rightarrow> (False, st)
             | Some d \<Rightarrow>
                 if de_kind d = SymbolGlobal
                 then (complete, st\<lparr>ef_writes := finsert (declarationKey d) (ef_writes st)\<rparr>)
                 else (False, st))))))"

definition mapMutatedArguments ::
  "full_file list \<Rightarrow> reference_state \<Rightarrow> project_call \<Rightarrow> nat fset \<Rightarrow> effect_state \<Rightarrow> bool \<times> effect_state" where
  "mapMutatedArguments files s c mutated st =
    (case field (ca_node c) ''arguments'' of
      None \<Rightarrow> (False, st)
    | Some l \<Rightarrow> fold (map_argument files s c (n_children l)) (sorted_list_of_fset mutated) (True, st))"

text \<open>
  One call: the flags gathered so far and the state as merged so far. The state of the callee is the current
  one, also where a function calls itself.
\<close>

type_synonym effect_states = "decl_key \<Rightarrow> effect_state option"

definition merge_call ::
  "full_file list \<Rightarrow> reference_state \<Rightarrow> decl_key \<Rightarrow> effect_states \<Rightarrow> project_call \<Rightarrow>
    bool \<times> bool \<times> effect_state \<Rightarrow> bool \<times> bool \<times> effect_state" where
  "merge_call files s ident states c = (\<lambda>(complete, impure, st).
    (case (if declarationKey (ca_callee c) = ident then Some st else states (declarationKey (ca_callee c))) of
      None \<Rightarrow> (False, impure, st)
    | Some callee \<Rightarrow>
        if \<not> ef_complete callee then (False, impure, st)
        else
          (let st = st\<lparr>ef_reads := ef_reads st |\<union>| ef_reads callee, ef_writes := ef_writes st |\<union>| ef_writes callee\<rparr>;
               (understood, st) = (if ef_mutated callee = {||} then (True, st)
                 else mapMutatedArguments files s c (ef_mutated callee) st)
           in (complete \<and> understood, impure \<or> ef_intrinsicImpure callee, st))))"

definition mergeFunctionEffects ::
  "full_file list \<Rightarrow> reference_state \<Rightarrow> decl_key \<Rightarrow> effect_states \<Rightarrow> effect_state \<Rightarrow> bool \<times> effect_state" where
  "mergeFunctionEffects files s ident states st =
    (let (complete, impure, merged) =
       fold (merge_call files s ident states) (ef_calls st) (ef_complete st, ef_intrinsicImpure st, st);
         merged = merged\<lparr>ef_complete := complete, ef_intrinsicImpure := impure\<rparr>;
         merged = merged\<lparr>ef_pure := purity merged\<rparr>
     in (ef_complete merged \<noteq> ef_complete st \<or> ef_intrinsicImpure merged \<noteq> ef_intrinsicImpure st \<or>
         ef_pure merged \<noteq> ef_pure st \<or> fcard (ef_reads merged) \<noteq> fcard (ef_reads st) \<or>
         fcard (ef_writes merged) \<noteq> fcard (ef_writes st) \<or> fcard (ef_mutated merged) \<noteq> fcard (ef_mutated st), merged))"

section \<open>The work list\<close>

definition callers_of :: "decl_key list \<Rightarrow> effect_states \<Rightarrow> decl_key \<Rightarrow> decl_key list" where
  "callers_of fns states callee =
    concat (map (\<lambda>f. case states f of None \<Rightarrow> []
      | Some st \<Rightarrow> map (\<lambda>_. f) (filter (\<lambda>c. declarationKey (ca_callee c) = callee) (ef_calls st))) fns)"

fun push_callers :: "decl_key list \<Rightarrow> decl_key list \<Rightarrow> decl_key list" where
  "push_callers [] queue = queue"
| "push_callers (f # fs) queue = push_callers fs (if f \<in> set queue then queue else queue @ [f])"

text \<open>A function is queued exactly while it stands in the part of the queue that is still to come.\<close>

partial_function (option) effects_loop ::
  "full_file list \<Rightarrow> reference_state \<Rightarrow> (decl_key \<Rightarrow> decl_key list) \<Rightarrow> decl_key list \<Rightarrow> effect_states \<Rightarrow> effect_states option" where
  "effects_loop files s callers queue states =
    (case queue of
      [] \<Rightarrow> Some states
    | ident # rest \<Rightarrow>
        (case states ident of
          None \<Rightarrow> None
        | Some st \<Rightarrow>
            (let (changed, merged) = mergeFunctionEffects files s ident states st;
                 states = states(ident \<mapsto> merged)
             in if changed then effects_loop files s callers (push_callers (callers ident) rest) states
                else effects_loop files s callers rest states)))"

lemma effects_loop_code [code]:
  "effects_loop files s callers [] states = Some states"
  "effects_loop files s callers (ident # rest) states =
    (case states ident of
      None \<Rightarrow> None
    | Some st \<Rightarrow>
        (let (changed, merged) = mergeFunctionEffects files s ident states st;
             states = states(ident \<mapsto> merged)
         in if changed then effects_loop files s callers (push_callers (callers ident) rest) states
            else effects_loop files s callers rest states))"
  by (simp_all add: effects_loop.simps)

definition direct_states :: "full_file list \<Rightarrow> reference_state \<Rightarrow> call_graph \<Rightarrow> effect_states" where
  "direct_states files s g =
    map_of (rev (map (\<lambda>d. (declarationKey d, directFunctionEffects files s g d)) (cg_functions g)))"

record function_effects =
  fe_complete :: bool
  fe_pure :: bool
  fe_readsGlobals :: "project_decl list"
  fe_writesGlobals :: "project_decl list"
  fe_mutatedParameters :: "nat list"
  fe_calls :: "project_decl list"

definition publicFunctionEffects :: "full_file list \<Rightarrow> effect_state \<Rightarrow> function_effects" where
  "publicFunctionEffects files st =
    (let listed = (\<lambda>keys. filter (\<lambda>d. declarationKey d |\<in>| keys) (buildDeclarations files)) in
     \<lparr>fe_complete = ef_complete st, fe_pure = ef_pure st, fe_readsGlobals = listed (ef_reads st),
      fe_writesGlobals = listed (ef_writes st), fe_mutatedParameters = sorted_list_of_fset (ef_mutated st),
      fe_calls = sortDeclarations files (map ca_callee (ef_calls st))\<rparr>)"

definition buildFunctionEffects ::
  "full_file list \<Rightarrow> reference_state \<Rightarrow> call_graph \<Rightarrow> (decl_key \<Rightarrow> function_effects option) option" where
  "buildFunctionEffects files s g =
    (let states = direct_states files s g; fns = map declarationKey (cg_functions g) in
     map_option (\<lambda>states key. map_option (publicFunctionEffects files) (states key))
       (effects_loop files s (callers_of fns states) fns states))"

section \<open>What a call contributes\<close>

text \<open>
  Whether the call is understood, whether it is impure, and the sets it adds; for a given callee state they
  depend on the parameters of the caller only.
\<close>

record contribution =
  co_understood :: bool
  co_impure :: bool
  co_reads :: "decl_key fset"
  co_writes :: "decl_key fset"
  co_mutated :: "nat fset"

definition apply_contribution :: "contribution \<Rightarrow> bool \<times> bool \<times> effect_state \<Rightarrow> bool \<times> bool \<times> effect_state" where
  "apply_contribution d = (\<lambda>(cm, impure, st).
    (cm \<and> co_understood d, impure \<or> co_impure d,
     st\<lparr>ef_reads := ef_reads st |\<union>| co_reads d, ef_writes := ef_writes st |\<union>| co_writes d,
        ef_mutated := ef_mutated st |\<union>| co_mutated d\<rparr>))"

definition argument_effect ::
  "full_file list \<Rightarrow> reference_state \<Rightarrow> project_call \<Rightarrow> node list \<Rightarrow> (nat \<times> nat \<times> bool) list \<Rightarrow> nat \<Rightarrow>
    bool \<times> decl_key fset \<times> nat fset" where
  "argument_effect files s c arguments parameters k =
    (let at_place = int k + ca_argumentOffset c in
     if at_place < 0 \<or> at_place \<ge> int (length arguments) then (False, {||}, {||})
     else (case effectBaseIdentifier (arguments ! nat at_place) of
       None \<Rightarrow> (False, {||}, {||})
     | Some n \<Rightarrow>
         (case effectResolvedSymbol (ff_semantic (files ! ca_file c)) n of
           Some decl \<Rightarrow> (True, {||}, case map_of parameters (n_id decl) of Some (p, True) \<Rightarrow> {|p|} | _ \<Rightarrow> {||})
         | None \<Rightarrow>
             (case resolveSyntax files s (ca_file c) n of
               None \<Rightarrow> (False, {||}, {||})
             | Some d \<Rightarrow> if de_kind d = SymbolGlobal then (True, {|declarationKey d|}, {||}) else (False, {||}, {||})))))"

lemma map_argument_effect:
  "map_argument files s c arguments k (cm, st) =
    (case argument_effect files s c arguments (ef_parameters st) k of (ok, W, M) \<Rightarrow>
      (cm \<and> ok, st\<lparr>ef_writes := ef_writes st |\<union>| W, ef_mutated := ef_mutated st |\<union>| M\<rparr>))"
  by (simp add: map_argument_def argument_effect_def Let_def split: option.split prod.split bool.split)

definition arguments_effect ::
  "full_file list \<Rightarrow> reference_state \<Rightarrow> project_call \<Rightarrow> node list \<Rightarrow> (nat \<times> nat \<times> bool) list \<Rightarrow> nat list \<Rightarrow>
    bool \<times> decl_key fset \<times> nat fset" where
  "arguments_effect files s c arguments parameters ks =
    fold (\<lambda>k (ok, W, M). case argument_effect files s c arguments parameters k of (ok', W', M') \<Rightarrow>
      (ok \<and> ok', W |\<union>| W', M |\<union>| M')) ks (True, {||}, {||})"

lemma fold_map_argument:
  "fold (map_argument files s c arguments) ks (cm \<and> ok0, st\<lparr>ef_writes := ef_writes st |\<union>| W0, ef_mutated := ef_mutated st |\<union>| M0\<rparr>) =
    (case fold (\<lambda>k (ok, W, M). case argument_effect files s c arguments (ef_parameters st) k of (ok', W', M') \<Rightarrow>
      (ok \<and> ok', W |\<union>| W', M |\<union>| M')) ks (ok0, W0, M0) of (ok, W, M) \<Rightarrow>
      (cm \<and> ok, st\<lparr>ef_writes := ef_writes st |\<union>| W, ef_mutated := ef_mutated st |\<union>| M\<rparr>))"
proof (induction ks arbitrary: ok0 W0 M0)
  case Nil
  then show ?case by simp
next
  case (Cons k ks)
  obtain ok W M where e: "argument_effect files s c arguments (ef_parameters st) k = (ok, W, M)" by (metis prod_cases3)
  have "map_argument files s c arguments k
      (cm \<and> ok0, st\<lparr>ef_writes := ef_writes st |\<union>| W0, ef_mutated := ef_mutated st |\<union>| M0\<rparr>) =
    (cm \<and> (ok0 \<and> ok), st\<lparr>ef_writes := ef_writes st |\<union>| (W0 |\<union>| W), ef_mutated := ef_mutated st |\<union>| (M0 |\<union>| M)\<rparr>)"
    by (simp add: map_argument_effect e funion_assoc)
  with Cons.IH [of "ok0 \<and> ok" "M0 |\<union>| M" "W0 |\<union>| W"] show ?case by (simp add: e)
qed

definition mutation_effect ::
  "full_file list \<Rightarrow> reference_state \<Rightarrow> project_call \<Rightarrow> (nat \<times> nat \<times> bool) list \<Rightarrow> nat fset \<Rightarrow>
    bool \<times> decl_key fset \<times> nat fset" where
  "mutation_effect files s c parameters mutated =
    (case field (ca_node c) ''arguments'' of
      None \<Rightarrow> (False, {||}, {||})
    | Some l \<Rightarrow> arguments_effect files s c (n_children l) parameters (sorted_list_of_fset mutated))"

lemma mapMutatedArguments_effect:
  "mapMutatedArguments files s c mutated st =
    (case mutation_effect files s c (ef_parameters st) mutated of (ok, W, M) \<Rightarrow>
      (ok, st\<lparr>ef_writes := ef_writes st |\<union>| W, ef_mutated := ef_mutated st |\<union>| M\<rparr>))"
  using fold_map_argument [where cm = True and ?ok0.0 = True and ?W0.0 = "{||}" and ?M0.0 = "{||}" and st = st]
  by (auto simp: mapMutatedArguments_def mutation_effect_def arguments_effect_def split: option.split)

definition call_contribution ::
  "full_file list \<Rightarrow> reference_state \<Rightarrow> project_call \<Rightarrow> (nat \<times> nat \<times> bool) list \<Rightarrow> effect_state option \<Rightarrow> contribution" where
  "call_contribution files s c parameters found =
    (case found of
      Some callee \<Rightarrow>
        if ef_complete callee
        then (case (if ef_mutated callee = {||} then (True, {||}, {||})
              else mutation_effect files s c parameters (ef_mutated callee)) of
            (ok, W, M) \<Rightarrow> \<lparr>co_understood = ok, co_impure = ef_intrinsicImpure callee, co_reads = ef_reads callee,
              co_writes = ef_writes callee |\<union>| W, co_mutated = M\<rparr>)
        else \<lparr>co_understood = False, co_impure = False, co_reads = {||}, co_writes = {||}, co_mutated = {||}\<rparr>
    | None \<Rightarrow> \<lparr>co_understood = False, co_impure = False, co_reads = {||}, co_writes = {||}, co_mutated = {||}\<rparr>)"

definition callee_state :: "decl_key \<Rightarrow> effect_states \<Rightarrow> project_call \<Rightarrow> effect_state \<Rightarrow> effect_state option" where
  "callee_state ident states c st =
    (if declarationKey (ca_callee c) = ident then Some st else states (declarationKey (ca_callee c)))"

lemma merge_call_contribution:
  "merge_call files s ident states c (cm, impure, st) =
    apply_contribution (call_contribution files s c (ef_parameters st) (callee_state ident states c st)) (cm, impure, st)"
  by (auto simp: merge_call_def callee_state_def [symmetric] call_contribution_def apply_contribution_def Let_def
      mapMutatedArguments_effect funion_assoc split: option.split prod.split)

section \<open>Merging only adds\<close>

type_synonym merge_state = "bool \<times> bool \<times> effect_state"

definition grown :: "merge_state \<Rightarrow> merge_state \<Rightarrow> bool" where
  "grown = (\<lambda>(cm, impure, st) (cm', impure', st').
    (cm' \<longrightarrow> cm) \<and> (impure \<longrightarrow> impure') \<and>
    ef_reads st |\<subseteq>| ef_reads st' \<and> ef_writes st |\<subseteq>| ef_writes st' \<and> ef_mutated st |\<subseteq>| ef_mutated st' \<and>
    ef_complete st' = ef_complete st \<and> ef_intrinsicImpure st' = ef_intrinsicImpure st \<and> ef_pure st' = ef_pure st \<and>
    ef_calls st' = ef_calls st \<and> ef_parameters st' = ef_parameters st)"

lemma grown_refl: "grown x x"
  by (simp add: grown_def split: prod.split)

lemma merge_grown_trans: "grown x y \<Longrightarrow> grown y z \<Longrightarrow> grown x z"
  by (auto simp: grown_def split: prod.splits)

lemma grown_antisym: "grown x y \<Longrightarrow> grown y x \<Longrightarrow> x = y"
  by (auto simp: grown_def split: prod.splits intro!: effect_state.equality)

lemma grown_apply: "grown x (apply_contribution d x)"
  by (auto simp: grown_def apply_contribution_def split: prod.split)

lemma apply_absorbed:
  assumes "grown (apply_contribution d x) z"
  shows "apply_contribution d z = z"
proof -
  obtain cm impure st where z: "z = (cm, impure, st)" by (metis prod_cases3)
  obtain cm0 impure0 st0 where x: "x = (cm0, impure0, st0)" by (metis prod_cases3)
  have "cm \<longrightarrow> co_understood d" "co_impure d \<longrightarrow> impure" "co_reads d |\<subseteq>| ef_reads st"
    "co_writes d |\<subseteq>| ef_writes st" "co_mutated d |\<subseteq>| ef_mutated st"
    using assms by (auto simp: grown_def apply_contribution_def x z)
  then show ?thesis
    by (auto simp: apply_contribution_def z sup.absorb1 intro!: effect_state.equality)
qed

lemma merge_call_apply:
  "\<exists>d. merge_call files s ident states c x = apply_contribution d x"
  using merge_call_contribution by (metis prod_cases3)

lemma grown_merge: "grown x (fold (merge_call files s ident states) calls x)"
proof (induction calls arbitrary: x)
  case Nil
  then show ?case by (simp add: grown_refl)
next
  case (Cons c calls)
  have "grown x (merge_call files s ident states c x)" using merge_call_apply grown_apply by metis
  from merge_grown_trans [OF this Cons.IH] show ?case by simp
qed

text \<open>Where merging changes nothing no single call does.\<close>

lemma merge_fixed:
  assumes "fold (merge_call files s ident states) calls x = x" "c \<in> set calls"
  shows "merge_call files s ident states c x = x"
  using assms
proof (induction calls)
  case Nil
  then show ?case by simp
next
  case (Cons c' calls)
  let ?f = "merge_call files s ident states"
  have "grown (?f c' x) (fold ?f calls (?f c' x))" by (rule grown_merge)
  with Cons.prems(1) have "grown (?f c' x) x" by simp
  moreover have "grown x (?f c' x)" using merge_call_apply grown_apply by metis
  ultimately have "?f c' x = x" by (rule grown_antisym)
  with Cons show ?case by auto
qed

text \<open>What has been merged once need not be merged again, as long as the callees stay as they are.\<close>

lemma merge_call_absorbed:
  assumes "declarationKey (ca_callee c) \<noteq> ident" "grown (merge_call files s ident states c x) z" "grown x z"
  shows "merge_call files s ident states c z = z"
proof -
  obtain cm impure st where z: "z = (cm, impure, st)" by (metis prod_cases3)
  obtain cm0 impure0 st0 where x: "x = (cm0, impure0, st0)" by (metis prod_cases3)
  have "ef_parameters st = ef_parameters st0" using assms(3) by (simp add: grown_def x z)
  then have "merge_call files s ident states c z =
      apply_contribution (call_contribution files s c (ef_parameters st0) (callee_state ident states c st0)) z"
    using assms(1) by (simp add: z merge_call_contribution callee_state_def)
  moreover have "merge_call files s ident states c x =
      apply_contribution (call_contribution files s c (ef_parameters st0) (callee_state ident states c st0)) x"
    by (simp add: x merge_call_contribution)
  ultimately show ?thesis using apply_absorbed assms(2) by metis
qed

lemma merge_again:
  assumes "\<forall>c\<in>set calls. declarationKey (ca_callee c) \<noteq> ident"
    and "grown (fold (merge_call files s ident states) calls x) z" "grown x z"
  shows "fold (merge_call files s ident states) calls z = z"
  using assms
proof (induction calls arbitrary: x)
  case Nil
  then show ?case by simp
next
  case (Cons c calls)
  let ?f = "merge_call files s ident states"
  have "grown (?f c x) (fold ?f calls (?f c x))" by (rule grown_merge)
  with Cons.prems(2) have z: "grown (?f c x) z" by (auto intro: merge_grown_trans)
  then have "?f c z = z" using Cons.prems(1,3) by (intro merge_call_absorbed [of c ident files s states x]) simp_all
  moreover have "fold ?f calls z = z" using Cons.prems z by (intro Cons.IH [of "?f c x"]) auto
  ultimately show ?case by simp
qed

section \<open>States\<close>

definition declaration_keys :: "full_file list \<Rightarrow> decl_key fset" where
  "declaration_keys files = fset_of_list (map declarationKey (buildDeclarations files))"

definition parameter_places :: "(nat \<times> nat \<times> bool) list \<Rightarrow> nat fset" where
  "parameter_places parameters = fset_of_list (map (\<lambda>(n, p, r). p) parameters)"

definition bounded_state :: "full_file list \<Rightarrow> effect_state \<Rightarrow> bool" where
  "bounded_state files st \<longleftrightarrow> ef_reads st |\<subseteq>| declaration_keys files \<and> ef_writes st |\<subseteq>| declaration_keys files \<and>
    ef_mutated st |\<subseteq>| parameter_places (ef_parameters st)"

lemma resolveSyntax_key: "resolveSyntax files s i n = Some d \<Longrightarrow> declarationKey d |\<in>| declaration_keys files"
  by (auto simp: resolveSyntax_def declaration_by_key_def declaration_keys_def fset_of_list_elem find_Some_iff
      split: if_splits option.splits)

lemma parameter_place: "map_of parameters j = Some (p, r) \<Longrightarrow> p |\<in>| parameter_places parameters"
  by (force simp: parameter_places_def fset_of_list_elem dest: map_of_SomeD)

lemma argument_effect_bounded:
  assumes "argument_effect files s c arguments parameters k = (ok, W, M)"
  shows "W |\<subseteq>| declaration_keys files \<and> M |\<subseteq>| parameter_places parameters"
  using assms
  by (auto simp: argument_effect_def Let_def resolveSyntax_key parameter_place split: if_splits option.splits prod.splits bool.splits)

lemma arguments_effect_bounded:
  assumes "arguments_effect files s c arguments parameters ks = (ok, W, M)"
  shows "W |\<subseteq>| declaration_keys files \<and> M |\<subseteq>| parameter_places parameters"
proof -
  let ?step = "\<lambda>k (ok, W, M). case argument_effect files s c arguments parameters k of (ok', W', M') \<Rightarrow>
      (ok \<and> ok', W |\<union>| W', M |\<union>| M')"
  have "case fold ?step ks (ok0, W0, M0) of (ok, W, M) \<Rightarrow>
      W |\<subseteq>| declaration_keys files \<and> M |\<subseteq>| parameter_places parameters"
    if "W0 |\<subseteq>| declaration_keys files \<and> M0 |\<subseteq>| parameter_places parameters" for ok0 W0 M0
    using that
  proof (induction ks arbitrary: ok0 W0 M0)
    case Nil
    then show ?case by simp
  next
    case (Cons k ks)
    obtain ok' W' M' where e: "argument_effect files s c arguments parameters k = (ok', W', M')" by (metis prod_cases3)
    from argument_effect_bounded [OF e] Cons.prems show ?case using Cons.IH [of "W0 |\<union>| W'" "M0 |\<union>| M'"] by (simp add: e)
  qed
  from this [of "{||}" "{||}" True] assms show ?thesis by (simp add: arguments_effect_def)
qed

lemma mutation_effect_bounded:
  assumes "mutation_effect files s c parameters mutated = (ok, W, M)"
  shows "W |\<subseteq>| declaration_keys files \<and> M |\<subseteq>| parameter_places parameters"
  using assms arguments_effect_bounded by (fastforce simp: mutation_effect_def split: option.splits)

text \<open>The calls between the functions, and what the direct effects of the functions reached amount to.\<close>

definition effect_calls :: "effect_states \<Rightarrow> (decl_key \<times> decl_key) set" where
  "effect_calls direct = {(f, declarationKey (ca_callee c)) |f c. \<exists>st. direct f = Some st \<and> c \<in> set (ef_calls st)}"

lemma effect_callsI:
  "direct f = Some d \<Longrightarrow> c \<in> set (ef_calls d) \<Longrightarrow> (f, declarationKey (ca_callee c)) \<in> effect_calls direct"
  unfolding effect_calls_def by blast

definition reads_reached :: "effect_states \<Rightarrow> decl_key \<Rightarrow> decl_key set" where
  "reads_reached direct f =
    {x. \<exists>g st. (f, g) \<in> (effect_calls direct)\<^sup>* \<and> direct g = Some st \<and> x |\<in>| ef_reads st}"

definition impure_reached :: "effect_states \<Rightarrow> decl_key \<Rightarrow> bool" where
  "impure_reached direct f \<longleftrightarrow>
    (\<exists>g st. (f, g) \<in> (effect_calls direct)\<^sup>* \<and> direct g = Some st \<and> ef_intrinsicImpure st)"

definition state_ok :: "full_file list \<Rightarrow> effect_states \<Rightarrow> decl_key \<Rightarrow> effect_state \<Rightarrow> bool" where
  "state_ok files direct f st \<longleftrightarrow> (\<exists>d. direct f = Some d \<and> ef_calls st = ef_calls d \<and> ef_parameters st = ef_parameters d \<and>
    bounded_state files st \<and> (ef_complete st \<longrightarrow> ef_complete d) \<and> (ef_intrinsicImpure d \<longrightarrow> ef_intrinsicImpure st) \<and>
    ef_reads d |\<subseteq>| ef_reads st \<and> ef_writes d |\<subseteq>| ef_writes st \<and> ef_mutated d |\<subseteq>| ef_mutated st \<and>
    fset (ef_reads st) \<subseteq> reads_reached direct f \<and> (ef_intrinsicImpure st \<longrightarrow> impure_reached direct f))"

lemma state_okD:
  assumes "state_ok files direct f st"
  obtains d where "direct f = Some d" "ef_calls st = ef_calls d" "ef_parameters st = ef_parameters d"
    "bounded_state files st" "ef_complete st \<Longrightarrow> ef_complete d" "ef_intrinsicImpure d \<Longrightarrow> ef_intrinsicImpure st"
    "ef_reads d |\<subseteq>| ef_reads st" "ef_writes d |\<subseteq>| ef_writes st" "ef_mutated d |\<subseteq>| ef_mutated st"
    "fset (ef_reads st) \<subseteq> reads_reached direct f" "ef_intrinsicImpure st \<Longrightarrow> impure_reached direct f"
  using assms unfolding state_ok_def by blast

lemma reached_step:
  assumes "(f, g) \<in> effect_calls direct"
  shows "reads_reached direct g \<subseteq> reads_reached direct f" "impure_reached direct g \<Longrightarrow> impure_reached direct f"
  using assms unfolding reads_reached_def impure_reached_def by (blast intro: converse_rtrancl_into_rtrancl)+

lemma state_ok_direct:
  assumes "direct f = Some d" "bounded_state files d"
  shows "state_ok files direct f d"
proof -
  have "fset (ef_reads d) \<subseteq> reads_reached direct f" "ef_intrinsicImpure d \<Longrightarrow> impure_reached direct f"
    using assms(1) unfolding reads_reached_def impure_reached_def by blast+
  with assms show ?thesis unfolding state_ok_def by simp
qed

definition with_flags :: "bool \<Rightarrow> bool \<Rightarrow> bool \<Rightarrow> effect_state \<Rightarrow> effect_state" where
  "with_flags cm impure pure st = st\<lparr>ef_complete := cm, ef_intrinsicImpure := impure, ef_pure := pure\<rparr>"

definition merge_ok :: "full_file list \<Rightarrow> effect_states \<Rightarrow> decl_key \<Rightarrow> merge_state \<Rightarrow> bool" where
  "merge_ok files direct f = (\<lambda>(cm, impure, st). state_ok files direct f st \<and> (impure \<longrightarrow> impure_reached direct f))"

lemma merge_ok_call:
  assumes ok: "merge_ok files direct ident x" and c: "c \<in> set (ef_calls (snd (snd x)))"
    and states: "\<And>f st. states f = Some st \<Longrightarrow> state_ok files direct f st"
  shows "merge_ok files direct ident (merge_call files s ident states c x)"
proof -
  obtain cm impure st where x: "x = (cm, impure, st)" by (metis prod_cases3)
  from ok have st: "state_ok files direct ident st" "impure \<Longrightarrow> impure_reached direct ident"
    by (auto simp: merge_ok_def x)
  let ?callee = "declarationKey (ca_callee c)"
  from st(1) obtain d where d: "direct ident = Some d" "ef_calls st = ef_calls d" by (rule state_okD)
  then have step: "(ident, ?callee) \<in> effect_calls direct" using c by (intro effect_callsI) (simp_all add: x)
  show ?thesis
  proof (cases "callee_state ident states c st")
    case None
    then show ?thesis using ok
      by (simp add: x merge_call_contribution call_contribution_def apply_contribution_def merge_ok_def)
  next
    case (Some callee)
    have callee: "state_ok files direct ?callee callee"
      using Some states st(1) by (auto simp: callee_state_def split: if_splits)
    show ?thesis
    proof (cases "ef_complete callee")
      case False
      then show ?thesis using ok Some
        by (simp add: x merge_call_contribution call_contribution_def apply_contribution_def merge_ok_def)
    next
      case True
      obtain good W M where e: "(if ef_mutated callee = {||} then (True, {||}, {||})
          else mutation_effect files s c (ef_parameters st) (ef_mutated callee)) = (good, W, M)" by (metis prod_cases3)
      have WM: "W |\<subseteq>| declaration_keys files" "M |\<subseteq>| parameter_places (ef_parameters st)"
        using e mutation_effect_bounded by (auto split: if_splits)
      let ?st = "st\<lparr>ef_reads := ef_reads st |\<union>| ef_reads callee, ef_writes := ef_writes st |\<union>| (ef_writes callee |\<union>| W),
          ef_mutated := ef_mutated st |\<union>| M\<rparr>"
      have m: "merge_call files s ident states c x = (cm \<and> good, impure \<or> ef_intrinsicImpure callee, ?st)"
        by (simp add: x merge_call_contribution call_contribution_def apply_contribution_def Some True e)
      from callee have cb: "bounded_state files callee" "fset (ef_reads callee) \<subseteq> reads_reached direct ?callee"
        "ef_intrinsicImpure callee \<Longrightarrow> impure_reached direct ?callee" by (auto elim: state_okD)
      have "state_ok files direct ident ?st"
        using st(1) cb WM reached_step(1) [OF step] unfolding state_ok_def bounded_state_def by auto
      moreover have "impure_reached direct ident" if "impure \<or> ef_intrinsicImpure callee"
        using that st(2) cb(3) reached_step(2) [OF step] by blast
      ultimately show ?thesis by (simp add: m merge_ok_def)
    qed
  qed
qed

lemma merge_ok_fold:
  assumes "\<And>f st. states f = Some st \<Longrightarrow> state_ok files direct f st"
    and "merge_ok files direct ident x" "set calls \<subseteq> set (ef_calls (snd (snd x)))"
  shows "merge_ok files direct ident (fold (merge_call files s ident states) calls x)"
  using assms(2-)
proof (induction calls arbitrary: x)
  case Nil
  then show ?case by simp
next
  case (Cons c calls)
  let ?y = "merge_call files s ident states c x"
  have "grown x ?y" using merge_call_apply grown_apply by metis
  then have "ef_calls (snd (snd ?y)) = ef_calls (snd (snd x))" by (auto simp: grown_def split: prod.splits)
  moreover have "merge_ok files direct ident ?y" using Cons.prems assms(1) by (intro merge_ok_call) auto
  ultimately show ?case using Cons.IH [of ?y] Cons.prems by simp
qed

section \<open>One merge\<close>

definition merge_all ::
  "full_file list \<Rightarrow> reference_state \<Rightarrow> decl_key \<Rightarrow> effect_states \<Rightarrow> effect_state \<Rightarrow> merge_state" where
  "merge_all files s ident states st =
    fold (merge_call files s ident states) (ef_calls st) (ef_complete st, ef_intrinsicImpure st, st)"

definition settled :: "full_file list \<Rightarrow> reference_state \<Rightarrow> decl_key \<Rightarrow> effect_states \<Rightarrow> effect_state \<Rightarrow> bool" where
  "settled files s ident states st \<longleftrightarrow>
    merge_all files s ident states st = (ef_complete st, ef_intrinsicImpure st, st)"

lemma merge_all_grown:
  assumes "merge_all files s ident states st = (cm, impure, m)"
  shows "grown (ef_complete st, ef_intrinsicImpure st, st) (cm, impure, m)"
  using grown_merge assms unfolding merge_all_def by metis

lemma mergeFunctionEffects_result:
  assumes "merge_all files s ident states st = (cm, impure, m)"
  shows "snd (mergeFunctionEffects files s ident states st) =
      with_flags cm impure (purity (with_flags cm impure False m)) m"
  using assms by (simp add: mergeFunctionEffects_def merge_all_def with_flags_def purity_def Let_def)

lemma merge_unchanged:
  assumes "ef_pure st = purity st"
  shows "\<not> fst (mergeFunctionEffects files s ident states st) \<longleftrightarrow> settled files s ident states st"
proof -
  obtain cm impure m where m: "merge_all files s ident states st = (cm, impure, m)" by (metis prod_cases3)
  note g = merge_all_grown [OF m]
  have "settled files s ident states st" if "\<not> fst (mergeFunctionEffects files s ident states st)"
  proof -
    from that have eq: "cm = ef_complete st" "impure = ef_intrinsicImpure st" "fcard (ef_reads m) = fcard (ef_reads st)"
      "fcard (ef_writes m) = fcard (ef_writes st)" "fcard (ef_mutated m) = fcard (ef_mutated st)"
      using m by (simp_all add: mergeFunctionEffects_def merge_all_def Let_def)
    with g have "ef_reads st = ef_reads m" "ef_writes st = ef_writes m" "ef_mutated st = ef_mutated m"
      by (auto simp: grown_def intro!: fcard_seteq)
    with g eq show ?thesis by (auto simp: settled_def m grown_def intro!: effect_state.equality)
  qed
  moreover have "\<not> fst (mergeFunctionEffects files s ident states st)" if "settled files s ident states st"
    using that assms by (simp add: settled_def mergeFunctionEffects_def merge_all_def [symmetric] Let_def purity_def) blast
  ultimately show ?thesis by blast
qed

lemma merge_settled:
  assumes "settled files s ident states st" "ef_pure st = purity st"
  shows "snd (mergeFunctionEffects files s ident states st) = st"
proof -
  note fixed = assms(1) [unfolded settled_def]
  have "purity (with_flags (ef_complete st) (ef_intrinsicImpure st) False st) = purity st"
    by (simp add: with_flags_def purity_def)
  then have "purity (with_flags (ef_complete st) (ef_intrinsicImpure st) False st) = ef_pure st"
    using assms(2) by (rule trans [OF _ sym])
  then show ?thesis
    unfolding mergeFunctionEffects_result [OF fixed] by (simp only:) (simp add: with_flags_def)
qed

lemma merge_result_ok:
  assumes st: "state_ok files direct ident st"
    and states: "\<And>f st. states f = Some st \<Longrightarrow> state_ok files direct f st"
    and merged: "merged = snd (mergeFunctionEffects files s ident states st)"
  shows "state_ok files direct ident merged" "ef_pure merged = purity merged"
proof -
  obtain cm impure m where m: "merge_all files s ident states st = (cm, impure, m)" by (metis prod_cases3)
  have mm: "merged = with_flags cm impure (purity (with_flags cm impure False m)) m"
    unfolding merged by (rule mergeFunctionEffects_result [OF m])
  show "ef_pure merged = purity merged" by (simp add: mm with_flags_def purity_def)
  have "merge_ok files direct ident (ef_complete st, ef_intrinsicImpure st, st)"
    using st by (auto simp: merge_ok_def elim: state_okD)
  then have "merge_ok files direct ident (cm, impure, m)"
    unfolding m [symmetric] merge_all_def using states by (intro merge_ok_fold) auto
  moreover have "cm \<longrightarrow> ef_complete st" "ef_intrinsicImpure st \<longrightarrow> impure" using merge_all_grown [OF m] by (auto simp: grown_def)
  ultimately show "state_ok files direct ident merged"
    using st unfolding mm merge_ok_def state_ok_def with_flags_def bounded_state_def by auto
qed

text \<open>A merge that changes something uses up a finite potential.\<close>

definition potential :: "full_file list \<Rightarrow> effect_state \<Rightarrow> nat" where
  "potential files st = of_bool (ef_complete st) + of_bool (\<not> ef_intrinsicImpure st) +
    (fcard (declaration_keys files) - fcard (ef_reads st)) + (fcard (declaration_keys files) - fcard (ef_writes st)) +
    (fcard (parameter_places (ef_parameters st)) - fcard (ef_mutated st))"

lemma missing_le: "A |\<subseteq>| B \<Longrightarrow> fcard U - fcard B \<le> fcard U - fcard A"
  by (simp add: diff_le_mono2 fcard_mono)

lemma missing_less: "A |\<subset>| B \<Longrightarrow> B |\<subseteq>| U \<Longrightarrow> fcard U - fcard B < fcard U - fcard A"
  using fcard_mono [of B U] pfsubset_fcard_mono [of A B] by simp

lemma sum_of_five_less:
  fixes a :: nat
  assumes "a \<le> a'" "b \<le> b'" "c \<le> c'" "d \<le> d'" "e \<le> e'" "a < a' \<or> b < b' \<or> c < c' \<or> d < d' \<or> e < e'"
  shows "a + b + c + d + e < a' + b' + c' + d' + e'"
  using assms by linarith

lemma merge_potential:
  assumes st: "state_ok files direct ident st" and pure: "ef_pure st = purity st"
    and states: "\<And>f st. states f = Some st \<Longrightarrow> state_ok files direct f st"
    and changed: "\<not> settled files s ident states st"
  shows "potential files (snd (mergeFunctionEffects files s ident states st)) < potential files st"
proof -
  obtain cm impure m where m: "merge_all files s ident states st = (cm, impure, m)" by (metis prod_cases3)
  let ?r = "snd (mergeFunctionEffects files s ident states st)"
  have r: "?r = with_flags cm impure (purity (with_flags cm impure False m)) m"
    by (rule mergeFunctionEffects_result [OF m])
  have "state_ok files direct ident ?r" using st states by (rule merge_result_ok) simp_all
  then have b: "bounded_state files ?r" by (rule state_okD)
  have g: "cm \<longrightarrow> ef_complete st" "ef_intrinsicImpure st \<longrightarrow> impure" "ef_reads st |\<subseteq>| ef_reads m"
    "ef_writes st |\<subseteq>| ef_writes m" "ef_mutated st |\<subseteq>| ef_mutated m" "ef_parameters m = ef_parameters st"
    "ef_complete m = ef_complete st" "ef_intrinsicImpure m = ef_intrinsicImpure st" "ef_pure m = ef_pure st"
    "ef_calls m = ef_calls st"
    using merge_all_grown [OF m] by (simp_all add: grown_def)
  have bm: "ef_reads m |\<subseteq>| declaration_keys files" "ef_writes m |\<subseteq>| declaration_keys files"
    "ef_mutated m |\<subseteq>| parameter_places (ef_parameters st)"
    using b g(6) by (simp_all add: bounded_state_def r with_flags_def)
  let ?K = "fcard (declaration_keys files)" and ?P = "fcard (parameter_places (ef_parameters st))"
  have le: "of_bool cm \<le> (of_bool (ef_complete st) :: nat)" "of_bool (\<not> impure) \<le> (of_bool (\<not> ef_intrinsicImpure st) :: nat)"
    "?K - fcard (ef_reads m) \<le> ?K - fcard (ef_reads st)" "?K - fcard (ef_writes m) \<le> ?K - fcard (ef_writes st)"
    "?P - fcard (ef_mutated m) \<le> ?P - fcard (ef_mutated st)"
    using g(1-5) by (auto intro: missing_le)
  have "of_bool cm < (of_bool (ef_complete st) :: nat) \<or> of_bool (\<not> impure) < (of_bool (\<not> ef_intrinsicImpure st) :: nat) \<or>
    ?K - fcard (ef_reads m) < ?K - fcard (ef_reads st) \<or> ?K - fcard (ef_writes m) < ?K - fcard (ef_writes st) \<or>
    ?P - fcard (ef_mutated m) < ?P - fcard (ef_mutated st)"
  proof (rule ccontr)
    assume none: "\<not> ?thesis"
    have "cm = ef_complete st" "impure = ef_intrinsicImpure st" using none g(1,2) by auto
    moreover have "ef_reads m = ef_reads st" using none missing_less [OF _ bm(1), of "ef_reads st"] g(3) by blast
    moreover have "ef_writes m = ef_writes st" using none missing_less [OF _ bm(2), of "ef_writes st"] g(4) by blast
    moreover have "ef_mutated m = ef_mutated st" using none missing_less [OF _ bm(3), of "ef_mutated st"] g(5) by blast
    ultimately have "settled files s ident states st"
      using g(6-) by (auto simp: settled_def m intro!: effect_state.equality)
    with changed show False ..
  qed
  with le have "of_bool cm + of_bool (\<not> impure) + (?K - fcard (ef_reads m)) + (?K - fcard (ef_writes m)) +
      (?P - fcard (ef_mutated m)) < potential files st"
    unfolding potential_def by (rule sum_of_five_less)
  moreover have "potential files (with_flags cm impure p m) = of_bool cm + of_bool (\<not> impure) +
      (?K - fcard (ef_reads m)) + (?K - fcard (ef_writes m)) + (?P - fcard (ef_mutated m))" for p
    by (simp add: potential_def with_flags_def g(6))
  ultimately show ?thesis by (simp only: r)
qed

section \<open>The work list ends\<close>

lemma merge_call_cong:
  "declarationKey (ca_callee c) = ident \<or> states (declarationKey (ca_callee c)) = states' (declarationKey (ca_callee c)) \<Longrightarrow>
    merge_call files s ident states c = merge_call files s ident states' c"
  unfolding merge_call_def by auto

lemma settled_cong:
  assumes "\<And>c. c \<in> set (ef_calls st) \<Longrightarrow> declarationKey (ca_callee c) \<noteq> ident \<Longrightarrow>
    states (declarationKey (ca_callee c)) = states' (declarationKey (ca_callee c))"
  shows "settled files s ident states st = settled files s ident states' st"
proof -
  have "fold (merge_call files s ident states) (ef_calls st) x = fold (merge_call files s ident states') (ef_calls st) x" for x
    using assms by (intro fold_cong merge_call_cong refl) auto
  then show ?thesis unfolding settled_def merge_all_def by simp
qed

lemma merge_call_with_flags:
  assumes "declarationKey (ca_callee c) \<noteq> ident" "merge_call files s ident states c (cm, impure, m) = (cm', impure', m')"
  shows "merge_call files s ident states c (cm, impure, with_flags a b p m) = (cm', impure', with_flags a b p m')"
  using assms
  by (auto simp: merge_call_contribution callee_state_def apply_contribution_def with_flags_def)

lemma settled_after_merge:
  assumes other: "\<forall>c\<in>set (ef_calls st). declarationKey (ca_callee c) \<noteq> ident"
  shows "settled files s ident states (snd (mergeFunctionEffects files s ident states st))"
proof -
  let ?f = "merge_call files s ident states"
  obtain cm impure m where m: "merge_all files s ident states st = (cm, impure, m)" by (metis prod_cases3)
  have calls: "ef_calls m = ef_calls st" using merge_all_grown [OF m] by (simp add: grown_def)
  have again: "fold ?f (ef_calls st) (cm, impure, m) = (cm, impure, m)"
    using m merge_all_grown [OF m] other unfolding merge_all_def by (intro merge_again) (simp_all add: grown_refl)
  have "?f c (cm, impure, with_flags a b p m) = (cm, impure, with_flags a b p m)" if "c \<in> set (ef_calls st)" for c a b p
    using merge_call_with_flags merge_fixed [OF again that] other that by metis
  then have fixed: "fold ?f cs (cm, impure, with_flags a b p m) = (cm, impure, with_flags a b p m)"
    if "set cs \<subseteq> set (ef_calls st)" for cs a b p
    using that by (induction cs) auto
  have "fold ?f (ef_calls m) (cm, impure, with_flags cm impure p m) = (cm, impure, with_flags cm impure p m)" for p
    by (rule fixed) (simp add: calls)
  then show ?thesis
    unfolding mergeFunctionEffects_result [OF m] settled_def merge_all_def by (simp add: with_flags_def)
qed

definition work_ok ::
  "full_file list \<Rightarrow> reference_state \<Rightarrow> effect_states \<Rightarrow> decl_key list \<Rightarrow> decl_key list \<Rightarrow> effect_states \<Rightarrow> bool" where
  "work_ok files s direct fns queue states \<longleftrightarrow> set queue \<subseteq> set fns \<and> dom states = set fns \<and>
    (\<forall>f st. states f = Some st \<longrightarrow> state_ok files direct f st \<and> ef_pure st = purity st \<and>
      (f \<in> set queue \<or> settled files s f states st))"

lemma work_okD:
  assumes "work_ok files s direct fns queue states"
  shows "set queue \<subseteq> set fns" "dom states = set fns" "\<And>f st. states f = Some st \<Longrightarrow> state_ok files direct f st"
    "\<And>f st. states f = Some st \<Longrightarrow> ef_pure st = purity st"
    "\<And>f st. states f = Some st \<Longrightarrow> f \<notin> set queue \<Longrightarrow> settled files s f states st"
  using assms unfolding work_ok_def by blast+

lemma set_push_callers: "set (push_callers fs queue) = set fs \<union> set queue"
  by (induction fs arbitrary: queue) auto

lemma callers_of_call:
  assumes "f \<in> set fns" "direct f = Some d" "c \<in> set (ef_calls d)" "declarationKey (ca_callee c) = callee"
  shows "f \<in> set (callers_of fns direct callee)"
  using assms by (auto simp: callers_of_def intro!: bexI [of _ f])

lemma callers_of_subset: "set (callers_of fns direct callee) \<subseteq> set fns"
  by (auto simp: callers_of_def split: option.splits)

lemma work_step_same:
  assumes w: "work_ok files s direct fns (ident # rest) states" and st: "states ident = Some st"
    and settled: "settled files s ident states st"
  shows "work_ok files s direct fns rest (states(ident \<mapsto> snd (mergeFunctionEffects files s ident states st)))"
proof -
  have "snd (mergeFunctionEffects files s ident states st) = st"
    using settled work_okD(4) [OF w st] by (rule merge_settled)
  then have "states(ident \<mapsto> snd (mergeFunctionEffects files s ident states st)) = states" using st by auto
  with w st settled show ?thesis unfolding work_ok_def by (metis insert_subset list.set(2) option.inject set_ConsD)
qed

lemma work_step_changed:
  assumes w: "work_ok files s direct fns (ident # rest) states" and st: "states ident = Some st"
  defines "states' \<equiv> states(ident \<mapsto> snd (mergeFunctionEffects files s ident states st))"
  shows "work_ok files s direct fns (push_callers (callers_of fns direct ident) rest) states'"
proof -
  let ?r = "snd (mergeFunctionEffects files s ident states st)"
  let ?queue = "push_callers (callers_of fns direct ident) rest"
  note W = work_okD [OF w]
  have r: "state_ok files direct ident ?r" "ef_pure ?r = purity ?r"
    using merge_result_ok [OF W(3) [OF st] W(3)] by blast+
  have "set ?queue \<subseteq> set fns" using W(1) callers_of_subset by (auto simp: set_push_callers)
  moreover have "dom states' = set fns" using W(1,2) by (auto simp: states'_def)
  moreover have "state_ok files direct f st' \<and> ef_pure st' = purity st' \<and> (f \<in> set ?queue \<or> settled files s f states' st')"
    if f: "states' f = Some st'" for f st'
  proof -
    have ok: "state_ok files direct f st'" "ef_pure st' = purity st'"
      using f r W(3,4) by (auto simp: states'_def split: if_splits)
    have "settled files s f states' st'" if out: "f \<notin> set ?queue"
    proof -
      from ok(1) obtain d where d: "direct f = Some d" "ef_calls st' = ef_calls d" by (rule state_okD)
      have fns: "f \<in> set fns" using f \<open>dom states' = set fns\<close> by blast
      have none: "\<forall>c\<in>set (ef_calls st'). declarationKey (ca_callee c) \<noteq> ident"
      proof
        fix c
        assume "c \<in> set (ef_calls st')"
        then have "f \<in> set (callers_of fns direct (declarationKey (ca_callee c)))"
          using fns d by (intro callers_of_call) simp_all
        with out show "declarationKey (ca_callee c) \<noteq> ident" unfolding set_push_callers by blast
      qed
      have same: "settled files s f states' st' = settled files s f states st'"
        using none by (intro settled_cong) (auto simp: states'_def)
      show ?thesis
      proof (cases "f = ident")
        case True
        have "ef_calls st = ef_calls st'"
          using W(3) [OF st] d True by (auto elim!: state_okD)
        with none True have "settled files s ident states ?r" by (intro settled_after_merge) simp
        with same True f show ?thesis by (simp add: states'_def)
      next
        case False
        with f out W(5) [of f st'] same show ?thesis by (simp add: states'_def set_push_callers)
      qed
    qed
    with ok show ?thesis by blast
  qed
  ultimately show ?thesis unfolding work_ok_def by blast
qed

definition total_potential :: "full_file list \<Rightarrow> decl_key list \<Rightarrow> effect_states \<Rightarrow> nat" where
  "total_potential files fns states = (\<Sum>f\<in>set fns. potential files (the (states f)))"

lemma total_potential_less:
  assumes "ident \<in> set fns" "potential files st' < potential files (the (states ident))"
  shows "total_potential files fns (states(ident \<mapsto> st')) < total_potential files fns states"
  unfolding total_potential_def using assms by (intro sum_strict_mono_ex1) (auto intro!: bexI [of _ ident])

lemma effects_loop_ends:
  assumes "work_ok files s direct fns queue states"
  shows "\<exists>r. effects_loop files s (callers_of fns direct) queue states = Some r \<and> work_ok files s direct fns [] r"
  using assms
proof (induction "total_potential files fns states" arbitrary: queue states rule: less_induct)
  case less
  have "\<exists>r. effects_loop files s (callers_of fns direct) queue states = Some r \<and> work_ok files s direct fns [] r"
    if "work_ok files s direct fns queue states" for queue
    using that
  proof (induction queue)
    case Nil
    then show ?case by (simp add: effects_loop.simps)
  next
    case (Cons ident rest)
    note W = work_okD [OF Cons.prems]
    from W(1,2) obtain st where st: "states ident = Some st" by auto
    obtain changed merged where m: "mergeFunctionEffects files s ident states st = (changed, merged)" by force
    note unchanged = merge_unchanged [OF W(4) [OF st], of files s ident states]
    show ?case
    proof (cases changed)
      case False
      then have settled: "settled files s ident states st" using unchanged by (simp add: m)
      have "merged = st" using merge_settled [OF settled W(4) [OF st]] by (simp add: m)
      then have "states(ident \<mapsto> merged) = states" using st by auto
      with Cons.IH work_step_same [OF Cons.prems st settled] False show ?thesis
        by (subst effects_loop.simps) (simp add: st m)
    next
      case True
      then have "\<not> settled files s ident states st" using unchanged by (simp add: m)
      then have "potential files merged < potential files st"
        using merge_potential [OF W(3) [OF st] W(4) [OF st] W(3)] m by (metis snd_conv)
      then have "total_potential files fns (states(ident \<mapsto> merged)) < total_potential files fns states"
        using W(1) st by (intro total_potential_less) auto
      from less.hyps [OF this] work_step_changed [OF Cons.prems st] True show ?thesis
        by (subst effects_loop.simps) (simp add: st m)
    qed
  qed
  from this [OF less.prems] show ?case .
qed

section \<open>What the result means\<close>

lemma applyDirect_ok:
  "bounded_state files st \<Longrightarrow> bounded_state files (applyDirectReferenceEffect files s i n st) \<and>
    ef_calls (applyDirectReferenceEffect files s i n st) = ef_calls st"
  by (auto simp: applyDirectReferenceEffect_def bounded_state_def Let_def resolveSyntax_key parameter_place
      split: option.split prod.split bool.split)

lemma effect_visit_ok:
  "bounded_state files st \<Longrightarrow> bounded_state files (effect_visit files s i fnode known n st) \<and>
    ef_calls (effect_visit files s i fnode known n st) = ef_calls st"
proof (induction n arbitrary: st)
  case (Node j k t a b e fs cs)
  let ?n = "Node j k t a b e fs cs"
  have entered: "bounded_state files (effect_node files s i known ?n st)" "ef_calls (effect_node files s i known ?n st) = ef_calls st"
    using Node.prems applyDirect_ok [of files st s i ?n]
    by (auto simp: effect_node_def bounded_state_def split: kind.split)
  have "bounded_state files (fold (effect_visit files s i fnode known) ds st') \<and>
      ef_calls (fold (effect_visit files s i fnode known) ds st') = ef_calls st'"
    if "bounded_state files st'" "set ds \<subseteq> set cs" for ds st'
    using that by (induction ds arbitrary: st') (simp_all add: Node.IH(2))
  from this [OF entered(1)] entered(2) Node.prems show ?case
    by (auto simp: Let_def bounded_state_def)
qed

lemma direct_effects_ok:
  "bounded_state files (directFunctionEffects files s g d)"
  "ef_pure (directFunctionEffects files s g d) = purity (directFunctionEffects files s g d)"
  "ef_complete (directFunctionEffects files s g d) \<Longrightarrow> ef_calls (directFunctionEffects files s g d) = Outgoing g d"
  "set (ef_calls (directFunctionEffects files s g d)) \<subseteq> set (Outgoing g d)"
proof -
  let ?m = "ff_semantic (files ! de_file d)"
  define impure where "impure = list_ex (\<lambda>sy. sy_kind sy = SymbolLocal \<and>
      (case Parent (sm_walk ?m) (sy_decl sy) of None \<Rightarrow> False | Some p \<Rightarrow> HasChildToken p KwStatic))
      (filter (\<lambda>sy. map_option n_id (sy_function sy) = Some (n_id (de_node d))) (sm_symbols ?m))"
  define parameters where "parameters = indexEffectParameters ?m (de_node d)
      (filter (\<lambda>sy. map_option n_id (sy_function sy) = Some (n_id (de_node d))) (sm_symbols ?m))"
  define start where "start = \<lparr>ef_complete = True, ef_intrinsicImpure = impure, ef_pure = True, ef_reads = {||},
      ef_writes = {||}, ef_mutated = {||}, ef_calls = Outgoing g d, ef_parameters = parameters\<rparr>"
  define st where "st = effect_visit files s (de_file d) (n_id (de_node d)) (map (\<lambda>c. n_id (ca_node c)) (Outgoing g d)) (de_node d) start"
  have "bounded_state files start" by (simp add: bounded_state_def start_def)
  then have st: "bounded_state files st" "ef_calls st = Outgoing g d"
    unfolding st_def using effect_visit_ok [of files start] by (simp_all add: start_def)
  have cases: "directFunctionEffects files s g d = unknown_effects \<or>
      directFunctionEffects files s g d = st\<lparr>ef_pure := purity st\<rparr>"
    unfolding directFunctionEffects_def st_def start_def impure_def parameters_def by (simp add: Let_def)
  then show "bounded_state files (directFunctionEffects files s g d)"
    "ef_pure (directFunctionEffects files s g d) = purity (directFunctionEffects files s g d)"
    "ef_complete (directFunctionEffects files s g d) \<Longrightarrow> ef_calls (directFunctionEffects files s g d) = Outgoing g d"
    "set (ef_calls (directFunctionEffects files s g d)) \<subseteq> set (Outgoing g d)"
    using st by (auto simp: unknown_effects_def bounded_state_def purity_def)
qed

lemma direct_states_function:
  assumes "direct_states files s g f = Some d"
  obtains fn where "fn \<in> set (cg_functions g)" "declarationKey fn = f" "d = directFunctionEffects files s g fn"
  using assms unfolding direct_states_def by (force dest!: map_of_SomeD)

lemma dom_direct_states: "dom (direct_states files s g) = declarationKey ` set (cg_functions g)"
  by (simp add: direct_states_def dom_map_of_conv_image_fst image_image)

lemma Outgoing_key: "set (Outgoing g d) = {c \<in> set (cg_calls g). declarationKey (ca_caller c) = declarationKey d}"
  by (auto simp: Outgoing_def indexedCalls_filter)

lemma effect_calls_in: "effect_calls (direct_states files s g) \<subseteq> calls_in g"
proof -
  have "(f, declarationKey (ca_callee c)) \<in> calls_in g"
    if d: "direct_states files s g f = Some d" and c: "c \<in> set (ef_calls d)" for f c d
  proof -
    from d obtain fn where "declarationKey fn = f" "d = directFunctionEffects files s g fn" by (rule direct_states_function)
    with c direct_effects_ok(4) [of files s g fn] have "c \<in> set (cg_calls g)" "declarationKey (ca_caller c) = f"
      by (auto simp: Outgoing_key)
    then show ?thesis unfolding calls_in_def call_pair_def by force
  qed
  then show ?thesis unfolding effect_calls_def by blast
qed

lemma call_of_complete:
  assumes "direct_states files s g f = Some d" "ef_complete d" "(f, h) \<in> calls_in g"
  shows "\<exists>c\<in>set (ef_calls d). declarationKey (ca_callee c) = h"
proof -
  from assms(1) obtain fn where fn: "declarationKey fn = f" "d = directFunctionEffects files s g fn"
    by (rule direct_states_function)
  then have "ef_calls d = Outgoing g fn" using direct_effects_ok(3) assms(2) by blast
  moreover from assms(3) obtain c where "c \<in> set (cg_calls g)" "declarationKey (ca_caller c) = f"
      "declarationKey (ca_callee c) = h" by (auto simp: calls_in_def call_pair_def)
  ultimately show ?thesis using fn(1) by (auto simp: Outgoing_key)
qed

lemma direct_work_ok:
  "work_ok files s (direct_states files s g) (map declarationKey (cg_functions g)) (map declarationKey (cg_functions g))
    (direct_states files s g)"
proof -
  have "state_ok files (direct_states files s g) f d \<and> ef_pure d = purity d"
    if d: "direct_states files s g f = Some d" for f d
    using direct_states_function [OF d] state_ok_direct [of "direct_states files s g" f d files] direct_effects_ok(1,2) d
    by metis
  moreover have "f \<in> declarationKey ` set (cg_functions g)" if "direct_states files s g f = Some d" for f d
    using dom_direct_states [of files s g] that by blast
  ultimately show ?thesis unfolding work_ok_def dom_direct_states by simp
qed

text \<open>One call of a settled function.\<close>

lemma settled_call:
  assumes "settled files s f states st" "states f = Some st" "c \<in> set (ef_calls st)" "ef_complete st"
  obtains st' where "states (declarationKey (ca_callee c)) = Some st'" "ef_complete st'"
    "ef_reads st' |\<subseteq>| ef_reads st" "ef_writes st' |\<subseteq>| ef_writes st" "ef_intrinsicImpure st' \<Longrightarrow> ef_intrinsicImpure st"
proof -
  let ?callee = "declarationKey (ca_callee c)"
  let ?x = "(ef_complete st, ef_intrinsicImpure st, st)"
  have own: "callee_state f states c st = states ?callee" using assms(2) by (simp add: callee_state_def)
  have fixed: "apply_contribution (call_contribution files s c (ef_parameters st) (states ?callee)) ?x = ?x"
    using merge_fixed [of files s f states "ef_calls st" ?x c] assms(1,3)
    unfolding settled_def merge_all_def merge_call_contribution own by blast
  then have u: "co_understood (call_contribution files s c (ef_parameters st) (states ?callee))"
    using assms(4) by (simp add: apply_contribution_def)
  then obtain st' where st': "states ?callee = Some st'" "ef_complete st'"
    by (auto simp: call_contribution_def split: option.splits if_splits)
  obtain good W M where "(if ef_mutated st' = {||} then (True, {||}, {||})
      else mutation_effect files s c (ef_parameters st) (ef_mutated st')) = (good, W, M)" by (metis prod_cases3)
  then have e: "call_contribution files s c (ef_parameters st) (states ?callee) =
      \<lparr>co_understood = good, co_impure = ef_intrinsicImpure st', co_reads = ef_reads st',
       co_writes = ef_writes st' |\<union>| W, co_mutated = M\<rparr>"
    unfolding call_contribution_def st'(1) option.case using st'(2) by simp
  from fixed have eq: "ef_intrinsicImpure st \<or> ef_intrinsicImpure st' \<longleftrightarrow> ef_intrinsicImpure st"
    "st\<lparr>ef_reads := ef_reads st |\<union>| ef_reads st', ef_writes := ef_writes st |\<union>| (ef_writes st' |\<union>| W),
        ef_mutated := ef_mutated st |\<union>| M\<rparr> = st"
    unfolding e apply_contribution_def by simp_all
  from arg_cong [OF eq(2), of ef_reads] arg_cong [OF eq(2), of ef_writes]
  have "ef_reads st' |\<subseteq>| ef_reads st" "ef_writes st' |\<subseteq>| ef_writes st" by (auto simp: sup.order_iff sup_commute)
  with that st' eq(1) show thesis by blast
qed

lemma settled_reached:
  assumes w: "work_ok files s (direct_states files s g) fns [] states" and st: "states f = Some st" "ef_complete st"
    and reach: "(f, h) \<in> (calls_in g)\<^sup>*"
  shows "(f, h) \<in> (effect_calls (direct_states files s g))\<^sup>* \<and> (\<exists>st'. states h = Some st' \<and> ef_complete st' \<and>
    ef_reads st' |\<subseteq>| ef_reads st \<and> ef_writes st' |\<subseteq>| ef_writes st \<and> (ef_intrinsicImpure st' \<longrightarrow> ef_intrinsicImpure st))"
  using reach
proof (induction rule: rtrancl_induct)
  case base
  then show ?case using st by auto
next
  case (step h k)
  note W = work_okD [OF w]
  from step.IH obtain m where m: "states h = Some m" "ef_complete m" "ef_reads m |\<subseteq>| ef_reads st"
    "ef_writes m |\<subseteq>| ef_writes st" "ef_intrinsicImpure m \<longrightarrow> ef_intrinsicImpure st" by blast
  from W(3) [OF m(1)] obtain d where d: "direct_states files s g h = Some d" "ef_calls m = ef_calls d"
    "ef_complete d" using m(2) by (auto elim: state_okD)
  with call_of_complete [OF d(1) _ step.hyps(2)] obtain c
    where c: "c \<in> set (ef_calls m)" "declarationKey (ca_callee c) = k" by auto
  obtain m' where "states k = Some m'" "ef_complete m'" "ef_reads m' |\<subseteq>| ef_reads m" "ef_writes m' |\<subseteq>| ef_writes m"
    "ef_intrinsicImpure m' \<Longrightarrow> ef_intrinsicImpure m"
    using settled_call [OF W(5) [OF m(1)] m(1) c(1) m(2)] c(2) by auto
  moreover have "(h, k) \<in> effect_calls (direct_states files s g)" 
    using effect_callsI [of "direct_states files s g" h d c] c d(1,2) by simp
  ultimately show ?case using step.IH m by (meson fsubset_trans rtrancl.rtrancl_into_rtrancl)
qed

lemma settled_meaning:
  assumes w: "work_ok files s (direct_states files s g) fns [] states" and st: "states f = Some st" "ef_complete st"
  shows "fset (ef_reads st) = {x. \<exists>h d. (f, h) \<in> (calls_in g)\<^sup>* \<and> direct_states files s g h = Some d \<and> x |\<in>| ef_reads d}"
    and "(f, h) \<in> (calls_in g)\<^sup>* \<Longrightarrow> direct_states files s g h = Some d \<Longrightarrow> ef_writes d |\<subseteq>| ef_writes st"
    and "(f, h) \<in> (calls_in g)\<^sup>* \<Longrightarrow> direct_states files s g h = Some d \<Longrightarrow> ef_intrinsicImpure d \<Longrightarrow> ef_intrinsicImpure st"
    and "(f, h) \<in> (calls_in g)\<^sup>* \<Longrightarrow> \<exists>st'. states h = Some st' \<and> ef_complete st'"
proof -
  note W = work_okD [OF w]
  have below: "ef_reads d |\<subseteq>| ef_reads st \<and> ef_writes d |\<subseteq>| ef_writes st \<and>
      (ef_intrinsicImpure d \<longrightarrow> ef_intrinsicImpure st)"
    if reach: "(f, h) \<in> (calls_in g)\<^sup>*" and d: "direct_states files s g h = Some d" for h d
  proof -
    obtain m where m: "states h = Some m" "ef_reads m |\<subseteq>| ef_reads st" "ef_writes m |\<subseteq>| ef_writes st"
      "ef_intrinsicImpure m \<longrightarrow> ef_intrinsicImpure st"
      using settled_reached [OF w st reach] by blast
    from W(3) [OF m(1)] d have "ef_reads d |\<subseteq>| ef_reads m" "ef_writes d |\<subseteq>| ef_writes m"
      "ef_intrinsicImpure d \<longrightarrow> ef_intrinsicImpure m" unfolding state_ok_def by auto
    with m show ?thesis by blast
  qed
  show "(f, h) \<in> (calls_in g)\<^sup>* \<Longrightarrow> direct_states files s g h = Some d \<Longrightarrow> ef_writes d |\<subseteq>| ef_writes st"
    "(f, h) \<in> (calls_in g)\<^sup>* \<Longrightarrow> direct_states files s g h = Some d \<Longrightarrow> ef_intrinsicImpure d \<Longrightarrow> ef_intrinsicImpure st"
    using below by blast+
  show "(f, h) \<in> (calls_in g)\<^sup>* \<Longrightarrow> \<exists>st'. states h = Some st' \<and> ef_complete st'"
    using settled_reached [OF w st] by blast
  have "fset (ef_reads st) \<subseteq> reads_reached (direct_states files s g) f"
    using W(3) [OF st(1)] by (rule state_okD)
  moreover have "(effect_calls (direct_states files s g))\<^sup>* \<subseteq> (calls_in g)\<^sup>*" by (intro rtrancl_mono effect_calls_in)
  ultimately show "fset (ef_reads st) =
      {x. \<exists>h d. (f, h) \<in> (calls_in g)\<^sup>* \<and> direct_states files s g h = Some d \<and> x |\<in>| ef_reads d}"
    using below unfolding reads_reached_def by blast
qed

lemma public_meaning:
  assumes w: "work_ok files s (direct_states files s g) fns [] states" and st: "states f = Some st"
    and complete: "fe_complete (publicFunctionEffects files st)"
  defines "e \<equiv> publicFunctionEffects files st"
  shows "(f, h) \<in> (calls_in g)\<^sup>* \<Longrightarrow> \<exists>st'. states h = Some st' \<and> fe_complete (publicFunctionEffects files st')"
    and "fe_readsGlobals e = filter (\<lambda>v. \<exists>h d. (f, h) \<in> (calls_in g)\<^sup>* \<and>
      direct_states files s g h = Some d \<and> declarationKey v |\<in>| ef_reads d) (buildDeclarations files)"
    and "(f, h) \<in> (calls_in g)\<^sup>* \<Longrightarrow> direct_states files s g h = Some d \<Longrightarrow> v \<in> set (buildDeclarations files) \<Longrightarrow>
      declarationKey v |\<in>| ef_writes d \<Longrightarrow> v \<in> set (fe_writesGlobals e)"
    and "fe_pure e \<Longrightarrow> (f, h) \<in> (calls_in g)\<^sup>* \<Longrightarrow> direct_states files s g h = Some d \<Longrightarrow>
      ef_reads d = {||} \<and> ef_writes d = {||} \<and> \<not> ef_intrinsicImpure d"
proof -
  have public: "fe_complete (publicFunctionEffects files st) = ef_complete st"
    "fe_pure (publicFunctionEffects files st) = ef_pure st"
    "fe_readsGlobals (publicFunctionEffects files st) = filter (\<lambda>v. declarationKey v |\<in>| ef_reads st) (buildDeclarations files)"
    "fe_writesGlobals (publicFunctionEffects files st) = filter (\<lambda>v. declarationKey v |\<in>| ef_writes st) (buildDeclarations files)"
    for st by (simp_all add: publicFunctionEffects_def Let_def)
  note M = settled_meaning [OF w st complete [unfolded public(1)]]
  show "(f, h) \<in> (calls_in g)\<^sup>* \<Longrightarrow> \<exists>st'. states h = Some st' \<and> fe_complete (publicFunctionEffects files st')"
    unfolding public by (rule M(4))
  have reads: "x |\<in>| ef_reads st \<longleftrightarrow> (\<exists>h d. (f, h) \<in> (calls_in g)\<^sup>* \<and> direct_states files s g h = Some d \<and> x |\<in>| ef_reads d)"
    for x using M(1) by blast
  show "fe_readsGlobals e = filter (\<lambda>v. \<exists>h d. (f, h) \<in> (calls_in g)\<^sup>* \<and>
      direct_states files s g h = Some d \<and> declarationKey v |\<in>| ef_reads d) (buildDeclarations files)"
    unfolding e_def public reads ..
  show "(f, h) \<in> (calls_in g)\<^sup>* \<Longrightarrow> direct_states files s g h = Some d \<Longrightarrow> v \<in> set (buildDeclarations files) \<Longrightarrow>
      declarationKey v |\<in>| ef_writes d \<Longrightarrow> v \<in> set (fe_writesGlobals e)"
    unfolding e_def public set_filter using M(2) by blast
  show "ef_reads d = {||} \<and> ef_writes d = {||} \<and> \<not> ef_intrinsicImpure d"
    if "fe_pure e" "(f, h) \<in> (calls_in g)\<^sup>*" "direct_states files s g h = Some d"
  proof -
    have "ef_reads st = {||}" "ef_writes st = {||}" "\<not> ef_intrinsicImpure st"
      using that(1) work_okD(4) [OF w st] unfolding e_def public by (simp_all add: purity_def)
    with M(2,3) reads that(2,3) show ?thesis by blast
  qed
qed

text \<open>
  C34: the effects of all functions are found: the work list ends. Where the effects of a function are complete,
  those of every function it reaches through calls are known and complete; the globals it is said to read are
  exactly those that some function it reaches reads itself, the globals that a function it reaches writes itself
  are among those it is said to write; and when it is said to be pure, no function it reaches reads or writes a
  global itself or has a static variable or a state change.
\<close>

theorem buildFunctionEffects_closure:
  "\<exists>effects. buildFunctionEffects files s g = Some effects \<and> (\<forall>f\<in>set (cg_functions g).
    \<exists>e. effects (declarationKey f) = Some e \<and> (fe_complete e \<longrightarrow>
      (\<forall>h. (declarationKey f, h) \<in> (calls_in g)\<^sup>* \<longrightarrow> (\<exists>e'. effects h = Some e' \<and> fe_complete e')) \<and>
      fe_readsGlobals e = filter (\<lambda>v. \<exists>h d. (declarationKey f, h) \<in> (calls_in g)\<^sup>* \<and>
        direct_states files s g h = Some d \<and> declarationKey v |\<in>| ef_reads d) (buildDeclarations files) \<and>
      (\<forall>h d v. (declarationKey f, h) \<in> (calls_in g)\<^sup>* \<and> direct_states files s g h = Some d \<and>
        v \<in> set (buildDeclarations files) \<and> declarationKey v |\<in>| ef_writes d \<longrightarrow> v \<in> set (fe_writesGlobals e)) \<and>
      (fe_pure e \<longrightarrow> (\<forall>h d. (declarationKey f, h) \<in> (calls_in g)\<^sup>* \<and> direct_states files s g h = Some d \<longrightarrow>
        ef_reads d = {||} \<and> ef_writes d = {||} \<and> \<not> ef_intrinsicImpure d))))"
  (is "\<exists>effects. _ \<and> (\<forall>f\<in>_. ?means effects f)")
proof -
  let ?direct = "direct_states files s g" and ?fns = "map declarationKey (cg_functions g)"
  from effects_loop_ends [OF direct_work_ok] obtain states
    where loop: "effects_loop files s (callers_of ?fns ?direct) ?fns ?direct = Some states"
      and w: "work_ok files s ?direct ?fns [] states" by blast
  define effects where "effects = (\<lambda>key. map_option (publicFunctionEffects files) (states key))"
  have built: "buildFunctionEffects files s g = Some effects"
    by (simp add: buildFunctionEffects_def loop effects_def Let_def)
  have "?means effects f" if "f \<in> set (cg_functions g)" for f
  proof -
    from that work_okD(2) [OF w] obtain st where st: "states (declarationKey f) = Some st" by force
    show ?thesis
    proof (rule exI [of _ "publicFunctionEffects files st"], intro conjI impI)
      show "effects (declarationKey f) = Some (publicFunctionEffects files st)" by (simp add: effects_def st)
    next
      assume complete: "fe_complete (publicFunctionEffects files st)"
      note M = public_meaning [OF w st complete]
      show "\<forall>h. (declarationKey f, h) \<in> (calls_in g)\<^sup>* \<longrightarrow> (\<exists>e'. effects h = Some e' \<and> fe_complete e')"
        using M(1) unfolding effects_def map_option_eq_Some by blast
    qed (use public_meaning [OF w st] in blast)+
  qed
  with built show ?thesis by blast
qed

text \<open>The two functions of \<open>Call_Graph\<close> that call each other are pure.\<close>

theorem buildFunctionEffects_closure_witness:
  "\<exists>effects e e'. buildFunctionEffects example_program example_references example_graph = Some effects \<and>
    effects (0, 1) = Some e \<and> fe_pure e \<and> ((0, 1), (0, 4)) \<in> calls_in example_graph \<and>
    effects (0, 4) = Some e' \<and> fe_complete e'"
proof -
  have result: "(case buildFunctionEffects example_program example_references example_graph of None \<Rightarrow> None
    | Some effects \<Rightarrow> map_option (\<lambda>e. (fe_complete e, fe_pure e)) (effects (0, 1))) = Some (True, True)" by code_simp
  have key: "map declarationKey (cg_functions example_graph) = [(0, 1), (0, 4)]" by code_simp
  have "list_ex (\<lambda>p. p = ((0, 1), (0, 4))) (map call_pair (cg_calls example_graph))" by code_simp
  then have call: "((0, 1), (0, 4)) \<in> calls_in example_graph" unfolding calls_in_def list_ex_iff by auto
  have "(0, 1) \<in> declarationKey ` set (cg_functions example_graph)" using key by (metis list.set_intros(1) list.set_map)
  then obtain f where f: "f \<in> set (cg_functions example_graph)" "declarationKey f = (0, 1)" by auto
  from buildFunctionEffects_closure [of example_program example_references example_graph] obtain effects e where
    e: "buildFunctionEffects example_program example_references example_graph = Some effects"
      "effects (0, 1) = Some e"
      "fe_complete e \<longrightarrow> (\<forall>h. ((0, 1), h) \<in> (calls_in example_graph)\<^sup>* \<longrightarrow> (\<exists>e'. effects h = Some e' \<and> fe_complete e'))"
    using f by (metis (no_types, lifting))
  from result e(1,2) have "fe_complete e" "fe_pure e" by auto
  with e call show ?thesis by blast
qed

section \<open>A global passed by reference\<close>

text \<open>The argument for the parameter is a global variable that the calling file declares.\<close>

definition global_argument ::
  "full_file list \<Rightarrow> project_call \<Rightarrow> node list \<Rightarrow> (nat \<times> nat \<times> bool) list \<Rightarrow> nat \<Rightarrow> bool" where
  "global_argument files c arguments parameters k =
    (let m = ff_semantic (files ! ca_file c); at_place = int k + ca_argumentOffset c in
     0 \<le> at_place \<and> at_place < int (length arguments) \<and>
     (case effectBaseIdentifier (arguments ! nat at_place) of
       None \<Rightarrow> False
     | Some n \<Rightarrow> (case Resolve m n of
         None \<Rightarrow> False
       | Some i \<Rightarrow> sy_kind (sm_symbols m ! i) = SymbolGlobal \<and> \<not> sy_ambiguous (sm_symbols m ! i) \<and>
           map_of parameters (n_id (sy_decl (sm_symbols m ! i))) = None)))"

lemma argument_effect_global:
  "global_argument files c arguments parameters k \<Longrightarrow>
    argument_effect files s c arguments parameters k = (True, {||}, {||})"
  by (auto simp: global_argument_def argument_effect_def effectResolvedSymbol_def Let_def split: option.splits)

lemma arguments_effect_nothing:
  assumes "\<forall>k\<in>set ks. argument_effect files s c arguments parameters k = (True, {||}, {||})"
  shows "arguments_effect files s c arguments parameters ks = (True, {||}, {||})"
  using assms unfolding arguments_effect_def by (induction ks) simp_all

text \<open>
  C35: a callee that changes parameters passed by reference, called with global variables of the calling file
  for them: the call counts as understood, and the globals are not added to those that the caller writes.
\<close>

theorem mapMutatedArguments_loses_global:
  assumes "field (ca_node c) ''arguments'' = Some l"
    and "\<forall>k. k |\<in>| mutated \<longrightarrow> global_argument files c (n_children l) (ef_parameters st) k"
  shows "mapMutatedArguments files s c mutated st = (True, st)"
proof -
  have "arguments_effect files s c (n_children l) (ef_parameters st) (sorted_list_of_fset mutated) = (True, {||}, {||})"
    using assms(2) by (intro arguments_effect_nothing) (simp add: argument_effect_global)
  then show ?thesis by (simp add: mapMutatedArguments_effect mutation_effect_def assms(1))
qed

text \<open>The call of \<open>new shared; Mutate(&v) { v = 1; } F() { Mutate(shared); }\<close>.\<close>

definition leaf :: "nat \<Rightarrow> int \<Rightarrow> int \<Rightarrow> node" where
  "leaf i a b = Node i KindIdentifier Identifier a b False [] []"

definition shared_call :: project_call where
  "shared_call =
    (let arguments = Node 36 (KindOther 1) Dot 63 71 False [] [leaf 37 64 70];
         mutate = \<lparr>de_file = 0, de_symbol = function_symbol 0 ''Mutate''\<rparr>; f = \<lparr>de_file = 0, de_symbol = function_symbol 1 ''F''\<rparr>
     in \<lparr>ca_caller = f, ca_callee = mutate, ca_file = 0,
          ca_node = Node 34 KindCallExpression Dot 57 71 False
            [(''function'', leaf 35 57 63), (''arguments'', arguments)] [leaf 35 57 63, arguments],
          ca_kind = CallDirect, ca_argumentOffset = 0, ca_order = (1, 0, 57)\<rparr>)"

definition shared_files :: "full_file list" where
  "shared_files = [example_file ''a.pwn'' True []
    (example_semantic\<lparr>sm_symbols := [example_symbol\<lparr>sy_name := ''shared''\<rparr>], sm_resolved := [37 \<mapsto> 0]\<rparr>)]"

definition shared_states :: "effect_state \<times> effect_state" where
  "shared_states =
    (let st = \<lparr>ef_complete = True, ef_intrinsicImpure = False, ef_pure = True, ef_reads = {||}, ef_writes = {||},
           ef_mutated = {||}, ef_calls = [], ef_parameters = []\<rparr>
     in (st\<lparr>ef_calls := [shared_call]\<rparr>, st\<lparr>ef_pure := False, ef_mutated := {|0|}, ef_parameters := [(1, 0, True)]\<rparr>))"

theorem mapMutatedArguments_loses_global_witness:
  "ef_mutated (snd shared_states) = {|0|} \<and>
    global_argument shared_files shared_call [leaf 37 64 70] (ef_parameters (fst shared_states)) 0 \<and>
    mapMutatedArguments shared_files no_references shared_call (ef_mutated (snd shared_states)) (fst shared_states) =
      (True, fst shared_states)"
proof -
  have mutated: "ef_mutated (snd shared_states) = {|0|}" by (simp add: shared_states_def Let_def)
  have l: "field (ca_node shared_call) ''arguments'' = Some (Node 36 (KindOther 1) Dot 63 71 False [] [leaf 37 64 70])"
    by (simp add: shared_call_def field_def Let_def)
  have global: "global_argument shared_files shared_call [leaf 37 64 70] (ef_parameters (fst shared_states)) 0" by code_simp
  with mapMutatedArguments_loses_global [OF l, of "ef_mutated (snd shared_states)" shared_files "fst shared_states" no_references]
  show ?thesis by (simp add: mutated)
qed

end
