(* ===== verification/Expand.thy ===== *)
theory Expand
  imports Syntax_Tree Go_Numbers
begin

text \<open>
  Macro expansion (\<open>internal/preprocess/expand.go\<close>): the replacement of macros in a list of tokens, with its
  depth limit, its budget of tokens and the names that may not be replaced again, the directives that define and
  undefine macros, the walk over the tokens of a file and the text that the result is printed to. The lexer is
  outside the repository: its raw tokens of a text are a parameter.
\<close>

section \<open>Pieces and macros\<close>

record text_position =
  tp_offset :: nat
  tp_line :: nat
  tp_col :: nat

record text_span =
  ts_file :: nat
  ts_start :: text_position
  ts_end :: text_position

text \<open>Where a token comes from: the macro and, outwards, the invocations around it.\<close>

datatype origin = Origin (or_span: text_span) (or_macro: string) (or_parent: "origin option")

record piece =
  pi_kind :: token_kind
  pi_text :: string
  pi_origin :: "origin option"
  pi_span :: text_span
  pi_newline :: bool

text \<open>\<open>definition\<close> in the code.\<close>

record macro =
  ma_name :: string
  ma_parameters :: "string list"
  ma_body :: "piece list"
  ma_function :: bool

type_synonym macros = "string \<Rightarrow> macro option"

text \<open>\<open>lexer.RawTokens\<close>: the kinds of the tokens of a text and the offsets where they end.\<close>

type_synonym raw_tokens = "string \<Rightarrow> (token_kind \<times> nat) list"

definition maximumExpansionDepth :: nat where
  "maximumExpansionDepth = 64"

definition maximumExpandedTokens :: nat where
  "maximumExpandedTokens = 1000000"

section \<open>The body of a macro\<close>

definition concatenateReplacementBoundary :: "raw_tokens \<Rightarrow> piece list \<Rightarrow> piece list \<Rightarrow> piece list \<times> piece list" where
  "concatenateReplacementBoundary raw left right =
    (if left = [] \<or> right = [] then (left, right)
     else
       (let final = last left; first = hd right; joined = pi_text final @ pi_text first; tokens = raw joined in
        if length tokens \<noteq> 2 \<or> fst (hd tokens) = EndOfFile \<or> snd (hd tokens) \<noteq> length joined then (left, right)
        else (butlast left @ [final\<lparr>pi_text := joined, pi_kind := fst (hd tokens),
            pi_span := (pi_span final)\<lparr>ts_end := ts_end (pi_span first)\<rparr>\<rparr>], tl right)))"

text \<open>A parameter stands for its argument under its name and under its number; the last entry wins.\<close>

definition parameter_indexes :: "string list \<Rightarrow> string \<Rightarrow> nat option" where
  "parameter_indexes parameters =
    map_of (rev (concat (map (\<lambda>(i, p). [(p, i), (CHR ''%'' # itoa i, i)]) (List.enumerate 0 parameters))))"

fun substitute_loop ::
  "raw_tokens \<Rightarrow> macro \<Rightarrow> piece list list \<Rightarrow> origin \<Rightarrow> piece option \<Rightarrow> piece list \<Rightarrow> piece list \<Rightarrow> piece list option" where
  "substitute_loop raw m arguments invocation previous [] result = Some result"
| "substitute_loop raw m arguments invocation previous (current # body) result =
    (if pi_kind current = Hash \<or> pi_text current = ''%%'' then None
     else
       (let pieces = (case parameter_indexes (ma_parameters m) (pi_text current) of
              Some i \<Rightarrow> map (\<lambda>a. a\<lparr>pi_origin := Some (Origin (pi_span a) (ma_name m) (Some invocation))\<rparr>) (arguments ! i)
            | None \<Rightarrow> [current\<lparr>pi_origin := Some (Origin (pi_span current) (ma_name m) (Some invocation))\<rparr>]);
            (result, pieces) = (case previous of
              Some p \<Rightarrow> if tp_offset (ts_end (pi_span p)) = tp_offset (ts_start (pi_span current))
                then concatenateReplacementBoundary raw result pieces else (result, pieces)
            | None \<Rightarrow> (result, pieces))
        in substitute_loop raw m arguments invocation (Some current) body (result @ pieces)))"

definition substitute :: "raw_tokens \<Rightarrow> macro \<Rightarrow> piece list list \<Rightarrow> origin \<Rightarrow> piece list option" where
  "substitute raw m arguments invocation = substitute_loop raw m arguments invocation None (ma_body m) []"

section \<open>Replacement in a list of pieces\<close>

text \<open>
  The arguments of an invocation behind its opening parenthesis: the nesting, the argument read so far, the
  arguments found, and the number of pieces consumed; the last component says whether the list was closed.
\<close>

fun piece_arguments_loop ::
  "piece list \<Rightarrow> int \<Rightarrow> piece list \<Rightarrow> piece list list \<Rightarrow> nat \<Rightarrow> piece list list \<times> nat \<times> bool" where
  "piece_arguments_loop [] depth argument arguments consumed = ([], consumed, False)"
| "piece_arguments_loop (t # ts) depth argument arguments consumed =
    (if pi_kind t \<in> {LParen, LBracket, LBrace}
     then piece_arguments_loop ts (depth + 1) (argument @ [t]) arguments (Suc consumed)
     else if pi_kind t = RParen then
       (if depth - 1 = 0
        then (if argument \<noteq> [] \<or> arguments \<noteq> [] then arguments @ [argument] else arguments, Suc consumed, True)
        else piece_arguments_loop ts (depth - 1) (argument @ [t]) arguments (Suc consumed))
     else if pi_kind t \<in> {RBracket, RBrace}
     then piece_arguments_loop ts (depth - 1) (argument @ [t]) arguments (Suc consumed)
     else if pi_kind t = Comma \<and> depth = 1
     then piece_arguments_loop ts depth [] (arguments @ [argument]) (Suc consumed)
     else piece_arguments_loop ts depth (argument @ [t]) arguments (Suc consumed))"

text \<open>For a list that begins with the name of the macro and an opening parenthesis.\<close>

definition pieceArguments :: "piece list \<Rightarrow> piece list list \<times> nat \<times> bool" where
  "pieceArguments input = piece_arguments_loop (drop 2 input) 1 [] [] 2"

record expansion =
  xp_complete :: bool
  xp_changed :: bool
  xp_count :: nat

text \<open>The replacement of one invocation at the head of the list, and the number of pieces it takes.\<close>

definition replacement :: "raw_tokens \<Rightarrow> macro \<Rightarrow> piece list \<Rightarrow> piece list option \<times> nat" where
  "replacement raw m input =
    (let (arguments, consumed, closed) = (if ma_function m then pieceArguments input else ([], 1, True));
         current = hd input
     in if ma_function m \<and> (\<not> closed \<or> length arguments \<noteq> length (ma_parameters m)) then (None, consumed)
        else (substitute raw m arguments (Origin (pi_span current) (ma_name m) (pi_origin current)), consumed))"

function expandPieces ::
  "raw_tokens \<Rightarrow> macros \<Rightarrow> piece list \<Rightarrow> nat \<Rightarrow> string list \<Rightarrow> expansion \<Rightarrow> piece list \<times> expansion" where
  "expandPieces raw defs [] depth disabled st = ([], st)"
| "expandPieces raw defs (current # rest) depth disabled st =
    (if xp_count st > maximumExpandedTokens then (current # rest, st\<lparr>xp_complete := False\<rparr>)
     else
       (let known = defs (pi_text current) in
        if pi_kind current \<noteq> Identifier \<or> known = None then
          (let (result, st) = expandPieces raw defs rest depth disabled (st\<lparr>xp_count := Suc (xp_count st)\<rparr>)
           in (current # result, st))
        else if ma_name (the known) \<in> set disabled then
          (let (result, st) = expandPieces raw defs rest depth disabled
                 (st\<lparr>xp_complete := False, xp_count := Suc (xp_count st)\<rparr>)
           in (current # result, st))
        else if depth \<ge> maximumExpansionDepth then (current # rest, st\<lparr>xp_complete := False\<rparr>)
        else if ma_function (the known) \<and> (rest = [] \<or> pi_kind (hd rest) \<noteq> LParen) then
          (let (result, st) = expandPieces raw defs rest depth disabled (st\<lparr>xp_count := Suc (xp_count st)\<rparr>)
           in (current # result, st))
        else (case replacement raw (the known) (current # rest) of
          (None, consumed) \<Rightarrow>
            (let (result, st) = expandPieces raw defs (drop (consumed - 1) rest) depth disabled
                   (st\<lparr>xp_complete := False, xp_count := xp_count st + consumed\<rparr>)
             in (current # take (consumed - 1) rest @ result, st))
        | (Some replaced, consumed) \<Rightarrow>
            (let (inner, st) = expandPieces raw defs replaced (Suc depth) (ma_name (the known) # disabled) st;
                 (result, st) = expandPieces raw defs (drop (consumed - 1) rest) depth disabled (st\<lparr>xp_changed := True\<rparr>)
             in (inner @ result, st)))))"
  by pat_completeness auto
termination
  by (relation "measures [\<lambda>(raw, defs, input, depth, disabled, st). maximumExpansionDepth - depth,
      \<lambda>(raw, defs, input, depth, disabled, st). length input]") auto

declare expandPieces.simps [simp del]

text \<open>The cases of one step.\<close>

lemma expand_budget:
  "xp_count st > maximumExpandedTokens \<Longrightarrow>
    expandPieces raw defs (current # rest) depth disabled st = (current # rest, st\<lparr>xp_complete := False\<rparr>)"
  by (simp add: expandPieces.simps)

lemma expand_plain:
  "xp_count st \<le> maximumExpandedTokens \<Longrightarrow> pi_kind current \<noteq> Identifier \<or> defs (pi_text current) = None \<Longrightarrow>
    expandPieces raw defs rest depth disabled (st\<lparr>xp_count := Suc (xp_count st)\<rparr>) = (r, st') \<Longrightarrow>
    expandPieces raw defs (current # rest) depth disabled st = (current # r, st')"
  by (simp add: expandPieces.simps(2))

lemma expand_disabled:
  "xp_count st \<le> maximumExpandedTokens \<Longrightarrow> pi_kind current = Identifier \<Longrightarrow> defs (pi_text current) = Some m \<Longrightarrow>
    ma_name m \<in> set disabled \<Longrightarrow>
    expandPieces raw defs rest depth disabled (st\<lparr>xp_complete := False, xp_count := Suc (xp_count st)\<rparr>) = (r, st') \<Longrightarrow>
    expandPieces raw defs (current # rest) depth disabled st = (current # r, st')"
  by (simp add: expandPieces.simps(2))

lemma expand_deep:
  "xp_count st \<le> maximumExpandedTokens \<Longrightarrow> pi_kind current = Identifier \<Longrightarrow> defs (pi_text current) = Some m \<Longrightarrow>
    ma_name m \<notin> set disabled \<Longrightarrow> depth \<ge> maximumExpansionDepth \<Longrightarrow>
    expandPieces raw defs (current # rest) depth disabled st = (current # rest, st\<lparr>xp_complete := False\<rparr>)"
  by (simp add: expandPieces.simps(2))

lemma expand_name:
  "xp_count st \<le> maximumExpandedTokens \<Longrightarrow> pi_kind current = Identifier \<Longrightarrow> defs (pi_text current) = Some m \<Longrightarrow>
    ma_name m \<notin> set disabled \<Longrightarrow> depth < maximumExpansionDepth \<Longrightarrow>
    ma_function m \<Longrightarrow> rest = [] \<or> pi_kind (hd rest) \<noteq> LParen \<Longrightarrow>
    expandPieces raw defs rest depth disabled (st\<lparr>xp_count := Suc (xp_count st)\<rparr>) = (r, st') \<Longrightarrow>
    expandPieces raw defs (current # rest) depth disabled st = (current # r, st')"
  by (simp add: expandPieces.simps(2))

definition invoked :: "macros \<Rightarrow> piece \<Rightarrow> piece list \<Rightarrow> nat \<Rightarrow> string list \<Rightarrow> expansion \<Rightarrow> macro \<Rightarrow> bool" where
  "invoked defs current rest depth disabled st m \<longleftrightarrow>
    xp_count st \<le> maximumExpandedTokens \<and> pi_kind current = Identifier \<and> defs (pi_text current) = Some m \<and>
    ma_name m \<notin> set disabled \<and> depth < maximumExpansionDepth \<and>
    (ma_function m \<longrightarrow> rest \<noteq> [] \<and> pi_kind (hd rest) = LParen)"

lemma expand_failed:
  "invoked defs current rest depth disabled st m \<Longrightarrow> replacement raw m (current # rest) = (None, consumed) \<Longrightarrow>
    expandPieces raw defs (drop (consumed - 1) rest) depth disabled
      (st\<lparr>xp_complete := False, xp_count := xp_count st + consumed\<rparr>) = (r, st') \<Longrightarrow>
    expandPieces raw defs (current # rest) depth disabled st = (current # take (consumed - 1) rest @ r, st')"
  unfolding invoked_def by (subst expandPieces.simps(2)) auto

lemma expand_replaced:
  "invoked defs current rest depth disabled st m \<Longrightarrow> replacement raw m (current # rest) = (Some replaced, consumed) \<Longrightarrow>
    expandPieces raw defs replaced (Suc depth) (ma_name m # disabled) st = (inner, st1) \<Longrightarrow>
    expandPieces raw defs (drop (consumed - 1) rest) depth disabled (st1\<lparr>xp_changed := True\<rparr>) = (r, st') \<Longrightarrow>
    expandPieces raw defs (current # rest) depth disabled st = (inner @ r, st')"
  unfolding invoked_def by (subst expandPieces.simps(2)) auto

lemma expand_induct [consumes 1, case_names Nil budget plain disabled deep name failed replaced]:
  assumes run: "expandPieces raw defs input depth disabled st = (result, st')"
    and "\<And>depth disabled st. P [] depth disabled st [] st"
    and "\<And>current rest depth disabled st. xp_count st > maximumExpandedTokens \<Longrightarrow>
      P (current # rest) depth disabled st (current # rest) (st\<lparr>xp_complete := False\<rparr>)"
    and "\<And>current rest depth disabled st r st'. xp_count st \<le> maximumExpandedTokens \<Longrightarrow>
      pi_kind current \<noteq> Identifier \<or> defs (pi_text current) = None \<Longrightarrow>
      P rest depth disabled (st\<lparr>xp_count := Suc (xp_count st)\<rparr>) r st' \<Longrightarrow>
      P (current # rest) depth disabled st (current # r) st'"
    and "\<And>current rest depth disabled st r st' m. xp_count st \<le> maximumExpandedTokens \<Longrightarrow> pi_kind current = Identifier \<Longrightarrow>
      defs (pi_text current) = Some m \<Longrightarrow> ma_name m \<in> set disabled \<Longrightarrow>
      P rest depth disabled (st\<lparr>xp_complete := False, xp_count := Suc (xp_count st)\<rparr>) r st' \<Longrightarrow>
      P (current # rest) depth disabled st (current # r) st'"
    and "\<And>current rest depth disabled st m. xp_count st \<le> maximumExpandedTokens \<Longrightarrow> pi_kind current = Identifier \<Longrightarrow>
      defs (pi_text current) = Some m \<Longrightarrow> ma_name m \<notin> set disabled \<Longrightarrow> depth \<ge> maximumExpansionDepth \<Longrightarrow>
      P (current # rest) depth disabled st (current # rest) (st\<lparr>xp_complete := False\<rparr>)"
    and "\<And>current rest depth disabled st r st' m. xp_count st \<le> maximumExpandedTokens \<Longrightarrow> pi_kind current = Identifier \<Longrightarrow>
      defs (pi_text current) = Some m \<Longrightarrow> ma_name m \<notin> set disabled \<Longrightarrow> depth < maximumExpansionDepth \<Longrightarrow>
      ma_function m \<Longrightarrow> rest = [] \<or> pi_kind (hd rest) \<noteq> LParen \<Longrightarrow>
      P rest depth disabled (st\<lparr>xp_count := Suc (xp_count st)\<rparr>) r st' \<Longrightarrow>
      P (current # rest) depth disabled st (current # r) st'"
    and "\<And>current rest depth disabled st r st' m consumed. invoked defs current rest depth disabled st m \<Longrightarrow>
      replacement raw m (current # rest) = (None, consumed) \<Longrightarrow>
      P (drop (consumed - 1) rest) depth disabled (st\<lparr>xp_complete := False, xp_count := xp_count st + consumed\<rparr>) r st' \<Longrightarrow>
      P (current # rest) depth disabled st (current # take (consumed - 1) rest @ r) st'"
    and "\<And>current rest depth disabled st m replaced consumed inner st1 r st'.
      invoked defs current rest depth disabled st m \<Longrightarrow> replacement raw m (current # rest) = (Some replaced, consumed) \<Longrightarrow>
      P replaced (Suc depth) (ma_name m # disabled) st inner st1 \<Longrightarrow>
      P (drop (consumed - 1) rest) depth disabled (st1\<lparr>xp_changed := True\<rparr>) r st' \<Longrightarrow>
      P (current # rest) depth disabled st (inner @ r) st'"
  shows "P input depth disabled st result st'"
proof -
  have "P input depth disabled st result st'"
    if "raw' = raw" "defs' = defs" "expandPieces raw' defs' input depth disabled st = (result, st')" for raw' defs'
    using that
  proof (induction raw' defs' input depth disabled st arbitrary: result st' rule: expandPieces.induct)
    case 1
    then show ?case using assms(2) by (simp add: expandPieces.simps)
  next
    case (2 raw' defs' current rest depth disabled st)
    note eqs = "2.prems"(1,2)
    note run = "2.prems"(3) [unfolded eqs]
    note IH = "2.IH" [unfolded eqs]
    show ?case
    proof (cases "xp_count st > maximumExpandedTokens")
      case True
      from expand_budget [OF True] run assms(3) [OF True, of current rest depth disabled] show ?thesis by simp
    next
      case False
      then have small: "xp_count st \<le> maximumExpandedTokens" by simp
      show ?thesis
      proof (cases "pi_kind current \<noteq> Identifier \<or> defs (pi_text current) = None")
        case True
        obtain r s2 where r: "expandPieces raw defs rest depth disabled (st\<lparr>xp_count := Suc (xp_count st)\<rparr>) = (r, s2)" by force
        from assms(4) [OF small True IH(1) [OF False refl True refl refl r]] expand_plain [where defs = defs and current = current, OF small True r] run
        show ?thesis by simp
      next
        case plain: False
        then obtain m where m: "pi_kind current = Identifier" "defs (pi_text current) = Some m" by auto
        have the: "the (defs (pi_text current)) = m" using m by simp
        show ?thesis
        proof (cases "ma_name m \<in> set disabled")
          case True
          obtain r s2 where r: "expandPieces raw defs rest depth disabled
              (st\<lparr>xp_complete := False, xp_count := Suc (xp_count st)\<rparr>) = (r, s2)" by force
          from assms(5) [OF small m True IH(2) [OF False refl plain, unfolded the, OF True refl refl r]]
            expand_disabled [where defs = defs and current = current, OF small m True r] run
          show ?thesis by simp
        next
          case enabled: False
          show ?thesis
          proof (cases "depth \<ge> maximumExpansionDepth")
            case True
            from assms(6) [OF small m enabled True, of rest]
              expand_deep [where defs = defs and current = current and rest = rest and raw = raw, OF small m enabled True] run
            show ?thesis by simp
          next
            case deep: False
            then have shallow: "depth < maximumExpansionDepth" by simp
            show ?thesis
            proof (cases "ma_function m \<and> (rest = [] \<or> pi_kind (hd rest) \<noteq> LParen)")
              case True
              then have name: "ma_function m" "rest = [] \<or> pi_kind (hd rest) \<noteq> LParen" by blast+
              obtain r s2 where r: "expandPieces raw defs rest depth disabled (st\<lparr>xp_count := Suc (xp_count st)\<rparr>) = (r, s2)" by force
              from assms(7) [OF small m enabled shallow name IH(3) [OF False refl plain, unfolded the, OF enabled deep True refl refl r]]
                expand_name [where defs = defs and current = current, OF small m enabled shallow name r] run
              show ?thesis by simp
            next
              case call: False
              then have invoked: "invoked defs current rest depth disabled st m"
                using small m enabled shallow unfolding invoked_def by blast
              obtain rep consumed where rep: "replacement raw m (current # rest) = (rep, consumed)" by force
              note IHc = IH(4-6) [OF False refl plain, unfolded the, OF enabled deep call rep [symmetric]]
              show ?thesis
              proof (cases rep)
                case None
                obtain r s2 where r: "expandPieces raw defs (drop (consumed - 1) rest) depth disabled
                    (st\<lparr>xp_complete := False, xp_count := xp_count st + consumed\<rparr>) = (r, s2)" by force
                from assms(8) [OF invoked rep [unfolded None] IHc(1) [OF None refl refl r]]
                  expand_failed [OF invoked rep [unfolded None] r] run
                show ?thesis by simp
              next
                case (Some replaced)
                obtain r1 s1 where r1: "expandPieces raw defs replaced (Suc depth) (ma_name m # disabled) st = (r1, s1)" by force
                obtain r2 s2 where r2: "expandPieces raw defs (drop (consumed - 1) rest) depth disabled (s1\<lparr>xp_changed := True\<rparr>) = (r2, s2)" by force
                from assms(9) [OF invoked rep [unfolded Some] IHc(2) [OF Some refl refl r1] IHc(3) [OF Some r1 [symmetric] refl refl refl r2]]
                  expand_replaced [OF invoked rep [unfolded Some] r1 r2] run
                show ?thesis by simp
              qed
            qed
          qed
        qed
      qed
    qed
  qed
  from this [OF refl refl run] show ?thesis .
qed

text \<open>
  C38: a complete expansion holds no macro without parameters any more, every piece of it has been counted, and it
  has at most one piece more than the budget allows; when nothing was replaced the result is the input.
\<close>

theorem expandPieces_complete:
  assumes "expandPieces raw defs input depth disabled st = (result, st')"
  shows "(xp_complete st' \<longrightarrow> xp_complete st \<and> xp_count st' = xp_count st + length result \<and>
      xp_count st' \<le> max (xp_count st) (Suc maximumExpandedTokens) \<and>
      (\<forall>p\<in>set result. pi_kind p = Identifier \<longrightarrow> (\<forall>m. defs (pi_text p) = Some m \<longrightarrow> ma_function m))) \<and>
    (xp_changed st \<longrightarrow> xp_changed st') \<and> (\<not> xp_changed st' \<longrightarrow> result = input)"
  using assms
proof (induction rule: expand_induct [where raw = raw and defs = defs])
  case (failed current rest depth disabled st r st' m consumed)
  then show ?case by (auto simp: append_take_drop_id)
qed (auto simp: invoked_def)

section \<open>States\<close>

record macro_state =
  ss_definitions :: macros
  ss_undefined :: "string set"

record expander =
  ex_definitions :: macros
  ex_undefined :: "string set"
  ex_run :: expansion

definition fresh_expansion :: expansion where
  "fresh_expansion = \<lparr>xp_complete = True, xp_changed = False, xp_count = 0\<rparr>"

definition new_expander :: expander where
  "new_expander = \<lparr>ex_definitions = Map.empty, ex_undefined = {}, ex_run = fresh_expansion\<rparr>"

abbreviation ex_complete :: "expander \<Rightarrow> bool" where "ex_complete ex \<equiv> xp_complete (ex_run ex)"
abbreviation ex_changed :: "expander \<Rightarrow> bool" where "ex_changed ex \<equiv> xp_changed (ex_run ex)"

text \<open>What an imported file undefines goes first, then what it defines.\<close>

definition merge_state :: "macro_state option \<Rightarrow> expander \<Rightarrow> expander" where
  "merge_state imported ex =
    (case imported of None \<Rightarrow> ex | Some s \<Rightarrow>
      ex\<lparr>ex_definitions := (\<lambda>name. case ss_definitions s name of Some m \<Rightarrow> Some m
            | None \<Rightarrow> if name \<in> ss_undefined s then None else ex_definitions ex name),
         ex_undefined := {name \<in> ex_undefined ex \<union> ss_undefined s. ss_definitions s name = None}\<rparr>)"

definition state_of :: "expander \<Rightarrow> macro_state" where
  "state_of ex = \<lparr>ss_definitions = ex_definitions ex, ss_undefined = ex_undefined ex\<rparr>"

text \<open>
  What a state says of a name: that it stands for a macro, that it has been undefined, or nothing. To merge a
  state is to let what it says override.
\<close>

definition says :: "macro_state \<Rightarrow> string \<Rightarrow> macro option option" where
  "says s name = (case ss_definitions s name of Some m \<Rightarrow> Some (Some m)
    | None \<Rightarrow> if name \<in> ss_undefined s then Some None else None)"

lemma merge_state_says: "says (state_of (merge_state (Some s) ex)) = says (state_of ex) ++ says s"
  by (rule ext) (simp add: says_def state_of_def merge_state_def map_add_def split: option.split)

definition name_piece :: "string \<Rightarrow> piece" where
  "name_piece name =
    (let none = \<lparr>tp_offset = 0, tp_line = 0, tp_col = 0\<rparr>
     in \<lparr>pi_kind = Identifier, pi_text = name, pi_origin = None,
         pi_span = \<lparr>ts_file = 0, ts_start = none, ts_end = none\<rparr>, pi_newline = False\<rparr>)"

definition ExpandIdentifier :: "raw_tokens \<Rightarrow> macro_state option \<Rightarrow> string \<Rightarrow> string option" where
  "ExpandIdentifier raw st name =
    (case st of None \<Rightarrow> None | Some s \<Rightarrow>
      (case ss_definitions s name of
        None \<Rightarrow> None
      | Some m \<Rightarrow>
          if ma_function m then None
          else (let (pieces, run) = expandPieces raw (ss_definitions s) [name_piece name] 0 [] fresh_expansion
                in if \<not> xp_complete run \<or> \<not> xp_changed run then None else Some (concat (map pi_text pieces)))))"

definition definitionContainsIdentifier :: "macro \<Rightarrow> string \<Rightarrow> bool" where
  "definitionContainsIdentifier m name = list_ex (\<lambda>p. pi_kind p = Identifier \<and> pi_text p = name) (ma_body m)"

definition TagAliases :: "raw_tokens \<Rightarrow> macro_state option \<Rightarrow> string \<Rightarrow> string option" where
  "TagAliases raw st name =
    (case st of None \<Rightarrow> None | Some s \<Rightarrow>
      (case ss_definitions s name of
        None \<Rightarrow> None
      | Some m \<Rightarrow> if ma_function m \<or> \<not> definitionContainsIdentifier m ''__TAG'' then None else ExpandIdentifier raw st name))"

section \<open>The tokens of a file\<close>

record src_token =
  st_kind :: token_kind
  st_text :: string
  st_origin :: "origin option"
  st_start :: text_position
  st_end :: text_position
  st_endsLine :: bool

text \<open>
  \<open>tf_directives\<close>: the kinds of nodes between \<open>KindDirectiveInclude\<close> and \<open>KindDirectiveRaw\<close>, whose order the
  parser fixes.
\<close>

record token_file =
  tf_walk :: walk_model
  tf_source :: string
  tf_tokens :: "src_token list"
  tf_directives :: "kind list"

abbreviation token_start :: "src_token \<Rightarrow> int" where "token_start t \<equiv> int (tp_offset (st_start t))"
abbreviation token_end :: "src_token \<Rightarrow> int" where "token_end t \<equiv> int (tp_offset (st_end t))"

definition sourcePiece :: "nat \<Rightarrow> bool \<Rightarrow> src_token \<Rightarrow> piece" where
  "sourcePiece fileID nl t =
    \<lparr>pi_kind = st_kind t, pi_text = st_text t, pi_origin = st_origin t,
     pi_span = \<lparr>ts_file = fileID, ts_start = st_start t, ts_end = st_end t\<rparr>, pi_newline = nl \<and> st_endsLine t\<rparr>"

definition sourcePieces :: "token_file \<Rightarrow> nat \<Rightarrow> nat \<Rightarrow> nat \<Rightarrow> bool \<Rightarrow> piece list" where
  "sourcePieces f start n fileID nl =
    map (sourcePiece fileID nl) (filter (\<lambda>t. st_kind t \<noteq> EndOfFile) (take n (drop start (tf_tokens f))))"

text \<open>The tokens behind the first one at or after the start of a node, up to the end of the node.\<close>

definition first_token :: "token_file \<Rightarrow> node \<Rightarrow> nat" where
  "first_token f n = sort_search (length (tf_tokens f)) (\<lambda>i. token_start (tf_tokens f ! i) \<ge> n_start n)"

definition tokens_of :: "token_file \<Rightarrow> node \<Rightarrow> nat list" where
  "tokens_of f n =
    filter (\<lambda>i. token_start (tf_tokens f ! i) \<ge> n_start n \<and> token_end (tf_tokens f ! i) \<le> n_end n)
      (takeWhile (\<lambda>i. \<not> (st_kind (tf_tokens f ! i) = EndOfFile \<or> token_start (tf_tokens f ! i) > n_end n))
        [first_token f n..<length (tf_tokens f)])"

definition expansionDirectives :: "token_file \<Rightarrow> nat \<Rightarrow> (node \<times> nat) option" where
  "expansionDirectives f =
    map_of (rev (map (\<lambda>n. (tp_offset (st_start (tf_tokens f ! first_token f n)), (n, last (tokens_of f n))))
      (filter (\<lambda>n. tokens_of f n \<noteq> []) (concat (map (OfKind (wm_index (tf_walk f))) (tf_directives f))))))"

definition piecesInRange :: "token_file \<Rightarrow> node option \<Rightarrow> nat \<Rightarrow> piece list" where
  "piecesInRange f n fileID =
    (case n of None \<Rightarrow> [] | Some n \<Rightarrow> map (\<lambda>i. sourcePiece fileID False (tf_tokens f ! i)) (tokens_of f n))"

definition directivePayloadName :: "token_file \<Rightarrow> node \<Rightarrow> string" where
  "directivePayloadName f n =
    (let inside = filter (\<lambda>t. \<not> (token_start t < n_start n \<or> token_end t > n_end n \<or> st_kind t = EndOfFile)) (tf_tokens f)
     in if length inside \<ge> 3 \<and> st_kind (inside ! 2) = Identifier then st_text (inside ! 2) else [])"

definition set_complete :: "bool \<Rightarrow> expander \<Rightarrow> expander" where
  "set_complete b ex = ex\<lparr>ex_run := (ex_run ex)\<lparr>xp_complete := b\<rparr>\<rparr>"

definition applyDirective :: "token_file \<Rightarrow> node \<Rightarrow> nat \<Rightarrow> expander \<Rightarrow> expander" where
  "applyDirective f n fileID ex =
    (let w = tf_walk f; text = (\<lambda>o'. case o' of None \<Rightarrow> [] | Some m \<Rightarrow> wm_text w m) in
     if Inactive w n then ex
     else if Uncertain w n then set_complete False ex
     else if n_kind n = KindDirectiveUndef then
       (let name = directivePayloadName f n
        in ex\<lparr>ex_definitions := (ex_definitions ex)(name := None), ex_undefined := insert name (ex_undefined ex)\<rparr>)
     else if n_kind n = KindDirectiveDefine then
       (let name = text (field n ''name'') in
        if name = [] \<or> n_hasError n then set_complete False ex
        else (let parameters = field n ''parameters'';
                  m = \<lparr>ma_name = name,
                    ma_parameters = (case parameters of None \<Rightarrow> [] | Some l \<Rightarrow> map (wm_text w) (n_children l)),
                    ma_body = piecesInRange f (field n ''value'') fileID, ma_function = parameters \<noteq> None\<rparr>
              in ex\<lparr>ex_definitions := (ex_definitions ex)(name \<mapsto> m), ex_undefined := ex_undefined ex - {name}\<rparr>))
     else ex)"

section \<open>Invocations in a file\<close>

fun invocation_loop ::
  "nat \<Rightarrow> src_token list \<Rightarrow> int \<Rightarrow> src_token list \<Rightarrow> piece list list \<Rightarrow> nat \<Rightarrow> piece list list \<times> nat \<times> bool" where
  "invocation_loop fileID [] depth argument arguments consumed = ([], consumed, False)"
| "invocation_loop fileID (t # ts) depth argument arguments consumed =
    (let pieces = map (sourcePiece fileID False) argument in
     if st_kind t = EndOfFile then ([], consumed, False)
     else if st_kind t \<in> {LParen, LBracket, LBrace}
     then invocation_loop fileID ts (depth + 1) (argument @ [t]) arguments (Suc consumed)
     else if st_kind t = RParen \<and> depth - 1 = 0
     then (if argument \<noteq> [] \<or> arguments \<noteq> [] then arguments @ [pieces] else arguments, Suc consumed, True)
     else if st_kind t \<in> {RParen, RBracket, RBrace}
     then (if depth - 1 < 0 then ([], Suc consumed, False)
           else invocation_loop fileID ts (depth - 1) (argument @ [t]) arguments (Suc consumed))
     else if st_kind t = Comma \<and> depth = 1
     then invocation_loop fileID ts depth [] (arguments @ [pieces]) (Suc consumed)
     else invocation_loop fileID ts depth (argument @ [t]) arguments (Suc consumed))"

definition invocationArguments :: "token_file \<Rightarrow> nat \<Rightarrow> nat \<Rightarrow> piece list list \<times> nat \<times> bool" where
  "invocationArguments f index fileID = invocation_loop fileID (drop (index + 2) (tf_tokens f)) 1 [] [] 2"

definition expandInvocation ::
  "raw_tokens \<Rightarrow> token_file \<Rightarrow> nat \<Rightarrow> piece \<Rightarrow> nat \<Rightarrow> nat \<Rightarrow> string list \<Rightarrow> expander \<Rightarrow> piece list \<times> nat \<times> expander" where
  "expandInvocation raw f index input fileID depth disabled ex =
    (let failed = (\<lambda>consumed. (sourcePieces f index consumed fileID False, consumed, set_complete False ex)) in
     case (if pi_kind input = Identifier then ex_definitions ex (pi_text input) else None) of
       None \<Rightarrow> ([input], 1, ex)
     | Some m \<Rightarrow>
         if depth \<ge> maximumExpansionDepth \<or> ma_name m \<in> set disabled then ([input], 1, set_complete False ex)
         else if ma_function m \<and>
           (index + 1 \<ge> length (tf_tokens f) \<or> st_kind (tf_tokens f ! (index + 1)) \<noteq> LParen) then ([input], 1, ex)
         else
           (let (arguments, consumed, closed) = (if ma_function m then invocationArguments f index fileID else ([], 1, True)) in
            if ma_function m \<and> (\<not> closed \<or> length arguments \<noteq> length (ma_parameters m)) then failed consumed
            else (case substitute raw m arguments (Origin (pi_span input) (ma_name m) (pi_origin input)) of
              None \<Rightarrow> failed consumed
            | Some replaced \<Rightarrow>
                if xp_count (ex_run ex) > maximumExpandedTokens then failed consumed
                else (let (result, run) = expandPieces raw (ex_definitions ex) replaced (Suc depth) (ma_name m # disabled) (ex_run ex)
                      in (result, consumed, ex\<lparr>ex_run := run\<lparr>xp_changed := True\<rparr>\<rparr>)))))"

section \<open>The walk over the tokens\<close>

text \<open>
  Nothing is written until something is replaced; then the tokens before it are copied. The test whether there are
  any definitions is left out: without definitions an invocation is the token itself.
\<close>

partial_function (option) expand_loop ::
  "raw_tokens \<Rightarrow> token_file \<Rightarrow> nat \<Rightarrow> (nat \<Rightarrow> macro_state option) \<Rightarrow> nat \<Rightarrow> expander \<Rightarrow> piece list \<Rightarrow> (piece list \<times> expander) option" where
  "expand_loop raw f fileID imports index ex written =
    (if index \<ge> length (tf_tokens f) \<or> st_kind (tf_tokens f ! index) = EndOfFile then Some (written, ex)
     else
       (let t = tf_tokens f ! index in
        case expansionDirectives f (tp_offset (st_start t)) of
          Some (n, final) \<Rightarrow>
            expand_loop raw f fileID imports (max index (Suc final))
              (merge_state (imports (nat (n_start n))) (applyDirective f n fileID ex))
              (if ex_changed ex
               then written @ map (sourcePiece fileID True) (take (Suc final - index) (drop index (tf_tokens f))) else written)
        | None \<Rightarrow>
            if st_kind t \<noteq> Identifier
            then expand_loop raw f fileID imports (Suc index) ex
              (if ex_changed ex then written @ [sourcePiece fileID True t] else written)
            else
              (let (expanded, consumed, ex') = expandInvocation raw f index (sourcePiece fileID True t) fileID 0 [] ex;
                   written = (if \<not> ex_changed ex \<and> ex_changed ex' then sourcePieces f 0 index fileID True else written)
               in expand_loop raw f fileID imports (index + consumed) ex'
                    (if ex_changed ex' then written @ expanded else written))))"

section \<open>The text of the result\<close>

record out_token =
  ot_kind :: token_kind
  ot_start :: text_position
  ot_end :: text_position
  ot_origin :: "origin option"
  ot_trivia :: "(bool \<times> text_position \<times> text_position) option"

text \<open>The separator behind a piece is the trivia of its token; the first component says whether it ends a line.\<close>

fun render_loop :: "piece list \<Rightarrow> text_position \<Rightarrow> string \<times> out_token list" where
  "render_loop [] at_start =
    ([], [\<lparr>ot_kind = EndOfFile, ot_start = at_start, ot_end = at_start, ot_origin = None, ot_trivia = None\<rparr>])"
| "render_loop (current # pieces) at_start =
    (let n = length (pi_text current);
         at_end = at_start\<lparr>tp_offset := tp_offset at_start + n, tp_col := tp_col at_start + n\<rparr>;
         next = (if pi_newline current
           then \<lparr>tp_offset = Suc (tp_offset at_end), tp_line = Suc (tp_line at_end), tp_col = 1\<rparr>
           else at_end\<lparr>tp_offset := Suc (tp_offset at_end), tp_col := Suc (tp_col at_end)\<rparr>);
         (text, tokens) = render_loop pieces next
     in (pi_text current @ (if pi_newline current then CHR 0x0A else CHR '' '') # text,
         \<lparr>ot_kind = pi_kind current, ot_start = at_start, ot_end = at_end, ot_origin = pi_origin current,
          ot_trivia = Some (pi_newline current, at_end, next)\<rparr> # tokens))"

definition render :: "piece list \<Rightarrow> string \<times> out_token list" where
  "render pieces = render_loop pieces \<lparr>tp_offset = 0, tp_line = 1, tp_col = 1\<rparr>"

record rendered_expansion =
  re_source :: string
  re_tokens :: "out_token list"
  re_complete :: bool
  re_changed :: bool

definition expandTokensWithSyntax ::
  "raw_tokens \<Rightarrow> token_file \<Rightarrow> nat \<Rightarrow> macro_state option \<Rightarrow> (nat \<Rightarrow> macro_state option) \<Rightarrow>
    (rendered_expansion \<times> macro_state) option" where
  "expandTokensWithSyntax raw f fileID initial imports =
    map_option (\<lambda>(written, ex).
      (if \<not> ex_changed ex
       then \<lparr>re_source = tf_source f, re_tokens = [], re_complete = ex_complete ex, re_changed = False\<rparr>
       else (let (text, tokens) = render written
             in \<lparr>re_source = text, re_tokens = tokens, re_complete = ex_complete ex, re_changed = True\<rparr>), state_of ex))
      (expand_loop raw f fileID imports 0 (merge_state initial new_expander) [])"

section \<open>The walk ends and its tokens tile the text\<close>

lemma invocation_loop_consumed:
  "invocation_loop fileID ts depth argument arguments consumed = (r, n, closed) \<Longrightarrow> consumed \<le> n"
proof (induction fileID ts depth argument arguments consumed rule: invocation_loop.induct)
  case (2 fileID t ts depth argument arguments consumed)
  then show ?case by (force simp: Let_def split: if_splits)
qed simp

lemma expandInvocation_consumed:
  assumes "expandInvocation raw f index input fileID depth disabled ex = (r, n, ex')"
  shows "0 < n"
proof -
  have consumed: "0 < c" if "invocationArguments f index fileID = (a, c, b)" for a b c
    using that invocation_loop_consumed unfolding invocationArguments_def by fastforce
  have "0 < fst (snd (expandInvocation raw f index input fileID depth disabled ex))"
    unfolding expandInvocation_def Let_def
    by (auto split: option.split prod.split if_split dest: consumed)
  with assms show ?thesis by simp
qed

lemma directive_after:
  assumes sorted: "sorted_wrt (<) (map (\<lambda>t. tp_offset (st_start t)) (tf_tokens f))" and i: "index < length (tf_tokens f)"
    and d: "expansionDirectives f (tp_offset (st_start (tf_tokens f ! index))) = Some (n, final)"
  shows "index \<le> final" "final < length (tf_tokens f)"
proof -
  from d have n: "tokens_of f n \<noteq> []" "final = last (tokens_of f n)"
    "tp_offset (st_start (tf_tokens f ! first_token f n)) = tp_offset (st_start (tf_tokens f ! index))"
    unfolding expansionDirectives_def by (auto dest!: map_of_SomeD)
  then have final: "final \<in> set (tokens_of f n)" by simp
  then have range: "first_token f n \<le> final" "final < length (tf_tokens f)"
    unfolding tokens_of_def by (auto dest!: set_takeWhileD)
  from sorted have "distinct (map (\<lambda>t. tp_offset (st_start t)) (tf_tokens f))"
    by (simp add: strict_sorted_iff)
  from nth_eq_iff_index_eq [OF this, of "first_token f n" index] have "first_token f n = index"
    using n(3) i range by simp
  with range show "index \<le> final" "final < length (tf_tokens f)" by simp_all
qed

lemma expand_loop_ends:
  assumes sorted: "sorted_wrt (<) (map (\<lambda>t. tp_offset (st_start t)) (tf_tokens f))"
  shows "\<exists>r. expand_loop raw f fileID imports index ex written = Some r"
proof (induction "length (tf_tokens f) - index" arbitrary: index ex written rule: less_induct)
  case less
  show ?case
  proof (cases "index \<ge> length (tf_tokens f) \<or> st_kind (tf_tokens f ! index) = EndOfFile")
    case True
    then show ?thesis by (subst expand_loop.simps) auto
  next
    case False
    then have i: "index < length (tf_tokens f)" by simp
    have again: "\<exists>r. expand_loop raw f fileID imports index' ex' written' = Some r" if "index < index'" for index' ex' written'
      using less that i by simp
    show ?thesis
    proof (cases "expansionDirectives f (tp_offset (st_start (tf_tokens f ! index)))")
      case (Some nf)
      obtain n final where nf: "nf = (n, final)" by force
      from directive_after(1) [OF sorted i Some [unfolded nf]] have "index < max index (Suc final)" by simp
      from again [OF this] False show ?thesis by (subst expand_loop.simps) (simp add: Some nf)
    next
      case None
      obtain expanded consumed ex' where e: "expandInvocation raw f index (sourcePiece fileID True (tf_tokens f ! index)) fileID 0 [] ex =
          (expanded, consumed, ex')" by (metis prod_cases3)
      from expandInvocation_consumed [OF e] have "index < index + consumed" by simp
      from again [OF this] again [of "Suc index"] False show ?thesis
        by (subst expand_loop.simps) (auto simp: None e Let_def)
    qed
  qed
qed

lemma render_loop_tiles:
  assumes "render_loop pieces at_start = (printed, tokens)" "length before = tp_offset at_start"
  shows "map (\<lambda>t. take (tp_offset (ot_end t) - tp_offset (ot_start t)) (drop (tp_offset (ot_start t)) (before @ printed))) (butlast tokens) =
      map pi_text pieces \<and> map ot_kind (butlast tokens) = map pi_kind pieces \<and>
    tokens \<noteq> [] \<and> tp_offset (ot_start (last tokens)) = length (before @ printed)"
  using assms
proof (induction pieces at_start arbitrary: printed tokens before rule: render_loop.induct)
  case (1 at_start)
  then show ?case by auto
next
  case (2 current pieces at_start)
  let ?n = "length (pi_text current)"
  define at_end where "at_end = at_start\<lparr>tp_offset := tp_offset at_start + ?n, tp_col := tp_col at_start + ?n\<rparr>"
  define nxt where "nxt = (if pi_newline current
           then \<lparr>tp_offset = Suc (tp_offset at_end), tp_line = Suc (tp_line at_end), tp_col = 1\<rparr>
           else at_end\<lparr>tp_offset := Suc (tp_offset at_end), tp_col := Suc (tp_col at_end)\<rparr>)"
  obtain printed2 tokens2 where r: "render_loop pieces nxt = (printed2, tokens2)" by force
  define sep where "sep = (if pi_newline current then CHR 0x0A else CHR '' '')"
  have printed: "printed = pi_text current @ sep # printed2"
    and tokens: "tokens = \<lparr>ot_kind = pi_kind current, ot_start = at_start, ot_end = at_end, ot_origin = pi_origin current,
          ot_trivia = Some (pi_newline current, at_end, nxt)\<rparr> # tokens2"
    using "2.prems"(1) r unfolding sep_def by (auto simp: Let_def at_end_def nxt_def)
  have "length (before @ pi_text current @ [sep]) = tp_offset nxt"
    using "2.prems"(2) by (simp add: nxt_def at_end_def)
  from "2.IH" [OF refl at_end_def nxt_def r this] "2.prems"(2) show ?case
    unfolding printed tokens by (simp add: at_end_def)
qed

text \<open>
  C39: where the tokens of a file stand one behind the other, the walk over them ends; without a replacement the
  text stays as it is, otherwise the tokens of the result are, in order, exactly the pieces its text holds at
  their places, and the end of the file stands behind it.
\<close>

theorem expandTokensWithSyntax_tiles:
  assumes "sorted_wrt (<) (map (\<lambda>t. tp_offset (st_start t)) (tf_tokens f))"
  shows "\<exists>r s. expandTokensWithSyntax raw f fileID initial imports = Some (r, s) \<and>
    (\<not> re_changed r \<longrightarrow> re_source r = tf_source f) \<and>
    (re_changed r \<longrightarrow> (\<exists>pieces ex. expand_loop raw f fileID imports 0 (merge_state initial new_expander) [] = Some (pieces, ex) \<and>
      map (\<lambda>t. take (tp_offset (ot_end t) - tp_offset (ot_start t)) (drop (tp_offset (ot_start t)) (re_source r)))
        (butlast (re_tokens r)) = map pi_text pieces \<and>
      map ot_kind (butlast (re_tokens r)) = map pi_kind pieces \<and>
      re_tokens r \<noteq> [] \<and> tp_offset (ot_start (last (re_tokens r))) = length (re_source r)))"
proof -
  from expand_loop_ends [OF assms] obtain pieces ex
    where l: "expand_loop raw f fileID imports 0 (merge_state initial new_expander) [] = Some (pieces, ex)" by fast
  obtain printed tokens where r: "render pieces = (printed, tokens)" by force
  from render_loop_tiles [OF r [unfolded render_def], of "[]"] show ?thesis
    by (simp add: expandTokensWithSyntax_def l r)
qed

section \<open>Macros that stand for nothing\<close>

text \<open>
  The number of replacements that an expansion makes. The budget counts the pieces written only.
\<close>

function replacements :: "raw_tokens \<Rightarrow> macros \<Rightarrow> piece list \<Rightarrow> nat \<Rightarrow> string list \<Rightarrow> expansion \<Rightarrow> nat" where
  "replacements raw defs [] depth disabled st = 0"
| "replacements raw defs (current # rest) depth disabled st =
    (if xp_count st > maximumExpandedTokens then 0
     else (case (if pi_kind current = Identifier then defs (pi_text current) else None) of
       None \<Rightarrow> replacements raw defs rest depth disabled (st\<lparr>xp_count := Suc (xp_count st)\<rparr>)
     | Some m \<Rightarrow>
         if ma_name m \<in> set disabled
         then replacements raw defs rest depth disabled (st\<lparr>xp_complete := False, xp_count := Suc (xp_count st)\<rparr>)
         else if depth \<ge> maximumExpansionDepth then 0
         else if ma_function m \<and> (rest = [] \<or> pi_kind (hd rest) \<noteq> LParen)
         then replacements raw defs rest depth disabled (st\<lparr>xp_count := Suc (xp_count st)\<rparr>)
         else (case replacement raw m (current # rest) of
           (None, consumed) \<Rightarrow> replacements raw defs (drop (consumed - 1) rest) depth disabled
             (st\<lparr>xp_complete := False, xp_count := xp_count st + consumed\<rparr>)
         | (Some replaced, consumed) \<Rightarrow>
             Suc (replacements raw defs replaced (Suc depth) (ma_name m # disabled) st +
               replacements raw defs (drop (consumed - 1) rest) depth disabled
                 ((snd (expandPieces raw defs replaced (Suc depth) (ma_name m # disabled) st))\<lparr>xp_changed := True\<rparr>)))))"
  by pat_completeness auto
termination
  by (relation "measures [\<lambda>(raw, defs, input, depth, disabled, st). maximumExpansionDepth - depth,
      \<lambda>(raw, defs, input, depth, disabled, st). length input]") auto

declare replacements.simps [simp del]

text \<open>\<open>#define M\<close>, \<open>#define MM M M\<close>, \<open>#define MMM MM MM\<close> and so on.\<close>

definition level :: "nat \<Rightarrow> string" where
  "level k = replicate (Suc k) (CHR ''M'')"

definition body_piece :: "string \<Rightarrow> nat \<Rightarrow> piece" where
  "body_piece name offset =
    (let at_offset = (\<lambda>n. \<lparr>tp_offset = n, tp_line = 1, tp_col = n\<rparr>)
     in (name_piece name)\<lparr>pi_span := \<lparr>ts_file = 0, ts_start = at_offset offset, ts_end = at_offset (offset + length name)\<rparr>\<rparr>)"

definition doubling_macros :: macros where
  "doubling_macros name =
    (if name = [] \<or> \<not> list_all (\<lambda>c. c = CHR ''M'') name then None
     else Some \<lparr>ma_name = name, ma_parameters = [],
       ma_body = (if length name = 1 then [] else [body_piece (tl name) 0, body_piece (tl name) (Suc (length (tl name)))]),
       ma_function = False\<rparr>)"

lemma level_macro:
  "doubling_macros (level k) = Some \<lparr>ma_name = level k, ma_parameters = [],
     ma_body = (if k = 0 then [] else [body_piece (level (k - 1)) 0, body_piece (level (k - 1)) (Suc (length (level (k - 1))))]),
     ma_function = False\<rparr>"
proof -
  have "tl (level k) = level (k - 1)" if "k \<noteq> 0" using that by (cases k) (simp_all add: level_def)
  then show ?thesis by (auto simp: doubling_macros_def level_def list_all_iff)
qed

lemma level_replacement:
  "\<exists>replaced. replacement raw (the (doubling_macros (level k))) (p # rest) = (Some replaced, 1) \<and>
    map pi_text replaced = (if k = 0 then [] else [level (k - 1), level (k - 1)]) \<and>
    (\<forall>q\<in>set replaced. pi_kind q = Identifier)"
proof -
  have "level j \<noteq> ''%%''" for j by (simp add: level_def Cons_replicate_eq)
  then show ?thesis
    by (auto simp: level_macro replacement_def substitute_def Let_def parameter_indexes_def body_piece_def name_piece_def)
qed

lemma replacements_step:
  assumes "invoked defs p rest depth disabled st m" "replacement raw m (p # rest) = (Some replaced, 1)"
  shows "replacements raw defs (p # rest) depth disabled st =
    Suc (replacements raw defs replaced (Suc depth) (ma_name m # disabled) st +
      replacements raw defs rest depth disabled ((snd (expandPieces raw defs replaced (Suc depth) (ma_name m # disabled) st))\<lparr>xp_changed := True\<rparr>))"
  using assms unfolding invoked_def by (subst replacements.simps(2)) auto

lemma doubling_expansion:
  assumes "pi_kind p = Identifier" "pi_text p = level k" "depth + k < maximumExpansionDepth"
    "\<And>j. j \<le> k \<Longrightarrow> level j \<notin> set disabled" "xp_count st \<le> maximumExpandedTokens"
  shows "expandPieces raw doubling_macros (p # rest) depth disabled st =
      expandPieces raw doubling_macros rest depth disabled (st\<lparr>xp_changed := True\<rparr>) \<and>
    replacements raw doubling_macros (p # rest) depth disabled st =
      2 ^ Suc k - 1 + replacements raw doubling_macros rest depth disabled (st\<lparr>xp_changed := True\<rparr>)"
  using assms
proof (induction k arbitrary: p rest depth disabled st)
  case 0
  let ?m = "the (doubling_macros (level 0))"
  have m: "doubling_macros (pi_text p) = Some ?m" "ma_name ?m = level 0" "\<not> ma_function ?m"
    using "0.prems"(2) by (simp_all add: level_macro)
  have inv: "invoked doubling_macros p rest depth disabled st ?m"
    using "0.prems" m unfolding invoked_def by simp
  obtain replaced where "replacement raw ?m (p # rest) = (Some replaced, 1)" "map pi_text replaced = []"
    using level_replacement [of raw 0 p rest] by auto
  then have rep: "replacement raw ?m (p # rest) = (Some [], 1)" by simp
  obtain r st' where r: "expandPieces raw doubling_macros rest depth disabled (st\<lparr>xp_changed := True\<rparr>) = (r, st')" by force
  have "expandPieces raw doubling_macros (p # rest) depth disabled st = (r, st')"
    using expand_replaced [OF inv rep, of "[]" st r st'] r by (simp add: expandPieces.simps(1))
  with r replacements_step [OF inv rep] show ?case by (simp add: expandPieces.simps(1) replacements.simps(1))
next
  case (Suc k)
  define m where "m = the (doubling_macros (level (Suc k)))"
  have m: "doubling_macros (pi_text p) = Some m" "ma_name m = level (Suc k)" "\<not> ma_function m"
    using Suc.prems(2) by (simp_all add: level_macro m_def)
  have inv: "invoked doubling_macros p rest depth disabled st m"
    using Suc.prems m unfolding invoked_def by simp
  obtain replaced where replaced: "replacement raw m (p # rest) = (Some replaced, 1)"
    "map pi_text replaced = [level k, level k]" "\<forall>q\<in>set replaced. pi_kind q = Identifier"
    using level_replacement [of raw "Suc k" p rest] unfolding m_def [symmetric] by auto
  from replaced(2) obtain q1 q2 where two: "replaced = [q1, q2]" "pi_text q1 = level k" "pi_text q2 = level k"
    unfolding map_eq_Cons_conv by auto
  with replaced have rep: "replacement raw m (p # rest) = (Some [q1, q2], 1)"
    and q: "pi_text q1 = level k" "pi_text q2 = level k" "pi_kind q1 = Identifier" "pi_kind q2 = Identifier"
    by simp_all
  let ?disabled = "level (Suc k) # disabled"
  have free: "level j \<notin> set ?disabled" if "j \<le> k" for j
  proof -
    have "length (level j) \<noteq> length (level (Suc k))" using that by (simp add: level_def)
    then show ?thesis using Suc.prems(4) [of j] that by auto
  qed
  have deep: "Suc depth + k < maximumExpansionDepth" using Suc.prems(3) by simp
  note one = Suc.IH [where rest = "[q2]", OF q(3,1) deep free Suc.prems(5)]
  have two: "expandPieces raw doubling_macros [q2] (Suc depth) ?disabled (st\<lparr>xp_changed := True\<rparr>) =
      expandPieces raw doubling_macros [] (Suc depth) ?disabled (st\<lparr>xp_changed := True\<rparr>) \<and>
    replacements raw doubling_macros [q2] (Suc depth) ?disabled (st\<lparr>xp_changed := True\<rparr>) = 2 ^ Suc k - 1"
    using Suc.IH [where rest = "[]" and st = "st\<lparr>xp_changed := True\<rparr>", OF q(4,2) deep free] Suc.prems(5)
    by (simp add: replacements.simps(1))
  have inner: "expandPieces raw doubling_macros [q1, q2] (Suc depth) (ma_name m # disabled) st = ([], st\<lparr>xp_changed := True\<rparr>)"
    "replacements raw doubling_macros [q1, q2] (Suc depth) (ma_name m # disabled) st = (2 ^ Suc k - 1) + (2 ^ Suc k - 1)"
    using one two by (simp_all add: m(2) expandPieces.simps(1))
  obtain r st' where r: "expandPieces raw doubling_macros rest depth disabled (st\<lparr>xp_changed := True\<rparr>) = (r, st')" by force
  have "expandPieces raw doubling_macros (p # rest) depth disabled st = (r, st')"
    using expand_replaced [OF inv rep inner(1), of r st'] r by simp
  moreover have "Suc ((2 ^ Suc k - 1) + (2 ^ Suc k - 1)) = 2 ^ Suc (Suc k) - (1 :: nat)"
    by (cases "2 ^ k :: nat") simp_all
  ultimately show ?case using r replacements_step [OF inv rep] inner by simp
qed

text \<open>
  C40: with macros that double down to one that stands for nothing, expanding the name of the level below the depth
  limit writes nothing and reports a complete expansion whose budget is untouched, and makes \<open>2 ^ Suc k - 1\<close>
  replacements: for the deepest level more than \<open>10 ^ 19\<close>.
\<close>

theorem budget_misses_empty_macros:
  assumes "k < maximumExpansionDepth"
  shows "expandPieces raw doubling_macros [name_piece (level k)] 0 [] fresh_expansion =
      ([], \<lparr>xp_complete = True, xp_changed = True, xp_count = 0\<rparr>) \<and>
    replacements raw doubling_macros [name_piece (level k)] 0 [] fresh_expansion = 2 ^ Suc k - 1"
  using doubling_expansion [of "name_piece (level k)" k 0 "[]" fresh_expansion raw "[]"] assms
  by (simp add: name_piece_def fresh_expansion_def expandPieces.simps(1) replacements.simps(1) Let_def)

theorem budget_misses_empty_macros_witness:
  "replacements (\<lambda>_. []) doubling_macros [name_piece (level 63)] 0 [] fresh_expansion = 18446744073709551615 \<and>
    xp_complete (snd (expandPieces (\<lambda>_. []) doubling_macros [name_piece (level 63)] 0 [] fresh_expansion))"
  using budget_misses_empty_macros [of 63 "\<lambda>_. []"] by (simp add: maximumExpansionDepth_def)

section \<open>Arguments behind a replaced name\<close>

text \<open>\<open>#define F G\<close> and \<open>#define G(%0) %0\<close>, and the text \<open>F(1)\<close>.\<close>

definition renamed_state :: macro_state where
  "renamed_state = \<lparr>ss_definitions =
     [''F'' \<mapsto> \<lparr>ma_name = ''F'', ma_parameters = [], ma_body = [body_piece ''G'' 0], ma_function = False\<rparr>,
      ''G'' \<mapsto> \<lparr>ma_name = ''G'', ma_parameters = [''%0''], ma_body = [(body_piece ''%0'' 0)\<lparr>pi_kind := TokenOther 10\<rparr>],
        ma_function = True\<rparr>],
     ss_undefined = {}\<rparr>"

definition renamed_file :: token_file where
  "renamed_file =
    (let place = (\<lambda>n. \<lparr>tp_offset = n, tp_line = 1, tp_col = Suc n\<rparr>);
         t = (\<lambda>k s n. \<lparr>st_kind = k, st_text = s, st_origin = None, st_start = place n, st_end = place (Suc n), st_endsLine = False\<rparr>);
         root = Node 0 KindSourceFile Dot 0 4 False [] []
     in \<lparr>tf_walk = \<lparr>wm_index = NewIndex root, wm_text = \<lambda>n. [], wm_uncertain = \<lambda>_. False, wm_inactive = \<lambda>_. False\<rparr>,
         tf_source = ''F(1)'', tf_tokens = [t Identifier ''F'' 0, t LParen ''('' 1, t IntLiteral ''1'' 2, t RParen '')'' 3],
         tf_directives = []\<rparr>)"

text \<open>
  A macro without parameters that stands for the name of a macro with parameters is replaced by that name
  alone; the invocation that the name forms with the text behind it is not replaced, and the expansion still
  counts as complete.
\<close>

theorem renamed_macro_not_expanded:
  "(let (pieces, consumed, ex) = expandInvocation (\<lambda>_. []) renamed_file 0
      (sourcePiece 0 True (tf_tokens renamed_file ! 0)) 0 0 [] (merge_state (Some renamed_state) new_expander)
    in map pi_text pieces = [''G''] \<and> consumed = 1 \<and> ex_changed ex \<and> ex_complete ex) \<and>
    map st_text (tf_tokens renamed_file) = [''F'', ''('', ''1'', '')''] \<and>
    map_option (\<lambda>m. (ma_function m, length (ma_parameters m))) (ss_definitions renamed_state ''G'') = Some (True, 1)"
  by (simp add: expandInvocation_def renamed_file_def renamed_state_def merge_state_def new_expander_def fresh_expansion_def
      sourcePiece_def substitute_def parameter_indexes_def body_piece_def name_piece_def expandPieces.simps
      maximumExpansionDepth_def maximumExpandedTokens_def Let_def)

theorem expandTokensWithSyntax_tiles_witness:
  "sorted_wrt (<) (map (\<lambda>t. tp_offset (st_start t)) (tf_tokens renamed_file)) \<and>
    (\<exists>r s. expandTokensWithSyntax (\<lambda>_. []) renamed_file 0 (Some renamed_state) (\<lambda>_. None) = Some (r, s))"
proof -
  have "sorted_wrt (<) (map (\<lambda>t. tp_offset (st_start t)) (tf_tokens renamed_file))" by (simp add: renamed_file_def Let_def)
  with expandTokensWithSyntax_tiles [of renamed_file "\<lambda>_. []" 0 "Some renamed_state" "\<lambda>_. None"] show ?thesis by blast
qed

theorem expandPieces_complete_witness:
  "\<exists>result st. expandPieces (\<lambda>_. []) (ss_definitions renamed_state) [name_piece ''F'', name_piece ''x''] 0 [] fresh_expansion = (result, st) \<and>
    map pi_text result = [''G'', ''x''] \<and> xp_complete st \<and> xp_count st = length result"
proof -
  obtain result st where e: "expandPieces (\<lambda>_. []) (ss_definitions renamed_state) [name_piece ''F'', name_piece ''x''] 0 []
      fresh_expansion = (result, st)" by force
  then have r: "map pi_text result = [''G'', ''x'']" "xp_complete st"
    by (auto simp: renamed_state_def fresh_expansion_def replacement_def substitute_def parameter_indexes_def body_piece_def
        name_piece_def expandPieces.simps maximumExpansionDepth_def maximumExpandedTokens_def Let_def)
  with expandPieces_complete [OF e] e show ?thesis by (simp add: fresh_expansion_def)
qed

end
