(* ===== verification/Spec2Isabelle.thy ===== *)
theory Spec2Isabelle
  imports Prelude Go_Strings Go_Paths Glob Source Diagnostic Fix Fix_Write Suppress Suppress_Rule
    Baseline Syntax_Tree Go_Numbers Defines Conditional Control_Flow Flow_Graph Symbols Constants
    Value_Flow Value_Convergence Value_Paths Options Registry Config Resolve Effective_Rules
    Project_Features Graph_Search Include_Graph Include_Cycles Parse_Errors Engine Engine_Correct
    Declarations Recursive_Components Call_Graph Function_Effects Expand
begin

text \<open>
  A model of pawnlint, a linter for the Pawn language written in Go. The paths below are those of the
  repository. The development follows the way of one run: the text of a file and its syntax tree are
  preprocessed and analysed, the configuration says which rules run, the engine runs them and hides what comments
  suppress, a baseline removes known findings, and fixes are written back; across files, the project model
  answers the questions of the rules.

  \<^bold>\<open>Conventions.\<close> A Go \<open>string\<close> is a list of 8-bit characters. Go's \<open>int\<close> is \<open>int\<close>, an index into a slice \<open>nat\<close>;
  where arithmetic can leave 64 or 32 bits the wrap-around is written out (\<open>Go_Numbers\<close>, \<open>Constants\<close>) and \<open>uint16\<close> and
  \<open>uint64\<close> are words. Structs are records, enumerations datatypes, errors values of \<open>option\<close> or of a sum. A pointer
  that is only compared or used as a key is a number: a node its \<open>n_id\<close>, a block, symbol, scope or file its place
  in the list that owns it, a declaration the file with its node. A Go map is a function to \<open>option\<close>, an association
  list where its order shows, a finite map or a finite set. Where Go's random map order could show, the model takes
  the order the code sorts into. Definitions keep the names of the code, with a suffix or prefix where HOL has the
  name already.

  \<^bold>\<open>Foundations.\<close> \<open>Prelude\<close> holds Go's \<open>sort\<close> package: the locale \<open>go_less\<close> states what a comparison must satisfy and
  gives sortedness and stability; every order of the code is an interpretation (findings, edits, directives,
  baseline entries, declarations). \<open>Go_Strings\<close>, \<open>Go_Paths\<close> and \<open>Go_Numbers\<close> fix what the library functions the code
  calls do. \<open>Source\<close> is \<open>internal/source\<close> (line table and its bisection), \<open>Syntax_Tree\<close> the index and queries of
  \<open>internal/source/walk\<close> (\<open>NewIndex_correct\<close>: parents and nodes of each kind, in document order).

  \<^bold>\<open>Preprocessing.\<close> \<open>Defines\<close> and \<open>Conditional\<close> (\<open>internal/source/walk/conditional.go\<close>): the macros known at a point, as
  shared sorted slices shown to implement sets, and the state of each conditional branch; the states are sound for
  every way the unknown conditions may turn out. \<open>Expand\<close> (\<open>internal/preprocess/expand.go\<close>): macro expansion. Its depth
  and token budget are the code's constants, and recursion is on the depth left and the input left; the walk over
  the tokens of a file is a \<open>partial_function\<close> shown to end on tokens in order. The result is complete when the
  code says so, and its tokens are exactly the pieces of its text; macros that stand for nothing cost
  exponentially many replacements that the budget does not count.

  \<^bold>\<open>Analysis of a file.\<close> \<open>Symbols\<close> and \<open>Constants\<close> (\<open>internal/semantic\<close>): scopes, symbols and references, with the
  well-formedness of the tables and resolution in the innermost scope; constant evaluation, equal to the
  arithmetic of 32-bit words. \<open>Control_Flow\<close> and \<open>Flow_Graph\<close> (\<open>internal/controlflow/model.go\<close>): the graph of a
  function, a block its place in the list, 0 the entry and 1 the exit; the locale \<open>builder_invariant\<close> is the contract
  of the elementary steps of the builder, interpreted for four invariants of the graph. \<open>Value_Flow\<close>,
  \<open>Value_Convergence\<close> and \<open>Value_Paths\<close> (\<open>values.go\<close>): known values of local variables and their propagation by a work
  list, a \<open>partial_function\<close> because it need not end: with a constant local whose initializer varies it does not,
  otherwise it ends and what it reports holds on every path.

  \<^bold>\<open>Configuration and rules.\<close> \<open>Options\<close> and \<open>Registry\<close> (\<open>pkg/lint\<close>): declared options and the normal form of their
  values, registration of rules and of renamed identifiers with the locale \<open>rule_names\<close>. \<open>Glob\<close>
  (\<open>internal/project/glob.go\<close>): path patterns, the table of the code equal to a recursive matching relation. \<open>Config\<close>,
  \<open>Resolve\<close> and \<open>Effective_Rules\<close> (\<open>internal/config\<close>): presets with their cycles, tables of rules, overrides, command
  line, and one order of precedence that they refine. \<open>Project_Features\<close>: the project facts collected are enough for
  every rule that can be in force. Decoders of TOML, JSON and YAML are arguments.

  \<^bold>\<open>The engine.\<close> \<open>Suppress\<close> and \<open>Suppress_Rule\<close> (\<open>pkg/lint/suppress\<close>, \<open>unknown_suppression.go\<close>, \<open>suppression.go\<close>,
  \<open>aliases.go\<close>): suppression comments, what they hide, and the rule that checks them. \<open>Parse_Errors\<close>: syntax errors as
  findings. \<open>Engine\<close> and \<open>Engine_Correct\<close> (\<open>engine.go\<close>, \<open>shared.go\<close>): which rules run and what becomes of their
  findings; rules, parser and shared analysis are functions of the engine record, and a rule that panics is a rule
  whose result is a failure. \<open>Diagnostic\<close> is the record of a finding and the order of the report.

  \<^bold>\<open>The project.\<close> \<open>Include_Graph\<close> and \<open>Include_Cycles\<close> (\<open>pkg/project/units.go\<close>, \<open>cycles.go\<close>, \<open>include_issues.go\<close>,
  \<open>unused_includes.go\<close>, \<open>model.go\<close>) rest on the depth-first search of \<open>Graph_Search\<close>: units and closures are graph
  reachability, cycles are found exactly when there are some, and the phases that leave the units unbuilt find
  none. \<open>Declarations\<close> (\<open>declarations.go\<close>): what the identifiers of all files refer to. \<open>Recursive_Components\<close> and
  \<open>Call_Graph\<close> (\<open>callgraph.go\<close>): calls and the components of recursive functions, Tarjan's search with its recursion as
  a stack of frames. \<open>Function_Effects\<close> (\<open>effects.go\<close>): what functions read and write, through all their calls, by a work
  list shown to end.

  \<^bold>\<open>Results.\<close> \<open>Baseline\<close> (\<open>internal/baseline\<close>): fingerprints over a hash that is a parameter, generation, application.
  \<open>Fix\<close> and \<open>Fix_Write\<close> (\<open>internal/fix\<close>): planning edits, replacing them, writing files through temporary files. The
  operating system is a record of files with a parameter that says which calls fail, so a theorem over it
  covers every pattern of failures.

  \<^bold>\<open>Bounds and termination.\<close> No definition uses fuel of the model's own: bounds that appear are constants of the
  code. Recursion is structural or by a measure; the searches are bounded by the nodes not yet visited; loops that
  need not end are \<open>partial_function (option)\<close> (\<open>value_loop\<close>, \<open>effects_loop\<close>, \<open>expand_loop\<close>), and what is proved of
  them includes that they return, or under which conditions.

  \<^bold>\<open>Not modelled.\<close> The compact twins of the tree, of the semantic model and of the project model repeat the same
  algorithms over arrays. The parser and lexer are another repository. The facade with its caches and concurrency,
  external rules (a subprocess protocol), printers, the command line, generated tables of natives and the tools of
  the repository are input and output or glue. The single rules are queries over the models above; of them only
  \<open>unknown-suppression\<close> is here. Resolving includes on the file system and capturing calls by name during expansion
  are left out of the project model.
\<close>

end
